(* ===== verification/Prelude.thy ===== *)
theory Prelude
  imports Main "HOL-Library.Word" "HOL-Library.Multiset"
begin

text \<open>
  Shared vocabulary of the development: the machine integers of the Rust sources, the
  \<open>Result\<close> and \<open>Option\<close> combinators they use, the parts of the standard library that
  several components call (\<open>Iterator::min_by_key\<close>, \<open>str::split_once\<close>,
  \<open>u8::from_str\<close>, the \<open>Display\<close> form of integers), the generic lemmas about
  them, and the library locales that the components interpret: \<open>codec\<close> (a printed
  form and its parser), \<open>invariant_system\<close> (an invariant of a step relation) and \<open>closing_source\<close>
  (a source of streams that closes for good).
\<close>

section \<open>Types\<close>

type_synonym u8 = "8 word"
type_synonym u32 = "32 word"
type_synonym u64 = "64 word"

text \<open>Rust's \<open>Result<T, E>\<close>: \<open>Inl\<close> is \<open>Err\<close>, \<open>Inr\<close> is \<open>Ok\<close>.\<close>

type_synonym ('e, 'a) rresult = "'e + 'a"

text \<open>Rust strings are byte sequences (UTF-8); a \<open>char\<close> of HOL is one byte.\<close>

type_synonym rstr = string

named_theorems inbound_defs \<open>definitions of the receiver's operations\<close>
named_theorems inbound_inv \<open>invariants of the receiver kept by its operations\<close>

section \<open>Result and Option combinators\<close>

fun map_err :: "('e \<Rightarrow> 'f) \<Rightarrow> ('e, 'a) rresult \<Rightarrow> ('f, 'a) rresult" where
  "map_err f (Inl e) = Inl (f e)"
| "map_err f (Inr x) = Inr x"

fun map_ok :: "('a \<Rightarrow> 'b) \<Rightarrow> ('e, 'a) rresult \<Rightarrow> ('e, 'b) rresult" where
  "map_ok f (Inl e) = Inl e"
| "map_ok f (Inr x) = Inr (f x)"

fun and_then :: "('e, 'a) rresult \<Rightarrow> ('a \<Rightarrow> ('e, 'b) rresult) \<Rightarrow> ('e, 'b) rresult" where
  "and_then (Inl e) f = Inl e"
| "and_then (Inr x) f = f x"

fun ok_or :: "'a option \<Rightarrow> 'e \<Rightarrow> ('e, 'a) rresult" where
  "ok_or None e = Inl e"
| "ok_or (Some x) e = Inr x"

fun opt_filter :: "('a \<Rightarrow> bool) \<Rightarrow> 'a option \<Rightarrow> 'a option" where
  "opt_filter P None = None"
| "opt_filter P (Some x) = (if P x then Some x else None)"

lemma map_err_eq_Inr [simp]: "map_err f r = Inr x \<longleftrightarrow> r = Inr x"
  by (cases r) auto

lemma map_err_eq_Inl: "map_err f r = Inl e \<longleftrightarrow> (\<exists>d. r = Inl d \<and> e = f d)"
  by (cases r) auto

lemma map_ok_eq_Inr: "map_ok f r = Inr y \<longleftrightarrow> (\<exists>x. r = Inr x \<and> y = f x)"
  by (cases r) auto

lemma and_then_eq_Inr: "and_then r f = Inr y \<longleftrightarrow> (\<exists>x. r = Inr x \<and> f x = Inr y)"
  by (cases r) auto

lemma ok_or_eq_Inr [simp]: "ok_or o' e = Inr x \<longleftrightarrow> o' = Some x"
  by (cases o') auto

lemma ok_or_eq_Inl: "ok_or o' e = Inl d \<longleftrightarrow> o' = None \<and> d = e"
  by (cases o') auto

lemma opt_filter_eq_Some [simp]: "opt_filter P o' = Some x \<longleftrightarrow> o' = Some x \<and> P x"
  by (cases o') auto

section \<open>Lists\<close>

text \<open>\<open>slice::last\<close>.\<close>

definition last_opt :: "'a list \<Rightarrow> 'a option" where
  "last_opt xs = (if xs = [] then None else Some (last xs))"

lemma last_opt_Nil [simp]: "last_opt [] = None"
  by (simp add: last_opt_def)

lemma last_opt_snoc [simp]: "last_opt (xs @ [x]) = Some x"
  by (simp add: last_opt_def)

lemma last_opt_None [simp]: "last_opt xs = None \<longleftrightarrow> xs = []"
  by (simp add: last_opt_def)

lemma last_opt_in: "last_opt xs = Some x \<Longrightarrow> x \<in> set xs"
  by (auto simp: last_opt_def split: if_splits)

text \<open>
  \<open>Iterator::min_by_key\<close>: of several elements with the same least key, the first one.
\<close>

fun min_by_key :: "('a \<Rightarrow> 'k::linorder) \<Rightarrow> 'a list \<Rightarrow> 'a option" where
  "min_by_key f [] = None"
| "min_by_key f (x # xs) =
     (case min_by_key f xs of
        None \<Rightarrow> Some x
      | Some y \<Rightarrow> if f y < f x then Some y else Some x)"

lemma min_by_key_None [simp]: "min_by_key f xs = None \<longleftrightarrow> xs = []"
  by (induction xs) (auto split: option.splits)

lemma min_by_key_in: "min_by_key f xs = Some y \<Longrightarrow> y \<in> set xs"
  by (induction xs arbitrary: y) (auto split: option.splits if_splits)

lemma min_by_key_le: "min_by_key f xs = Some y \<Longrightarrow> x \<in> set xs \<Longrightarrow> f y \<le> f x"
  by (induction xs arbitrary: y) (fastforce split: option.splits if_splits)+

lemma length_filter_less_if:
  assumes "x \<in> set xs" and "P x" and "\<not> Q x" and "\<And>y. Q y \<Longrightarrow> P y"
  shows "length (filter Q xs) < length (filter P xs)"
proof -
  have "filter Q xs = filter Q (filter P xs)"
    using assms(4) by (auto intro: filter_cong)
  moreover have "x \<in> set (filter P xs)" and "\<not> Q x"
    using assms by auto
  ultimately show ?thesis
    by (metis length_filter_less)
qed

lemma length_filter_mono: "(\<And>x. x \<in> set xs \<Longrightarrow> P x \<Longrightarrow> Q x) \<Longrightarrow> length (filter P xs) \<le> length (filter Q xs)"
  by (induction xs) (auto intro: le_SucI)

section \<open>Decimal text\<close>

text \<open>\<open>Display\<close> of an unsigned integer.\<close>

definition digit_char :: "nat \<Rightarrow> char" where
  "digit_char d = char_of (48 + d)"

fun show_nat :: "nat \<Rightarrow> rstr" where
  "show_nat n = (if n < 10 then [digit_char n] else show_nat (n div 10) @ [digit_char (n mod 10)])"

declare show_nat.simps [simp del]

definition show_u8 :: "u8 \<Rightarrow> rstr" where
  "show_u8 x = show_nat (unat x)"

text \<open>\<open>u8::is_ascii_digit\<close> and the value of a digit.\<close>

definition is_ascii_digit :: "char \<Rightarrow> bool" where
  "is_ascii_digit c = (48 \<le> (of_char c :: nat) \<and> (of_char c :: nat) \<le> 57)"

definition digit_value :: "char \<Rightarrow> nat" where
  "digit_value c = of_char c - 48"

text \<open>
  \<open>u8::from_str\<close>: an empty string and a lone sign are errors, a leading \<open>+\<close> is skipped,
  every other byte is a decimal digit, and the accumulator must not pass 255
  (\<open>checked_mul\<close>, \<open>checked_add\<close>).
\<close>

fun u8_digits :: "nat \<Rightarrow> rstr \<Rightarrow> nat option" where
  "u8_digits acc [] = Some acc"
| "u8_digits acc (c # cs) =
     (if \<not> is_ascii_digit c then None
      else if 10 * acc > 255 then None
      else if 10 * acc + digit_value c > 255 then None
      else u8_digits (10 * acc + digit_value c) cs)"

definition u8_from_str :: "rstr \<Rightarrow> u8 option" where
  "u8_from_str s =
     (if s = [] \<or> s = ''+'' \<or> s = ''-'' then None
      else map_option of_nat (u8_digits 0 (if hd s = CHR ''+'' then tl s else s)))"

lemma is_ascii_digit_digit_char [simp]: "d < 10 \<Longrightarrow> is_ascii_digit (digit_char d)"
  by (simp add: is_ascii_digit_def digit_char_def)

lemma digit_value_digit_char [simp]: "d < 10 \<Longrightarrow> digit_value (digit_char d) = d"
  by (simp add: digit_value_def digit_char_def)

lemma show_nat_nonempty [simp]: "show_nat n \<noteq> []"
  by (subst show_nat.simps) simp

lemma show_nat_digits: "c \<in> set (show_nat n) \<Longrightarrow> is_ascii_digit c"
proof (induction n rule: show_nat.induct)
  case (1 n)
  then show ?case
    by (cases "n < 10") (auto simp: show_nat.simps [of n])
qed

lemma u8_digits_append:
  "u8_digits acc (xs @ ys) = (case u8_digits acc xs of None \<Rightarrow> None | Some a \<Rightarrow> u8_digits a ys)"
  by (induction xs arbitrary: acc) auto

lemma u8_digits_show_nat: "n \<le> 255 \<Longrightarrow> u8_digits 0 (show_nat n) = Some n"
proof (induction n rule: show_nat.induct)
  case (1 n)
  show ?case
  proof (cases "n < 10")
    case True
    then show ?thesis by (simp add: show_nat.simps [of n])
  next
    case False
    with 1 have "u8_digits 0 (show_nat (n div 10)) = Some (n div 10)" by simp
    with False \<open>n \<le> 255\<close> show ?thesis
      by (simp add: show_nat.simps [of n] u8_digits_append)
  qed
qed

lemma not_digit_sign: "\<not> is_ascii_digit (CHR ''+'')" "\<not> is_ascii_digit (CHR ''-'')"
    "\<not> is_ascii_digit (CHR '':'')" "\<not> is_ascii_digit (CHR '','')"
  by (simp_all add: is_ascii_digit_def)

lemma show_u8_nonempty [simp]: "show_u8 x \<noteq> []"
  by (simp add: show_u8_def)

lemma show_u8_digits: "c \<in> set (show_u8 x) \<Longrightarrow> is_ascii_digit c"
  by (auto simp: show_u8_def dest: show_nat_digits)

lemma u8_from_str_show [simp]: "u8_from_str (show_u8 x) = Some x"
proof -
  have plus: "CHR ''+'' \<notin> set (show_u8 x)" and minus: "CHR ''-'' \<notin> set (show_u8 x)"
    using show_u8_digits not_digit_sign by blast+
  then have "hd (show_u8 x) \<noteq> CHR ''+''" "show_u8 x \<noteq> ''+''" "show_u8 x \<noteq> ''-''"
    by (metis hd_in_set show_u8_nonempty) (use plus minus in auto)
  moreover have "unat x \<le> 255"
    using unsigned_less [of x, where ?'a = nat] by simp
  ultimately show ?thesis
    by (simp add: u8_from_str_def show_u8_def u8_digits_show_nat)
qed

section \<open>Splitting text\<close>

text \<open>\<open>str::split_once\<close> at an ASCII character: the first occurrence splits.\<close>

fun split_once :: "char \<Rightarrow> rstr \<Rightarrow> (rstr \<times> rstr) option" where
  "split_once c [] = None"
| "split_once c (x # xs) =
     (if x = c then Some ([], xs)
      else map_option (\<lambda>(l, r). (x # l, r)) (split_once c xs))"

lemma split_once_append [simp]:
  "c \<notin> set xs \<Longrightarrow> split_once c (xs @ c # ys) = Some (xs, ys)"
  by (induction xs) auto

lemma split_once_None [simp]: "split_once c s = None \<longleftrightarrow> c \<notin> set s"
  by (induction s) auto

lemma split_once_Some: "split_once c s = Some (l, r) \<Longrightarrow> s = l @ c # r \<and> c \<notin> set l"
  by (induction s arbitrary: l r) (auto split: if_splits)

section \<open>Locales shared by the components\<close>

text \<open>
  A printed form \<open>enc\<close> with its parser \<open>dec\<close> over the values satisfying \<open>wf\<close>.
\<close>

locale codec =
  fixes enc :: "'a \<Rightarrow> 'b"
    and dec :: "'b \<Rightarrow> 'e + 'a"
    and wf :: "'a \<Rightarrow> bool"
  assumes dec_enc: "wf a \<Longrightarrow> dec (enc a) = Inr a"
    and dec_wf: "dec b = Inr a \<Longrightarrow> wf a"
begin

lemma enc_inj: "wf a \<Longrightarrow> wf b \<Longrightarrow> enc a = enc b \<longleftrightarrow> a = b"
  by (metis dec_enc sum.inject(2))

lemma reencode: "dec b = Inr a \<Longrightarrow> dec (enc a) = Inr a"
  by (blast intro: dec_enc dec_wf)

lemma range_iff: "(\<exists>b. dec b = Inr a) \<longleftrightarrow> wf a"
  by (blast intro: dec_enc dec_wf)

end

text \<open>The states reachable from an initial state by steps, and the invariants over them.\<close>

inductive reach :: "'s \<Rightarrow> ('s \<Rightarrow> 's \<Rightarrow> bool) \<Rightarrow> 's \<Rightarrow> bool" for s0 step where
  reach_init: "reach s0 step s0"
| reach_step: "reach s0 step s \<Longrightarrow> step s t \<Longrightarrow> reach s0 step t"

lemma reach_trans: "reach s0 step s \<Longrightarrow> reach s step t \<Longrightarrow> reach s0 step t"
  by (rotate_tac, induction rule: reach.induct) (auto intro: reach_step)

locale invariant_system =
  fixes s0 :: 's
    and step :: "'s \<Rightarrow> 's \<Rightarrow> bool"
    and inv :: "'s \<Rightarrow> bool"
  assumes inv_init: "inv s0"
    and inv_step: "step s t \<Longrightarrow> inv s \<Longrightarrow> inv t"
begin

lemma inv_reach: "reach s0 step s \<Longrightarrow> inv s"
  by (induction rule: reach.induct) (auto intro: inv_init inv_step)

end

text \<open>
  Sequences of operations with their results, and the simulation of a detailed system by an
  abstract one: \<open>R n c a\<close> relates their states when \<open>n\<close> more operations are allowed, which a
  counter of the detailed system may limit.
\<close>

inductive op_run :: "('op \<Rightarrow> 's \<Rightarrow> 'r \<Rightarrow> 's \<Rightarrow> bool) \<Rightarrow> ('op \<times> 'r) list \<Rightarrow> 's \<Rightarrow> 's \<Rightarrow> bool" for step where
  op_run_nil: "op_run step [] s s"
| op_run_cons: "step op s r t \<Longrightarrow> op_run step tr t u \<Longrightarrow> op_run step ((op, r) # tr) s u"

locale simulation =
  fixes cstep :: "'op \<Rightarrow> 'c \<Rightarrow> 'r \<Rightarrow> 'c \<Rightarrow> bool"
    and astep :: "'op \<Rightarrow> 'a \<Rightarrow> 'r \<Rightarrow> 'a \<Rightarrow> bool"
    and R :: "nat \<Rightarrow> 'c \<Rightarrow> 'a \<Rightarrow> bool"
  assumes simulate: "cstep op c r c' \<Longrightarrow> R (Suc n) c a \<Longrightarrow> \<exists>a'. astep op a r a' \<and> R n c' a'"
begin

lemma run_simulated:
  "op_run cstep tr c c' \<Longrightarrow> R (length tr + n) c a \<Longrightarrow> \<exists>a'. op_run astep tr a a' \<and> R n c' a'"
proof (induction arbitrary: a rule: op_run.induct)
  case (op_run_nil s)
  then show ?case by (auto intro: op_run.intros)
next
  case (op_run_cons op s r t tr u)
  then obtain a' where "astep op a r a'" "R (length tr + n) t a'"
    using simulate [of op s r t "length tr + n" a] by auto
  then show ?case using op_run_cons.IH op_run.op_run_cons [of astep op a r a'] by blast
qed

end

text \<open>
  A source of streams that closes for good: no step reopens it, and once it is closed no step
  adds a stream.
\<close>

locale closing_source =
  fixes step :: "'s \<Rightarrow> 's \<Rightarrow> bool"
    and is_shut :: "'s \<Rightarrow> bool"
    and streams :: "'s \<Rightarrow> 'k set"
  assumes stays_shut: "step s t \<Longrightarrow> is_shut s \<Longrightarrow> is_shut t"
    and no_new_stream: "step s t \<Longrightarrow> is_shut s \<Longrightarrow> streams t \<subseteq> streams s"
begin

lemma shut_for_good:
  assumes "step\<^sup>*\<^sup>* s t" and "is_shut s"
  shows "is_shut t \<and> streams t \<subseteq> streams s"
  using assms
proof (induction rule: rtranclp_induct)
  case (step t u)
  then show ?case using stays_shut [of t u] no_new_stream [of t u] by blast
qed simp

lemma no_stream_again:
  "step\<^sup>*\<^sup>* s t \<Longrightarrow> is_shut s \<Longrightarrow> streams s = {} \<Longrightarrow> is_shut t \<and> streams t = {}"
  using shut_for_good by blast

end

end
