(* ===== verification/CspclError.thy ===== *)
theory CspclError
  imports Prelude
begin

text \<open>
  The error type of the \<open>cspcl\<close> crate (\<open>rust-bindings/cspcl/src/error.rs\<close>) over the
  C error codes of \<open>src/cspcl.h\<close>. bindgen gives the C enum the type \<open>u32\<close>.
\<close>

section \<open>The C error codes\<close>

type_synonym cspcl_error_t = u32

abbreviation CSPCL_OK :: cspcl_error_t where "CSPCL_OK \<equiv> 0"
abbreviation CSPCL_ERR_INVALID_PARAM :: cspcl_error_t where "CSPCL_ERR_INVALID_PARAM \<equiv> 1"
abbreviation CSPCL_ERR_NO_MEMORY :: cspcl_error_t where "CSPCL_ERR_NO_MEMORY \<equiv> 2"
abbreviation CSPCL_ERR_BUNDLE_TOO_LARGE :: cspcl_error_t where "CSPCL_ERR_BUNDLE_TOO_LARGE \<equiv> 3"
abbreviation CSPCL_ERR_CSP_SEND :: cspcl_error_t where "CSPCL_ERR_CSP_SEND \<equiv> 4"
abbreviation CSPCL_ERR_CSP_RECV :: cspcl_error_t where "CSPCL_ERR_CSP_RECV \<equiv> 5"
abbreviation CSPCL_ERR_TIMEOUT :: cspcl_error_t where "CSPCL_ERR_TIMEOUT \<equiv> 6"
abbreviation CSPCL_ERR_SFP :: cspcl_error_t where "CSPCL_ERR_SFP \<equiv> 7"
abbreviation CSPCL_ERR_NOT_INITIALIZED :: cspcl_error_t where "CSPCL_ERR_NOT_INITIALIZED \<equiv> 8"
abbreviation CSPCL_ERR_CONNECTION :: cspcl_error_t where "CSPCL_ERR_CONNECTION \<equiv> 9"
abbreviation CSPCL_ERR_CSPINIT :: cspcl_error_t where "CSPCL_ERR_CSPINIT \<equiv> 10"
abbreviation CSPCL_ERR_CSP_STACK_INIT :: cspcl_error_t where "CSPCL_ERR_CSP_STACK_INIT \<equiv> 11"
abbreviation CSPCL_ERR_CSP_ZMQHUB_INIT :: cspcl_error_t where "CSPCL_ERR_CSP_ZMQHUB_INIT \<equiv> 12"
abbreviation CSPCL_ERR_CSP_CAN_INIT :: cspcl_error_t where "CSPCL_ERR_CSP_CAN_INIT \<equiv> 13"
abbreviation CSPCL_ERR_CSP_CAN_NOT_SUPPORTED :: cspcl_error_t
  where "CSPCL_ERR_CSP_CAN_NOT_SUPPORTED \<equiv> 14"
abbreviation CSPCL_ERR_CSP_ROUTER :: cspcl_error_t where "CSPCL_ERR_CSP_ROUTER \<equiv> 15"
abbreviation CSPCL_ERR_POOL_FULL :: cspcl_error_t where "CSPCL_ERR_POOL_FULL \<equiv> 16"

section \<open>The Rust error type\<close>

datatype error =
    InvalidParam
  | NoMemory
  | BundleTooLarge
  | CspSend
  | CspRecv
  | Timeout
  | Sfp
  | NotInitialized
  | Connection
  | CspInit
  | CspStackInit
  | CspZmqhubInit
  | CspCanInit
  | CspCanNotSupported
  | CspRouter
  | PoolFull
  | UnknownError cspcl_error_t
  | ParseAddress
  | Cancelled
  | Spawn

text \<open>\<open>cspcl::Result<T>\<close>.\<close>

type_synonym 'a cresult = "(error, 'a) rresult"

definition from_raw :: "cspcl_error_t \<Rightarrow> error" where
  "from_raw code =
     (if code = CSPCL_ERR_INVALID_PARAM then InvalidParam
      else if code = CSPCL_ERR_NO_MEMORY then NoMemory
      else if code = CSPCL_ERR_BUNDLE_TOO_LARGE then BundleTooLarge
      else if code = CSPCL_ERR_CSP_SEND then CspSend
      else if code = CSPCL_ERR_CSP_RECV then CspRecv
      else if code = CSPCL_ERR_TIMEOUT then Timeout
      else if code = CSPCL_ERR_SFP then Sfp
      else if code = CSPCL_ERR_NOT_INITIALIZED then NotInitialized
      else if code = CSPCL_ERR_CONNECTION then Connection
      else if code = CSPCL_ERR_CSPINIT then CspInit
      else if code = CSPCL_ERR_CSP_STACK_INIT then CspStackInit
      else if code = CSPCL_ERR_CSP_ZMQHUB_INIT then CspZmqhubInit
      else if code = CSPCL_ERR_CSP_CAN_INIT then CspCanInit
      else if code = CSPCL_ERR_CSP_CAN_NOT_SUPPORTED then CspCanNotSupported
      else if code = CSPCL_ERR_CSP_ROUTER then CspRouter
      else if code = CSPCL_ERR_POOL_FULL then PoolFull
      else UnknownError code)"

definition from_code :: "cspcl_error_t \<Rightarrow> unit cresult" where
  "from_code code = (if code = CSPCL_OK then Inr () else Inl (from_raw code))"

fun message :: "error \<Rightarrow> rstr" where
  "message InvalidParam = ''Invalid parameter''"
| "message NoMemory = ''Memory allocation failed''"
| "message BundleTooLarge = ''Bundle too large''"
| "message CspSend = ''CSP send failed''"
| "message CspRecv = ''CSP receive failed''"
| "message Timeout = ''Operation timed out''"
| "message Sfp = ''SFP fragmentation/reassembly error''"
| "message NotInitialized = ''CSPCL not initialized''"
| "message Connection = ''CSP connection error''"
| "message CspInit = ''CSP init error''"
| "message CspStackInit = ''CSP stack init failed''"
| "message CspZmqhubInit = ''ZMQ hub interface init failed''"
| "message CspCanInit = ''CAN interface init failed''"
| "message CspCanNotSupported = ''CAN support not compiled in''"
| "message CspRouter = ''CSP router task start failed''"
| "message PoolFull = ''Connection pool full''"
| "message ParseAddress = ''Could not parse csp address''"
| "message Cancelled = ''Operation cancelled''"
| "message Spawn = ''Could not start a receive thread''"
| "message (UnknownError c) = ''Unknown error''"

text \<open>\<open>Error::code\<close>: the Rust-only errors use codes outside the C enum's range.\<close>

fun error_code :: "error \<Rightarrow> cspcl_error_t" where
  "error_code InvalidParam = CSPCL_ERR_INVALID_PARAM"
| "error_code NoMemory = CSPCL_ERR_NO_MEMORY"
| "error_code BundleTooLarge = CSPCL_ERR_BUNDLE_TOO_LARGE"
| "error_code CspSend = CSPCL_ERR_CSP_SEND"
| "error_code CspRecv = CSPCL_ERR_CSP_RECV"
| "error_code Timeout = CSPCL_ERR_TIMEOUT"
| "error_code Sfp = CSPCL_ERR_SFP"
| "error_code NotInitialized = CSPCL_ERR_NOT_INITIALIZED"
| "error_code Connection = CSPCL_ERR_CONNECTION"
| "error_code CspInit = CSPCL_ERR_CSPINIT"
| "error_code CspStackInit = CSPCL_ERR_CSP_STACK_INIT"
| "error_code CspZmqhubInit = CSPCL_ERR_CSP_ZMQHUB_INIT"
| "error_code CspCanInit = CSPCL_ERR_CSP_CAN_INIT"
| "error_code CspCanNotSupported = CSPCL_ERR_CSP_CAN_NOT_SUPPORTED"
| "error_code CspRouter = CSPCL_ERR_CSP_ROUTER"
| "error_code PoolFull = CSPCL_ERR_POOL_FULL"
| "error_code ParseAddress = 420"
| "error_code Cancelled = 421"
| "error_code Spawn = 422"
| "error_code (UnknownError c) = c"

text \<open>\<open>impl fmt::Display for Error\<close>.\<close>

definition error_display :: "error \<Rightarrow> rstr" where
  "error_display e = ''CSPCL Error: '' @ message e"

definition from_sys_result :: "(cspcl_error_t, 'a) rresult \<Rightarrow> 'a cresult" where
  "from_sys_result v = map_err from_raw v"

section \<open>Properties\<close>

lemma from_raw_inj [simp]: "from_raw a = from_raw b \<longleftrightarrow> a = b"
proof
  assume eq: "from_raw a = from_raw b"
  have code: "error_code (from_raw c) = c" for c
    by (simp add: from_raw_def)
  have "error_code (from_raw a) = error_code (from_raw b)" using eq by simp
  then show "a = b" by (simp only: code)
qed simp

lemma from_raw_timeout [simp]: "from_raw c = Timeout \<longleftrightarrow> c = CSPCL_ERR_TIMEOUT"
  by (simp add: from_raw_def)

text \<open>
  The errors that a C error code can produce: not the Rust-only ones, and
  \<open>UnknownError\<close> only around a code that the crate has no name for.
\<close>

fun c_error :: "error \<Rightarrow> bool" where
  "c_error ParseAddress = False"
| "c_error Cancelled = False"
| "c_error Spawn = False"
| "c_error (UnknownError c) = (c = 0 \<or> 16 < c)"
| "c_error e = True"

lemma word_upto_16: "c \<noteq> 0 \<Longrightarrow> \<not> 16 < c \<Longrightarrow>
    c = 1 \<or> c = 2 \<or> c = 3 \<or> c = 4 \<or> c = 5 \<or> c = 6 \<or> c = 7 \<or> c = 8 \<or> c = 9 \<or> c = 10
    \<or> c = 11 \<or> c = 12 \<or> c = 13 \<or> c = 14 \<or> c = 15 \<or> c = (16 :: u32)"
  by (simp only: word_unat_eq_iff word_less_nat_alt not_less unat_numeral unat_0 unat_1)
    (simp, arith)

text \<open>
  No error code is lost when the C layer's code is wrapped into the Rust error type: the
  code read back from the error is the one the C layer returned, for all \<open>2^32\<close> codes, named
  or not.
\<close>

theorem error_code_from_raw: "error_code (from_raw c) = c"
  by (simp add: from_raw_def)

text \<open>
  Wrapping an error's code gives the error back exactly for the errors that C can
  report. For the Rust-only errors it does not (their codes 420 to 422 read back as unknown
  codes), nor for an \<open>UnknownError\<close> around a known code.
\<close>

theorem from_raw_error_code: "from_raw (error_code e) = e \<longleftrightarrow> c_error e"
proof (cases e)
  case (UnknownError c)
  then show ?thesis
    using word_upto_16 [of c] by (auto simp: from_raw_def)
qed (simp_all add: from_raw_def)

end
