(* ===== verification/StdTime.thy ===== *)
theory StdTime
  imports Prelude
begin

text \<open>
  The parts of \<open>std::time\<close> that the sources use. A \<open>Duration\<close> is a number of nanoseconds,
  an \<open>Instant\<close> a reading of the monotonic clock in nanoseconds. \<open>Duration::mul_f64\<close>
  goes through IEEE-754 double arithmetic, which is modelled exactly (round to nearest, ties to
  even, 53 bit significand) on non-negative fractions; the values that occur here are far from
  the limits of the exponent, which is therefore not bounded.
\<close>

section \<open>Durations and instants\<close>

type_synonym duration = nat
type_synonym instant = nat

definition from_millis :: "nat \<Rightarrow> duration" where
  "from_millis ms = ms * 10 ^ 6"

definition from_secs :: "nat \<Rightarrow> duration" where
  "from_secs s = s * 10 ^ 9"

definition as_millis :: "duration \<Rightarrow> nat" where
  "as_millis d = d div 10 ^ 6"

text \<open>\<open>Instant::saturating_duration_since\<close> and \<open>Duration::checked_sub\<close>.\<close>

definition saturating_duration_since :: "instant \<Rightarrow> instant \<Rightarrow> duration" where
  "saturating_duration_since now earlier = now - earlier"

definition checked_sub :: "duration \<Rightarrow> duration \<Rightarrow> duration option" where
  "checked_sub a b = (if b \<le> a then Some (a - b) else None)"

lemmas time_defs = from_millis_def from_secs_def as_millis_def saturating_duration_since_def
  checked_sub_def

section \<open>Double arithmetic on non-negative values\<close>

text \<open>A value is a fraction of naturals; its denominator is positive.\<close>

type_synonym frac = "nat \<times> nat"

text \<open>Rounds \<open>n / d\<close> to the nearest natural, ties to even.\<close>

definition div_even :: "nat \<Rightarrow> nat \<Rightarrow> nat" where
  "div_even n d =
     (let q = n div d; r = n mod d
      in if 2 * r < d then q else if d < 2 * r then q + 1 else if even q then q else q + 1)"

fun bitlen :: "nat \<Rightarrow> nat" where
  "bitlen n = (if n = 0 then 0 else Suc (bitlen (n div 2)))"

declare bitlen.simps [simp del]

text \<open>
  Rounding to a double: scale \<open>n / d\<close> by a power of two so that it lies in
  \<open>[2^52, 2^53)\<close>, round, scale back. \<open>bitlen\<close> gives the power up to one.
\<close>

definition f64_exp :: "nat \<Rightarrow> nat \<Rightarrow> int" where
  "f64_exp n d =
     (let k = int (bitlen n) - int (bitlen d)
      in if 2 ^ nat k * d \<le> 2 ^ nat (- k) * n then k - 52 else k - 53)"

fun f64_round :: "frac \<Rightarrow> frac" where
  "f64_round (n, d) =
     (if n = 0 then (0, 1)
      else let e = f64_exp n d
           in if 0 \<le> e then (div_even n (d * 2 ^ nat e) * 2 ^ nat e, 1)
              else (div_even (n * 2 ^ nat (- e)) d, 2 ^ nat (- e)))"

definition f64_add :: "frac \<Rightarrow> frac \<Rightarrow> frac" where
  "f64_add x y = f64_round (fst x * snd y + fst y * snd x, snd x * snd y)"

definition f64_mul :: "frac \<Rightarrow> frac \<Rightarrow> frac" where
  "f64_mul x y = f64_round (fst x * fst y, snd x * snd y)"

definition f64_div :: "frac \<Rightarrow> frac \<Rightarrow> frac" where
  "f64_div x y = f64_round (fst x * snd y, snd x * fst y)"

definition f64_of_nat :: "nat \<Rightarrow> frac" where
  "f64_of_nat n = f64_round (n, 1)"

text \<open>\<open>Duration::as_secs_f64\<close>, \<open>Duration::from_secs_f64\<close> and \<open>Duration::mul_f64\<close>.\<close>

definition as_secs_f64 :: "duration \<Rightarrow> frac" where
  "as_secs_f64 d =
     f64_add (f64_of_nat (d div 10 ^ 9)) (f64_div (f64_of_nat (d mod 10 ^ 9)) (f64_of_nat (10 ^ 9)))"

definition from_secs_f64 :: "frac \<Rightarrow> duration" where
  "from_secs_f64 x = div_even (fst x * 10 ^ 9) (snd x)"

definition mul_f64 :: "duration \<Rightarrow> frac \<Rightarrow> duration" where
  "mul_f64 d x = from_secs_f64 (f64_mul x (as_secs_f64 d))"

text \<open>The literal \<open>0.9\<close>.\<close>

definition f64_0_9 :: frac where
  "f64_0_9 = f64_round (9, 10)"

lemmas f64_defs = f64_exp_def div_even_def f64_add_def f64_mul_def f64_div_def
  f64_of_nat_def as_secs_f64_def from_secs_f64_def mul_f64_def

lemma f64_0_9_value: "f64_0_9 = (8106479329266893, 2 ^ 53)"
  by (simp add: f64_0_9_def f64_defs bitlen.simps)

lemma mul_f64_10s: "mul_f64 (from_secs 10) f64_0_9 = from_secs 9"
  by (simp add: f64_0_9_value f64_defs time_defs bitlen.simps)

lemma mul_f64_5s: "mul_f64 (from_secs 5) f64_0_9 = from_millis 4500"
  by (simp add: f64_0_9_value f64_defs time_defs bitlen.simps)

end
