(* ===== verification/Receiver.thy ===== *)
theory Receiver
  imports CspclError StdTime
begin

text \<open>
  The receiver of \<open>rust-bindings/cspcl/src/inbound.rs\<close>: the state behind
  \<open>Receiver::state\<close> with the channels of the open streams, and one definition per region
  of code that runs under the state lock. Condition variables only decide when such a region
  runs; the waiting functions are modelled over the sequence of observations a waiting thread
  makes. \<open>Instant::now()\<close> is an argument.
\<close>

section \<open>Bundles and channels\<close>

text \<open>\<open>cspcl::Bundle\<close>.\<close>

record bp_bundle =
  data :: "u8 list"
  src_addr :: u8
  src_port :: u8

type_synonym item = "bp_bundle cresult"
type_synonym cid = nat

text \<open>
  A \<open>futures::channel::mpsc\<close> unbounded channel: its queue, whether sends are still accepted
  (cleared by \<open>UnboundedReceiver::close\<close> and when the last sender is dropped), and its
  number of senders.
\<close>

record channel =
  queue :: "item list"
  is_open :: bool
  senders :: nat

record receiver_state =
  next_id :: nat
  subscribers :: "(nat \<times> cid) list"
  pending :: "bp_bundle list"
  accept_running :: bool
  stopped_at :: "instant option"
  closing :: nat

text \<open>The channels live beside the state: a sender or receiver is the address of its channel.\<close>

record receiver_mem = receiver_state +
  chans :: "cid \<Rightarrow> channel"
  next_cid :: cid

datatype poll = Pending | Ready "item option"

definition upd_chan :: "cid \<Rightarrow> (channel \<Rightarrow> channel) \<Rightarrow> receiver_mem \<Rightarrow> receiver_mem" where
  "upd_chan c f m = m\<lparr>chans := (chans m)(c := f (chans m c))\<rparr>"

definition mpsc_unbounded :: "receiver_mem \<Rightarrow> cid \<times> receiver_mem" where
  "mpsc_unbounded m =
     (next_cid m,
      m\<lparr>chans := (chans m)(next_cid m := \<lparr>queue = [], is_open = True, senders = 1\<rparr>),
        next_cid := Suc (next_cid m)\<rparr>)"

definition clone_sender :: "cid \<Rightarrow> receiver_mem \<Rightarrow> receiver_mem" where
  "clone_sender c = upd_chan c (\<lambda>ch. ch\<lparr>senders := Suc (senders ch)\<rparr>)"

definition drop_sender :: "cid \<Rightarrow> receiver_mem \<Rightarrow> receiver_mem" where
  "drop_sender c = upd_chan c (\<lambda>ch. ch\<lparr>senders := senders ch - 1,
     is_open := (is_open ch \<and> senders ch \<noteq> 1)\<rparr>)"

text \<open>\<open>UnboundedSender::unbounded_send\<close>: the item comes back if the channel is closed.\<close>

definition unbounded_send :: "cid \<Rightarrow> item \<Rightarrow> receiver_mem \<Rightarrow> (item, unit) rresult \<times> receiver_mem" where
  "unbounded_send c it m =
     (if is_open (chans m c)
      then (Inr (), upd_chan c (\<lambda>ch. ch\<lparr>queue := queue ch @ [it]\<rparr>) m)
      else (Inl it, m))"

definition rx_close :: "cid \<Rightarrow> receiver_mem \<Rightarrow> receiver_mem" where
  "rx_close c = upd_chan c (\<lambda>ch. ch\<lparr>is_open := False\<rparr>)"

text \<open>\<open>while let Ok(item) = rx.try_recv()\<close>: takes every queued item.\<close>

definition rx_drain :: "cid \<Rightarrow> receiver_mem \<Rightarrow> item list \<times> receiver_mem" where
  "rx_drain c m = (queue (chans m c), upd_chan c (\<lambda>ch. ch\<lparr>queue := []\<rparr>) m)"

text \<open>
  \<open>InboundStream::poll_next\<close>, which polls the receiving end: an item, the end of the stream
  once the channel is closed and empty, or nothing yet.
\<close>

definition poll_next :: "cid \<Rightarrow> receiver_mem \<Rightarrow> poll \<times> receiver_mem" where
  "poll_next c m =
     (case queue (chans m c) of
        it # its \<Rightarrow> (Ready (Some it), upd_chan c (\<lambda>ch. ch\<lparr>queue := its\<rparr>) m)
      | [] \<Rightarrow> (if is_open (chans m c) then Pending else Ready None, m))"

section \<open>Operations on the state\<close>

text \<open>\<open>ReceiverState::new\<close> (and \<open>Receiver::new\<close>): receiving is off.\<close>

definition receiver_new :: "instant \<Rightarrow> receiver_mem" where
  "receiver_new now =
     \<lparr>next_id = 0, subscribers = [], pending = [], accept_running = False,
      stopped_at = Some now, closing = 0,
      chans = (\<lambda>_. \<lparr>queue = [], is_open = False, senders = 0\<rparr>), next_cid = 0\<rparr>"

definition is_receiving :: "receiver_mem \<Rightarrow> bool" where
  "is_receiving m = (stopped_at m = None)"

definition set_receiving :: "bool \<Rightarrow> instant \<Rightarrow> receiver_mem \<Rightarrow> receiver_mem" where
  "set_receiving on now m =
     (if on then m\<lparr>stopped_at := None\<rparr>
      else case stopped_at m of None \<Rightarrow> m\<lparr>stopped_at := Some now\<rparr> | Some _ \<Rightarrow> m)"

definition deliver :: "item \<Rightarrow> receiver_mem \<Rightarrow> receiver_mem" where
  "deliver it m =
     (case (case last_opt (subscribers m) of
              Some (_, tx) \<Rightarrow> unbounded_send tx it m
            | None \<Rightarrow> (Inl it, m)) of
        (Inr _, m') \<Rightarrow> m'
      | (Inl (Inr b), m') \<Rightarrow> m'\<lparr>pending := pending m' @ [b]\<rparr>
      | (Inl (Inl e), m') \<Rightarrow> m')"

text \<open>
  \<open>Receiver::subscribe\<close> in two parts, as the state lock is released before the accept
  thread is spawned. The first part runs once no close is in progress; it returns the stream's
  sid and channel and whether this call must spawn the accept thread. The local sender \<open>tx\<close>
  stays alive until the function returns.
\<close>

definition subscribe_locked :: "receiver_mem \<Rightarrow> (nat \<times> cid \<times> bool) \<times> receiver_mem" where
  "subscribe_locked m0 =
     (let sid = next_id m0;
          m1 = m0\<lparr>next_id := Suc (next_id m0)\<rparr>;
          (c, m2) = mpsc_unbounded m1;
          start_accept = (\<not> accept_running m2);
          m3 = m2\<lparr>accept_running := True\<rparr>;
          m4 = fold (\<lambda>b m. snd (unbounded_send c (Inr b) m)) (pending m3) (m3\<lparr>pending := []\<rparr>);
          m5 = (clone_sender c m4)\<lparr>subscribers := subscribers m4 @ [(sid, c)]\<rparr>;
          m6 = (if \<not> is_receiving m5 then set_receiving True 0 m5 else m5)
      in ((sid, c, start_accept), m6))"

text \<open>The end of \<open>subscribe\<close> when there was nothing to spawn or the spawn succeeded.\<close>

definition subscribe_done :: "cid \<Rightarrow> receiver_mem \<Rightarrow> receiver_mem" where
  "subscribe_done c m = drop_sender c m"

definition accept_failed :: "nat \<Rightarrow> cid \<Rightarrow> instant \<Rightarrow> receiver_mem \<Rightarrow> receiver_mem" where
  "accept_failed sid c now m0 =
     (let subs = subscribers m0;
          m1 = m0\<lparr>accept_running := False, subscribers := []\<rparr>;
          m2 = fold (\<lambda>(sub, other) m.
                 drop_sender other
                   (if sub \<noteq> sid then snd (unbounded_send other (Inl Spawn) m) else m)) subs m1;
          m3 = set_receiving False now m2;
          (items, m4) = rx_drain c m3
      in fold (\<lambda>it m. case it of Inr b \<Rightarrow> m\<lparr>pending := pending m @ [b]\<rparr> | Inl _ \<Rightarrow> m) items m4)"

text \<open>The end of \<open>subscribe\<close> when the accept thread could not be spawned.\<close>

definition subscribe_failed :: "nat \<Rightarrow> cid \<Rightarrow> instant \<Rightarrow> receiver_mem \<Rightarrow> receiver_mem" where
  "subscribe_failed sid c now m =
     drop_sender c (snd (unbounded_send c (Inl Spawn) (accept_failed sid c now m)))"

definition drop_senders :: "(nat \<times> cid) list \<Rightarrow> receiver_mem \<Rightarrow> receiver_mem" where
  "drop_senders subs m = fold (\<lambda>(_, c) m. drop_sender c m) subs m"

text \<open>\<open>Receiver::unsubscribe\<close>, called by \<open>InboundStream::drop\<close>.\<close>

definition unsubscribe :: "nat \<Rightarrow> cid \<Rightarrow> instant \<Rightarrow> receiver_mem \<Rightarrow> receiver_mem" where
  "unsubscribe sid c now m0 =
     (let m1 = rx_close c m0;
          gone = filter (\<lambda>(sub, _). sub = sid) (subscribers m1);
          m2 = drop_senders gone (m1\<lparr>subscribers := filter (\<lambda>(sub, _). sub \<noteq> sid) (subscribers m1)\<rparr>);
          (items, m3) = rx_drain c m2;
          m4 = fold (\<lambda>it m. case it of Inr b \<Rightarrow> deliver (Inr b) m | Inl _ \<Rightarrow> m) items m3
      in if subscribers m4 = [] \<and> is_receiving m4 then set_receiving False now m4 else m4)"

definition begin_close :: "instant \<Rightarrow> receiver_mem \<Rightarrow> receiver_mem" where
  "begin_close now m0 =
     (let m1 = set_receiving False now m0;
          m2 = drop_senders (subscribers m1) (m1\<lparr>subscribers := []\<rparr>)
      in m2\<lparr>closing := closing m2 + 1\<rparr>)"

text \<open>\<open>CloseGuard::drop\<close>.\<close>

definition close_guard_drop :: "receiver_mem \<Rightarrow> receiver_mem" where
  "close_guard_drop m = m\<lparr>closing := closing m - 1\<rparr>"

text \<open>\<open>AcceptGuard::drop\<close>.\<close>

definition accept_guard_drop :: "bool \<Rightarrow> instant \<Rightarrow> receiver_mem \<Rightarrow> receiver_mem" where
  "accept_guard_drop armed now m0 =
     (if \<not> armed then m0
      else
        let m1 = m0\<lparr>accept_running := False\<rparr>;
            m2 = drop_senders (subscribers m1) (m1\<lparr>subscribers := []\<rparr>)
        in set_receiving False now m2)"

text \<open>The check at the top of \<open>accept_loop\<close>: whether the thread goes on.\<close>

definition accept_loop_check :: "receiver_mem \<Rightarrow> bool \<times> receiver_mem" where
  "accept_loop_check m =
     (if \<not> is_receiving m then (False, m\<lparr>accept_running := False\<rparr>) else (True, m))"

section \<open>Times and waiting\<close>

definition CSPCL_SFP_TIMEOUT_MS :: nat where "CSPCL_SFP_TIMEOUT_MS = 5000"
definition CSPCL_RX_ACCEPT_POLL_MS :: nat where "CSPCL_RX_ACCEPT_POLL_MS = 100"
definition INBOUND_IDLE_TIMEOUT :: duration where "INBOUND_IDLE_TIMEOUT = from_secs (10 * 60)"
definition ACCEPT_POLL :: duration where "ACCEPT_POLL = from_millis CSPCL_RX_ACCEPT_POLL_MS"
definition ACCEPT_ERROR_BACKOFF :: duration where "ACCEPT_ERROR_BACKOFF = from_secs 1"
definition STOP_GRACE :: duration where "STOP_GRACE = from_secs 1"

lemmas inbound_consts = CSPCL_SFP_TIMEOUT_MS_def CSPCL_RX_ACCEPT_POLL_MS_def
  INBOUND_IDLE_TIMEOUT_def ACCEPT_POLL_def ACCEPT_ERROR_BACKOFF_def STOP_GRACE_def

text \<open>\<open>rdp_ms\<close> is what libcsp's \<open>csp_rdp_get_opt\<close> reports.\<close>

definition expected_read_timeout :: "u32 \<Rightarrow> duration" where
  "expected_read_timeout rdp_ms = from_millis (max CSPCL_SFP_TIMEOUT_MS (unat rdp_ms))"

definition woken_by_reset :: "duration \<Rightarrow> duration \<Rightarrow> bool" where
  "woken_by_reset elapsed expected = (elapsed < mul_f64 expected f64_0_9)"

text \<open>\<open>Receiver::now_ms\<close>: the cast to \<open>u64\<close> truncates.\<close>

definition now_ms :: "instant \<Rightarrow> instant \<Rightarrow> u64" where
  "now_ms epoch now = of_nat (as_millis (saturating_duration_since now epoch))"

definition grace_left :: "instant \<Rightarrow> instant \<Rightarrow> duration option" where
  "grace_left stopped now =
     opt_filter (\<lambda>left. left \<noteq> 0) (checked_sub STOP_GRACE (saturating_duration_since now stopped))"

definition saturating_sub_u64 :: "u64 \<Rightarrow> u64 \<Rightarrow> u64" where
  "saturating_sub_u64 a b = (if a < b then 0 else a - b)"

definition idle_expired :: "u64 \<Rightarrow> u64 \<Rightarrow> bool" where
  "idle_expired last_active now =
     (of_nat (as_millis INBOUND_IDLE_TIMEOUT) \<le> saturating_sub_u64 now last_active)"

text \<open>
  \<open>Receiver::wait_while_stopped\<close>, over what the thread sees each time it holds the lock:
  \<open>stopped_at\<close> and the clock. \<open>None\<close>: still waiting.
\<close>

fun wait_while_stopped :: "(instant option \<times> instant) list \<Rightarrow> bool option" where
  "wait_while_stopped [] = None"
| "wait_while_stopped ((None, _) # obs) = Some True"
| "wait_while_stopped ((Some stopped, now) # obs) =
     (case grace_left stopped now of
        None \<Rightarrow> Some False
      | Some _ \<Rightarrow> wait_while_stopped obs)"

text \<open>
  \<open>Receiver::pause_while_receiving\<close>, over \<open>is_receiving\<close> and the time passed each time
  the thread holds the lock: whether the pause is over.
\<close>

fun pause_while_receiving :: "duration \<Rightarrow> (bool \<times> duration) list \<Rightarrow> bool" where
  "pause_while_receiving pause [] = False"
| "pause_while_receiving pause ((receiving, passed) # obs) =
     (\<not> receiving \<or> pause \<le> passed \<or> pause_while_receiving pause obs)"

end
