(* ===== verification/ReceiverInv.thy ===== *)
theory ReceiverInv
  imports Receiver
begin

text \<open>
  The invariant of the receiver's state and channels, kept by every operation of
  \<open>Receiver\<close>, and the bundles it holds: no operation loses or duplicates one.
\<close>

section \<open>Bundles held\<close>

text \<open>The bundles among the items of a queue; receive errors are not bundles.\<close>

fun oks :: "item list \<Rightarrow> bp_bundle list" where
  "oks [] = []"
| "oks (Inr b # its) = b # oks its"
| "oks (Inl e # its) = oks its"

text \<open>Everything acknowledged to a sender and not yet taken by a reader.\<close>

definition held :: "receiver_mem \<Rightarrow> bp_bundle multiset" where
  "held m = mset (pending m) + (\<Sum>c<next_cid m. mset (oks (queue (chans m c))))"

lemma oks_append [simp]: "oks (xs @ ys) = oks xs @ oks ys"
  by (induction xs rule: oks.induct) auto

lemma oks_map_Inr [simp]: "oks (map Inr bs) = bs"
  by (induction bs) auto

section \<open>Frame lemmas of the channel operations\<close>

lemma upd_chan_sel [simp]:
  "next_id (upd_chan c f m) = next_id m" "subscribers (upd_chan c f m) = subscribers m"
  "pending (upd_chan c f m) = pending m" "accept_running (upd_chan c f m) = accept_running m"
  "stopped_at (upd_chan c f m) = stopped_at m" "closing (upd_chan c f m) = closing m"
  "next_cid (upd_chan c f m) = next_cid m" "chans (upd_chan c f m) = (chans m)(c := f (chans m c))"
  by (simp_all add: upd_chan_def)

text \<open>The same memory but for the channels.\<close>

definition same_state :: "receiver_mem \<Rightarrow> receiver_mem \<Rightarrow> bool" where
  "same_state m m' \<longleftrightarrow>
     next_id m' = next_id m \<and> subscribers m' = subscribers m \<and> pending m' = pending m \<and>
     accept_running m' = accept_running m \<and> stopped_at m' = stopped_at m \<and>
     closing m' = closing m \<and> next_cid m' = next_cid m"

lemma same_state_refl [simp]: "same_state m m"
  by (simp add: same_state_def)

lemma same_state_upd_chan [simp]: "same_state m (upd_chan c f m') \<longleftrightarrow> same_state m m'"
  by (simp add: same_state_def)

definition chan_drop :: "channel \<Rightarrow> channel" where
  "chan_drop ch = ch\<lparr>senders := senders ch - 1, is_open := (is_open ch \<and> senders ch \<noteq> 1)\<rparr>"

lemma drop_sender_chans [simp]: "chans (drop_sender c m) = (chans m)(c := chan_drop (chans m c))"
  by (simp add: drop_sender_def chan_drop_def)

lemma drop_sender_same [simp]: "same_state m (drop_sender c m') \<longleftrightarrow> same_state m m'"
  by (simp add: drop_sender_def)

lemma chan_drop_sel [simp]:
  "queue (chan_drop ch) = queue ch" "senders (chan_drop ch) = senders ch - 1"
  "is_open (chan_drop ch) \<longleftrightarrow> is_open ch \<and> senders ch \<noteq> 1"
  by (simp_all add: chan_drop_def)

lemma send_all:
  "is_open (chans m c) \<Longrightarrow>
   fold (\<lambda>b m. snd (unbounded_send c (Inr b) m)) bs m =
     upd_chan c (\<lambda>ch. ch\<lparr>queue := queue ch @ map Inr bs\<rparr>) m"
proof (induction bs arbitrary: m)
  case Nil
  then show ?case by (simp add: upd_chan_def)
next
  case (Cons b bs)
  then show ?case by (simp add: unbounded_send_def upd_chan_def)
qed

lemma drop_senders_spec:
  "distinct (map snd subs) \<Longrightarrow>
   same_state m (drop_senders subs m) \<and>
   chans (drop_senders subs m) =
     (\<lambda>c. if c \<in> snd ` set subs then chan_drop (chans m c) else chans m c)"
proof (induction subs arbitrary: m)
  case Nil
  then show ?case by (simp add: drop_senders_def)
next
  case (Cons s subs)
  obtain i c where s: "s = (i, c)" by (cases s)
  have step: "drop_senders ((i, c) # subs) m = drop_senders subs (drop_sender c m)"
    by (simp add: drop_senders_def)
  have dist: "distinct (map snd subs)" and new: "c \<notin> snd ` set subs"
    using Cons.prems by (simp_all add: s)
  note IH = Cons.IH [OF dist, of "drop_sender c m"]
  have "same_state m (drop_sender c m)" by simp
  with IH have "same_state m (drop_senders (s # subs) m)"
    by (simp add: step s same_state_def)
  moreover have "chans (drop_senders (s # subs) m) x =
      (if x \<in> snd ` set (s # subs) then chan_drop (chans m x) else chans m x)" for x
    using IH new by (simp add: step s)
  ultimately show ?case by blast
qed

text \<open>
  \<open>accept_failed\<close>'s loop over the subscribers: every other stream gets the spawn error.
\<close>

definition chan_fail :: "channel \<Rightarrow> channel" where
  "chan_fail ch = (if is_open ch then ch\<lparr>queue := queue ch @ [Inl Spawn]\<rparr> else ch)"

lemma chan_fail_sel [simp]:
  "senders (chan_fail ch) = senders ch" "is_open (chan_fail ch) = is_open ch"
  "oks (queue (chan_fail ch)) = oks (queue ch)"
  by (simp_all add: chan_fail_def)

lemma snd_unbounded_send_fail:
  "same_state m (snd (unbounded_send c (Inl Spawn) m)) \<and>
   chans (snd (unbounded_send c (Inl Spawn) m)) = (chans m)(c := chan_fail (chans m c))"
  by (auto simp: unbounded_send_def chan_fail_def)

lemma fail_others_spec:
  assumes "distinct (map snd subs)" and "\<forall>(s, c) \<in> set subs. s = c"
  shows "same_state m (fold (\<lambda>(sub, other) m. drop_sender other
      (if sub \<noteq> sid then snd (unbounded_send other (Inl Spawn) m) else m)) subs m) \<and>
    chans (fold (\<lambda>(sub, other) m. drop_sender other
      (if sub \<noteq> sid then snd (unbounded_send other (Inl Spawn) m) else m)) subs m) =
    (\<lambda>c. if c \<in> snd ` set subs
         then chan_drop (if c \<noteq> sid then chan_fail (chans m c) else chans m c)
         else chans m c)"
  using assms
proof (induction subs arbitrary: m)
  case Nil
  then show ?case by simp
next
  case (Cons s subs)
  obtain c where s: "s = (c, c)" using Cons.prems by (cases s) auto
  define m1 where "m1 = drop_sender c (if c \<noteq> sid then snd (unbounded_send c (Inl Spawn) m) else m)"
  have m1: "same_state m m1"
    "chans m1 = (chans m)(c := chan_drop (if c \<noteq> sid then chan_fail (chans m c) else chans m c))"
    using snd_unbounded_send_fail [of m c] by (auto simp: m1_def)
  have prems: "distinct (map snd subs)" "\<forall>(s, c) \<in> set subs. s = c" and new: "c \<notin> snd ` set subs"
    using Cons.prems by (simp_all add: s)
  note IH = Cons.IH [OF prems, of m1]
  let ?m = "fold (\<lambda>(sub, other) m. drop_sender other
      (if sub \<noteq> sid then snd (unbounded_send other (Inl Spawn) m) else m)) subs m1"
  have "same_state m ?m"
    using IH m1(1) by (simp add: same_state_def)
  moreover have "chans ?m x = (if x \<in> snd ` set (s # subs)
      then chan_drop (if x \<noteq> sid then chan_fail (chans m x) else chans m x) else chans m x)" for x
    using IH new m1(2) by (simp add: s)
  ultimately show ?case
    by (simp add: s m1_def [symmetric] fun_eq_iff)
qed

lemma keep_bundles:
  "fold (\<lambda>it m. case it of Inr b \<Rightarrow> m\<lparr>pending := pending m @ [b]\<rparr> | Inl _ \<Rightarrow> m) items m =
     m\<lparr>pending := pending m @ oks items\<rparr>"
  by (induction items arbitrary: m rule: oks.induct) auto

section \<open>Delivering\<close>

lemma deliver_Nil:
  "subscribers m = [] \<Longrightarrow>
   deliver it m = (case it of Inr b \<Rightarrow> m\<lparr>pending := pending m @ [b]\<rparr> | Inl _ \<Rightarrow> m)"
  by (simp add: deliver_def split: sum.split)

lemma deliver_newest:
  assumes "subscribers m = subs @ [(s, c)]" and "is_open (chans m c)"
  shows "deliver it m = upd_chan c (\<lambda>ch. ch\<lparr>queue := queue ch @ [it]\<rparr>) m"
  using assms by (simp add: deliver_def unbounded_send_def)

lemma redeliver_Nil:
  "subscribers m = [] \<Longrightarrow>
   fold (\<lambda>it m. case it of Inr b \<Rightarrow> deliver (Inr b) m | Inl _ \<Rightarrow> m) items m =
     m\<lparr>pending := pending m @ oks items\<rparr>"
  by (induction items arbitrary: m rule: oks.induct) (simp_all add: deliver_Nil)

lemma redeliver_newest:
  "subscribers m = subs @ [(s, c)] \<Longrightarrow> is_open (chans m c) \<Longrightarrow>
   fold (\<lambda>it m. case it of Inr b \<Rightarrow> deliver (Inr b) m | Inl _ \<Rightarrow> m) items m =
     upd_chan c (\<lambda>ch. ch\<lparr>queue := queue ch @ map Inr (oks items)\<rparr>) m"
proof (induction items arbitrary: m rule: oks.induct)
  case 1
  then show ?case by (simp add: upd_chan_def)
next
  case (2 b its)
  then show ?case by (simp add: deliver_newest upd_chan_def)
next
  case (3 e its)
  then show ?case by simp
qed

section \<open>The invariant\<close>

text \<open>
  \<open>lv\<close> are the channels of the streams that exist, \<open>op\<close> those whose \<open>subscribe\<close> has
  not returned yet and still holds its own sender.
\<close>

definition sub_chans :: "receiver_mem \<Rightarrow> cid set" where
  "sub_chans m = snd ` set (subscribers m)"

definition chans_inv :: "cid set \<Rightarrow> cid set \<Rightarrow> receiver_mem \<Rightarrow> bool" where
  "chans_inv op lv m \<longleftrightarrow>
     next_id m = next_cid m \<and>
     (\<forall>(s, c) \<in> set (subscribers m). s = c) \<and> distinct (map snd (subscribers m)) \<and>
     op \<subseteq> lv \<and> lv \<subseteq> {..<next_cid m} \<and> sub_chans m \<subseteq> lv \<and>
     (\<forall>c. senders (chans m c) = (if c \<in> sub_chans m then 1 else 0) + (if c \<in> op then 1 else 0)) \<and>
     (\<forall>c. is_open (chans m c) \<longleftrightarrow> c \<in> lv \<and> 0 < senders (chans m c)) \<and>
     (\<forall>c. c \<notin> lv \<longrightarrow> queue (chans m c) = [])"

definition state_inv :: "receiver_mem \<Rightarrow> bool" where
  "state_inv m \<longleftrightarrow>
     (is_receiving m \<longleftrightarrow> subscribers m \<noteq> []) \<and>
     (0 < closing m \<longrightarrow> subscribers m = []) \<and>
     (subscribers m \<noteq> [] \<longrightarrow> pending m = [] \<and> accept_running m)"

definition rx_inv :: "cid set \<Rightarrow> cid set \<Rightarrow> receiver_mem \<Rightarrow> bool" where
  "rx_inv op lv m \<longleftrightarrow> chans_inv op lv m \<and> state_inv m"

lemma chans_invI:
  assumes "next_id m = next_cid m"
    and "\<And>s c. (s, c) \<in> set (subscribers m) \<Longrightarrow> s = c" and "distinct (map snd (subscribers m))"
    and "op \<subseteq> lv" and "\<And>c. c \<in> lv \<Longrightarrow> c < next_cid m" and "\<And>c. c \<in> sub_chans m \<Longrightarrow> c \<in> lv"
    and "\<And>c. senders (chans m c) = (if c \<in> sub_chans m then 1 else 0) + (if c \<in> op then 1 else 0)"
    and "\<And>c. is_open (chans m c) \<longleftrightarrow> c \<in> lv \<and> 0 < senders (chans m c)"
    and "\<And>c. c \<notin> lv \<Longrightarrow> queue (chans m c) = []"
  shows "chans_inv op lv m"
  unfolding chans_inv_def using assms by (intro conjI ballI allI impI) auto

lemma chans_invD:
  assumes "chans_inv op lv m"
  shows "next_id m = next_cid m"
    and "(s, c) \<in> set (subscribers m) \<Longrightarrow> s = c" and "distinct (map snd (subscribers m))"
    and "op \<subseteq> lv" and "c \<in> lv \<Longrightarrow> c < next_cid m" and "c \<in> sub_chans m \<Longrightarrow> c \<in> lv"
    and "senders (chans m c) = (if c \<in> sub_chans m then 1 else 0) + (if c \<in> op then 1 else 0)"
    and "is_open (chans m c) \<longleftrightarrow> c \<in> lv \<and> 0 < senders (chans m c)"
    and "c \<notin> lv \<Longrightarrow> queue (chans m c) = []"
  using assms by (auto simp: chans_inv_def simp del: split_paired_All)

lemma rx_invD: "rx_inv op lv m \<Longrightarrow> chans_inv op lv m" "rx_inv op lv m \<Longrightarrow> state_inv m"
  by (simp_all add: rx_inv_def)

lemma rx_inv_new: "rx_inv {} {} (receiver_new now)"
  by (simp add: rx_inv_def chans_inv_def state_inv_def receiver_new_def sub_chans_def is_receiving_def)

lemma subs_snoc:
  assumes "chans_inv op lv m" and "subscribers m \<noteq> []"
  obtains subs c where "subscribers m = subs @ [(c, c)]" "is_open (chans m c)" "c \<in> lv"
    "c < next_cid m"
proof -
  obtain subs s c where subs: "subscribers m = subs @ [(s, c)]"
    using assms(2) by (metis rev_exhaust surj_pair)
  then have in_subs: "(s, c) \<in> set (subscribers m)" "c \<in> sub_chans m"
    by (auto simp: sub_chans_def)
  with assms(1) have "s = c" "c \<in> lv" "c < next_cid m" "is_open (chans m c)"
    by (auto simp: chans_inv_def)
  with subs that show ?thesis by blast
qed

lemma held_upd:
  assumes "c < next_cid m"
  shows "held (upd_chan c f m) + mset (oks (queue (chans m c)))
    = held m + mset (oks (queue (f (chans m c))))"
proof -
  have "(\<Sum>d<next_cid m. mset (oks (queue (((chans m)(c := f (chans m c))) d))))
      = mset (oks (queue (f (chans m c)))) + (\<Sum>d\<in>{..<next_cid m} - {c}. mset (oks (queue (chans m d))))"
    using assms by (simp add: sum.remove [of _ c])
  moreover have "(\<Sum>d<next_cid m. mset (oks (queue (chans m d))))
      = mset (oks (queue (chans m c))) + (\<Sum>d\<in>{..<next_cid m} - {c}. mset (oks (queue (chans m d))))"
    using assms by (simp add: sum.remove [of _ c])
  ultimately show ?thesis
    by (simp add: held_def)
qed

section \<open>Every operation keeps the invariant and every bundle\<close>

lemma subscribe_locked_eq:
  "subscribe_locked m =
    ((next_id m, next_cid m, \<not> accept_running m),
     m\<lparr>next_id := Suc (next_id m), subscribers := subscribers m @ [(next_id m, next_cid m)],
       pending := [], accept_running := True, stopped_at := None,
       chans := (chans m)(next_cid m := \<lparr>queue = map Inr (pending m), is_open = True, senders = 2\<rparr>),
       next_cid := Suc (next_cid m)\<rparr>)"
  by (cases m) (simp add: subscribe_locked_def mpsc_unbounded_def send_all clone_sender_def
      upd_chan_def set_receiving_def is_receiving_def Let_def numeral_2_eq_2)

lemma subscribe_locked_inv:
  assumes inv: "rx_inv op lv m" and "closing m = 0" and sub: "subscribe_locked m = ((s, c, st), m')"
  shows "s = c" "c = next_cid m" "c \<notin> lv" "st \<longleftrightarrow> \<not> accept_running m" "accept_running m'"
    and "rx_inv (insert c op) (insert c lv) m'"
proof -
  have c: "c = next_cid m" and s: "s = next_id m" and st: "st \<longleftrightarrow> \<not> accept_running m"
    using sub by (auto simp: subscribe_locked_eq)
  show "s = c" "c \<notin> lv" using inv c s by (auto simp: rx_inv_def chans_inv_def)
  show "c = next_cid m" "st \<longleftrightarrow> \<not> accept_running m" using c st by auto
  show "accept_running m'" using sub by (auto simp: subscribe_locked_eq)
  have new: "c \<notin> sub_chans m" "c \<notin> op" using inv c by (auto simp: rx_inv_def chans_inv_def)
  have f: "next_id m' = Suc (next_id m)" "next_cid m' = Suc (next_cid m)"
      "subscribers m' = subscribers m @ [(c, c)]" "sub_chans m' = insert c (sub_chans m)"
      "chans m' = (chans m)(c := \<lparr>queue = map Inr (pending m), is_open = True, senders = 2\<rparr>)"
    using sub c s \<open>s = c\<close> by (auto simp: subscribe_locked_eq sub_chans_def)
  note D = chans_invD [OF rx_invD(1) [OF inv]]
  have "chans_inv (insert c op) (insert c lv) m'"
  proof (rule chans_invI, goal_cases)
    case 3
    show ?case using D(3) new(1) by (auto simp: f sub_chans_def)
  next
    case (5 d)
    then show ?case using D(5) [of d] c by (auto simp: f)
  next
    case (7 d)
    show ?case using D(7) [of d] new by (auto simp: f)
  next
    case (8 d)
    show ?case using D(8) [of d] by (auto simp: f)
  qed (use D new in \<open>auto simp: f\<close>)
  moreover have "state_inv m'"
    using sub \<open>closing m = 0\<close> by (auto simp: subscribe_locked_eq state_inv_def is_receiving_def)
  ultimately show "rx_inv (insert c op) (insert c lv) m'"
    by (simp add: rx_inv_def)
qed

lemma subscribe_locked_held: "held (snd (subscribe_locked m)) = held m"
  by (simp add: subscribe_locked_eq held_def)

text \<open>Dropping senders loses no bundle and keeps everything but the channels.\<close>

lemma held_same:
  "same_state m m' \<Longrightarrow> (\<And>c. oks (queue (chans m' c)) = oks (queue (chans m c))) \<Longrightarrow> held m' = held m"
  by (simp add: held_def same_state_def)

lemma drop_sender_held [simp]: "held (drop_sender c m) = held m"
  by (rule held_same) auto

lemma drop_senders_held:
  "distinct (map snd subs) \<Longrightarrow> held (drop_senders subs m) = held m"
  using drop_senders_spec [of subs m] by (intro held_same) auto

lemma subscribe_done_inv:
  assumes inv: "rx_inv op lv m" and c: "c \<in> op"
  shows "rx_inv (op - {c}) lv (subscribe_done c m)"
proof -
  have st: "same_state m (subscribe_done c m)"
    by (simp add: subscribe_done_def)
  note D = chans_invD [OF rx_invD(1) [OF inv]]
  have f: "sub_chans (subscribe_done c m) = sub_chans m" "next_id (subscribe_done c m) = next_id m"
      "next_cid (subscribe_done c m) = next_cid m" "subscribers (subscribe_done c m) = subscribers m"
      "chans (subscribe_done c m) = (chans m)(c := chan_drop (chans m c))"
    using st by (simp_all add: sub_chans_def same_state_def subscribe_done_def)
  have "chans_inv (op - {c}) lv (subscribe_done c m)"
  proof (rule chans_invI, goal_cases)
    case (7 d)
    show ?case using D(7) [of d] c by (auto simp: f)
  next
    case (8 d)
    show ?case using D(7) [of d] D(8) [of d] c by (auto simp: f)
  qed (use D in \<open>auto simp: f\<close>)
  with inv st show ?thesis
    by (auto simp: rx_inv_def state_inv_def is_receiving_def same_state_def)
qed

lemma subscribe_done_held [simp]: "held (subscribe_done c m) = held m"
  by (simp add: subscribe_done_def)

lemma subscribe_done_sel [simp]:
  "closing (subscribe_done c m) = closing m" "accept_running (subscribe_done c m) = accept_running m"
  "subscribers (subscribe_done c m) = subscribers m" "stopped_at (subscribe_done c m) = stopped_at m"
  using drop_sender_same [of m c m] by (simp_all add: subscribe_done_def same_state_def)

text \<open>Operations that leave the subscribers alone, and those that end every stream.\<close>

lemma chans_inv_same:
  assumes inv: "chans_inv op lv m"
    and f: "next_id m' = next_id m" "next_cid m' = next_cid m" "subscribers m' = subscribers m"
    and ch: "\<And>c. senders (chans m' c) = senders (chans m c)" "\<And>c. is_open (chans m' c) = is_open (chans m c)"
    and q: "\<And>c. c \<notin> lv \<Longrightarrow> queue (chans m' c) = []"
  shows "chans_inv op lv m'"
proof -
  note D = chans_invD [OF inv]
  have sc: "sub_chans m' = sub_chans m" by (simp add: sub_chans_def f)
  show ?thesis
  proof (rule chans_invI, goal_cases)
    case (7 c)
    show ?case using D(7) [of c] by (simp add: sc ch)
  next
    case (8 c)
    show ?case using D(8) [of c] by (simp add: ch)
  qed (use D q in \<open>auto simp: f sc\<close>)
qed

lemma chans_inv_clear:
  assumes inv: "chans_inv op lv m"
    and f: "next_id m' = next_id m" "next_cid m' = next_cid m" "subscribers m' = []"
    and ch: "\<And>c. senders (chans m' c) = senders (chans m c) - (if c \<in> sub_chans m then 1 else 0)"
      "\<And>c. is_open (chans m' c) \<longleftrightarrow> is_open (chans m c) \<and> 0 < senders (chans m' c)"
    and q: "\<And>c. c \<notin> lv \<Longrightarrow> queue (chans m' c) = []"
  shows "chans_inv op lv m'"
proof -
  note D = chans_invD [OF inv]
  have sc: "sub_chans m' = {}" by (simp add: sub_chans_def f)
  show ?thesis
  proof (rule chans_invI, goal_cases)
    case (7 c)
    show ?case using D(7) [of c] by (simp add: sc ch(1))
  next
    case (8 c)
    show ?case using D(7) [of c] D(8) [of c] by (auto simp: ch)
  qed (use D q in \<open>auto simp: f sc\<close>)
qed

text \<open>Stopping, after the subscribers were dropped.\<close>

lemma set_receiving_sel [simp]:
  "next_id (set_receiving on now m) = next_id m" "subscribers (set_receiving on now m) = subscribers m"
  "pending (set_receiving on now m) = pending m"
  "accept_running (set_receiving on now m) = accept_running m"
  "closing (set_receiving on now m) = closing m"
  "next_cid (set_receiving on now m) = next_cid m" "chans (set_receiving on now m) = chans m"
  "stopped_at (set_receiving True now m) = None"
  "stopped_at (set_receiving False now m) =
     (case stopped_at m of None \<Rightarrow> Some now | Some t \<Rightarrow> Some t)"
  by (auto simp: set_receiving_def split: option.split)

lemma is_receiving_off [simp]: "\<not> is_receiving (set_receiving False now m)"
  by (simp add: is_receiving_def split: option.split)

lemma set_receiving_held [simp]: "held (set_receiving on now m) = held m"
  by (simp add: held_def)

lemma cleared_inv:
  assumes inv: "chans_inv op lv m" and m': "m' = drop_senders (subscribers m) m1"
    and m1: "subscribers m1 = []" "next_id m1 = next_id m" "next_cid m1 = next_cid m"
      "pending m1 = pending m" "chans m1 = chans m"
  shows "chans_inv op lv m'" "held m' = held m"
    "accept_running m' = accept_running m1" "closing m' = closing m1" "stopped_at m' = stopped_at m1"
    "subscribers m' = []" "pending m' = pending m"
proof -
  note D = chans_invD [OF inv]
  have spec: "same_state m1 m'" "chans m' = (\<lambda>c. if c \<in> sub_chans m then chan_drop (chans m c) else chans m c)"
    using drop_senders_spec [OF D(3), of m1] unfolding m' m1(5) sub_chans_def by blast+
  then show f: "accept_running m' = accept_running m1" "closing m' = closing m1"
      "stopped_at m' = stopped_at m1" "subscribers m' = []" "pending m' = pending m"
    by (simp_all add: same_state_def m1)
  have g: "next_id m' = next_id m" "next_cid m' = next_cid m"
    using spec(1) by (simp_all add: same_state_def m1)
  show "chans_inv op lv m'"
  proof (rule chans_inv_clear [OF inv])
    fix c
    show "is_open (chans m' c) \<longleftrightarrow> is_open (chans m c) \<and> 0 < senders (chans m' c)"
      using D(7) [of c] D(8) [of c] by (auto simp: spec(2))
  qed (use D(9) in \<open>auto simp: f g spec(2)\<close>)
  show "held m' = held m"
    by (simp add: held_def f g spec(2)) (rule sum.cong; simp)
qed

lemma state_inv_stopped: "subscribers m = [] \<Longrightarrow> stopped_at m \<noteq> None \<Longrightarrow> state_inv m"
  by (simp add: state_inv_def is_receiving_def)

lemma begin_close_inv:
  assumes inv: "rx_inv op lv m"
  shows "rx_inv op lv (begin_close now m)" "held (begin_close now m) = held m"
    "closing (begin_close now m) = Suc (closing m)" "\<not> is_receiving (begin_close now m)"
    "accept_running (begin_close now m) = accept_running m" "subscribers (begin_close now m) = []"
proof -
  define m1 where "m1 = (set_receiving False now m)\<lparr>subscribers := []\<rparr>"
  define m2 where "m2 = drop_senders (subscribers m) m1"
  have eq: "begin_close now m = m2\<lparr>closing := closing m2 + 1\<rparr>"
    by (simp add: begin_close_def Let_def m2_def m1_def)
  have t: "stopped_at m1 \<noteq> None" "closing m1 = closing m" "accept_running m1 = accept_running m"
    by (simp_all add: m1_def split: option.split)
  have "subscribers m1 = []" "next_id m1 = next_id m" "next_cid m1 = next_cid m"
      "pending m1 = pending m" "chans m1 = chans m"
    by (simp_all add: m1_def)
  note c = cleared_inv [OF rx_invD(1) [OF inv] m2_def this]
  show f: "closing (begin_close now m) = Suc (closing m)" "subscribers (begin_close now m) = []"
    "accept_running (begin_close now m) = accept_running m" "\<not> is_receiving (begin_close now m)"
    using c t by (simp_all add: eq is_receiving_def)
  show "held (begin_close now m) = held m"
    using c(2) by (simp add: eq held_def)
  have "chans_inv op lv (begin_close now m)"
    by (rule chans_inv_same [OF c(1)]) (use chans_invD(9) [OF c(1)] in \<open>simp_all add: eq\<close>)
  then show "rx_inv op lv (begin_close now m)"
    using f c t by (simp add: rx_inv_def state_inv_def)
qed

lemma accept_guard_drop_inv:
  assumes inv: "rx_inv op lv m"
  shows "rx_inv op lv (accept_guard_drop True now m)"
    "held (accept_guard_drop True now m) = held m"
    "closing (accept_guard_drop True now m) = closing m"
    "\<not> accept_running (accept_guard_drop True now m)" "\<not> is_receiving (accept_guard_drop True now m)"
proof -
  define m1 where "m1 = m\<lparr>accept_running := False, subscribers := []\<rparr>"
  define m2 where "m2 = drop_senders (subscribers m) m1"
  have eq: "accept_guard_drop True now m = set_receiving False now m2"
    by (simp add: accept_guard_drop_def Let_def m2_def m1_def)
  have "subscribers m1 = []" "next_id m1 = next_id m" "next_cid m1 = next_cid m"
      "pending m1 = pending m" "chans m1 = chans m"
    by (simp_all add: m1_def)
  note c = cleared_inv [OF rx_invD(1) [OF inv] m2_def this]
  have r: "accept_running m1 = False" "closing m1 = closing m" by (simp_all add: m1_def)
  show "held (accept_guard_drop True now m) = held m" "closing (accept_guard_drop True now m) = closing m"
    "\<not> accept_running (accept_guard_drop True now m)" "\<not> is_receiving (accept_guard_drop True now m)"
    using c r by (simp_all add: eq)
  have "chans_inv op lv (set_receiving False now m2)"
    by (rule chans_inv_same [OF c(1)]) (use chans_invD(9) [OF c(1)] in simp_all)
  moreover have "state_inv (set_receiving False now m2)"
    by (rule state_inv_stopped) (use c in \<open>simp_all split: option.split\<close>)
  ultimately show "rx_inv op lv (accept_guard_drop True now m)"
    by (simp add: rx_inv_def eq)
qed

lemma close_guard_drop_inv:
  assumes inv: "rx_inv op lv m"
  shows "rx_inv op lv (close_guard_drop m)" "held (close_guard_drop m) = held m"
proof -
  note D = rx_invD [OF inv]
  have "chans_inv op lv (close_guard_drop m)"
    by (rule chans_inv_same [OF D(1)]) (use chans_invD(9) [OF D(1)] in \<open>simp_all add: close_guard_drop_def\<close>)
  with D(2) show "rx_inv op lv (close_guard_drop m)"
    by (auto simp: rx_inv_def state_inv_def close_guard_drop_def is_receiving_def)
  show "held (close_guard_drop m) = held m"
    by (simp add: held_def close_guard_drop_def)
qed

lemma accept_loop_check_inv:
  assumes inv: "rx_inv op lv m" and chk: "accept_loop_check m = (go, m')"
  shows "rx_inv op lv m'" "held m' = held m" "go \<longleftrightarrow> is_receiving m"
    "closing m' = closing m" "accept_running m' \<longleftrightarrow> (accept_running m \<and> go)"
    "is_receiving m' = is_receiving m"
proof -
  note D = rx_invD [OF inv]
  have eq: "m' = (if is_receiving m then m else m\<lparr>accept_running := False\<rparr>)" "go \<longleftrightarrow> is_receiving m"
    using chk by (auto simp: accept_loop_check_def split: if_splits)
  have "chans_inv op lv m'"
    by (rule chans_inv_same [OF D(1)]) (use chans_invD(9) [OF D(1)] in \<open>simp_all add: eq\<close>)
  with D(2) show "rx_inv op lv m'"
    by (auto simp: rx_inv_def state_inv_def eq is_receiving_def)
  show "held m' = held m" "go \<longleftrightarrow> is_receiving m" "closing m' = closing m"
    "accept_running m' \<longleftrightarrow> (accept_running m \<and> go)" "is_receiving m' = is_receiving m"
    using D(2) by (auto simp: held_def eq is_receiving_def state_inv_def)
qed

lemma deliver_same:
  assumes "chans_inv op lv m"
  shows "subscribers (deliver it m) = subscribers m" "closing (deliver it m) = closing m"
    "accept_running (deliver it m) = accept_running m" "stopped_at (deliver it m) = stopped_at m"
    "subscribers m \<noteq> [] \<Longrightarrow> pending (deliver it m) = pending m"
proof -
  have "subscribers (deliver it m) = subscribers m \<and> closing (deliver it m) = closing m \<and>
    accept_running (deliver it m) = accept_running m \<and> stopped_at (deliver it m) = stopped_at m \<and>
    (subscribers m \<noteq> [] \<longrightarrow> pending (deliver it m) = pending m)"
  proof (cases "subscribers m = []")
    case True
    then show ?thesis by (simp add: deliver_Nil split: sum.split)
  next
    case False
    from subs_snoc [OF assms this] obtain subs c where "subscribers m = subs @ [(c, c)]" "is_open (chans m c)"
      by metis
    then show ?thesis by (simp add: deliver_newest)
  qed
  then show "subscribers (deliver it m) = subscribers m" "closing (deliver it m) = closing m"
    "accept_running (deliver it m) = accept_running m" "stopped_at (deliver it m) = stopped_at m"
    "subscribers m \<noteq> [] \<Longrightarrow> pending (deliver it m) = pending m"
    by blast+
qed

text \<open>Appending items to the queue of an existing stream.\<close>

lemma append_queue_inv:
  assumes inv: "chans_inv op lv m" and c: "c \<in> lv"
  shows "chans_inv op lv (upd_chan c (\<lambda>ch. ch\<lparr>queue := queue ch @ its\<rparr>) m)"
    "held (upd_chan c (\<lambda>ch. ch\<lparr>queue := queue ch @ its\<rparr>) m) = held m + mset (oks its)"
proof -
  show "chans_inv op lv (upd_chan c (\<lambda>ch. ch\<lparr>queue := queue ch @ its\<rparr>) m)"
    by (rule chans_inv_same [OF inv]) (use chans_invD(9) [OF inv] c in auto)
  show "held (upd_chan c (\<lambda>ch. ch\<lparr>queue := queue ch @ its\<rparr>) m) = held m + mset (oks its)"
    using held_upd [of c m "\<lambda>ch. ch\<lparr>queue := queue ch @ its\<rparr>"] chans_invD(5) [OF inv c] by simp
qed

lemma keep_pending_inv:
  assumes inv: "chans_inv op lv m"
  shows "chans_inv op lv (m\<lparr>pending := pending m @ bs\<rparr>)"
    "held (m\<lparr>pending := pending m @ bs\<rparr>) = held m + mset bs"
proof -
  show "chans_inv op lv (m\<lparr>pending := pending m @ bs\<rparr>)"
    by (rule chans_inv_same [OF inv]) (use chans_invD(9) [OF inv] in auto)
  show "held (m\<lparr>pending := pending m @ bs\<rparr>) = held m + mset bs"
    by (simp add: held_def)
qed

lemma deliver_inv:
  assumes inv: "rx_inv op lv m"
  shows "rx_inv op lv (deliver it m)" "held (deliver it m) = held m + mset (oks [it])"
proof -
  note D = rx_invD [OF inv]
  have "chans_inv op lv (deliver it m) \<and> held (deliver it m) = held m + mset (oks [it])"
  proof (cases "subscribers m = []")
    case True
    show ?thesis
      using D(1) keep_pending_inv [OF D(1)] by (cases it) (simp_all add: deliver_Nil [OF True])
  next
    case False
    from subs_snoc [OF D(1) this] obtain subs c where c: "subscribers m = subs @ [(c, c)]"
      "is_open (chans m c)" "c \<in> lv" by metis
    show ?thesis
      unfolding deliver_newest [OF c(1,2)] using append_queue_inv [OF D(1) c(3)] by simp
  qed
  then have ch: "chans_inv op lv (deliver it m)" and h: "held (deliver it m) = held m + mset (oks [it])"
    by auto
  show "held (deliver it m) = held m + mset (oks [it])" by (rule h)
  have "state_inv (deliver it m)"
    using D(2) deliver_same [OF D(1), of it] by (simp add: state_inv_def is_receiving_def)
  with ch show "rx_inv op lv (deliver it m)" by (simp add: rx_inv_def)
qed

lemma poll_next_inv:
  assumes inv: "rx_inv op lv m" and c: "c \<in> lv" and poll: "poll_next c m = (p, m')"
  shows "rx_inv op lv m'"
    "held m = held m' + (case p of Ready (Some it) \<Rightarrow> mset (oks [it]) | _ \<Rightarrow> {#})"
    "accept_running m' = accept_running m" "closing m' = closing m" "is_receiving m' = is_receiving m"
    "subscribers m' = subscribers m"
proof -
  note D = rx_invD [OF inv]
  have cases: "(queue (chans m c) = [] \<and> m' = m \<and> (p = Pending \<or> p = Ready None)) \<or>
    (\<exists>it its. queue (chans m c) = it # its \<and> p = Ready (Some it) \<and>
      m' = upd_chan c (\<lambda>ch. ch\<lparr>queue := its\<rparr>) m)"
    using poll by (auto simp: poll_next_def split: list.splits if_splits)
  then have f: "subscribers m' = subscribers m" "closing m' = closing m" "pending m' = pending m"
      "accept_running m' = accept_running m" "is_receiving m' = is_receiving m"
    by (auto simp: is_receiving_def)
  then show "accept_running m' = accept_running m" "closing m' = closing m"
    "is_receiving m' = is_receiving m" "subscribers m' = subscribers m" by auto
  have "chans_inv op lv m'"
    using cases
  proof (elim disjE exE conjE)
    fix it its
    assume m': "m' = upd_chan c (\<lambda>ch. ch\<lparr>queue := its\<rparr>) m"
    show ?thesis
      by (rule chans_inv_same [OF D(1)]) (use chans_invD(9) [OF D(1)] c in \<open>auto simp: m'\<close>)
  qed (use D in simp_all)
  with D(2) f show "rx_inv op lv m'"
    by (simp add: rx_inv_def state_inv_def)
  show "held m = held m' + (case p of Ready (Some it) \<Rightarrow> mset (oks [it]) | _ \<Rightarrow> {#})"
    using cases
  proof (elim disjE exE conjE)
    fix it its
    assume q: "queue (chans m c) = it # its" and p: "p = Ready (Some it)"
      and m': "m' = upd_chan c (\<lambda>ch. ch\<lparr>queue := its\<rparr>) m"
    have "held m' + mset (oks (it # its)) = held m + mset (oks its)"
      using held_upd [of c m "\<lambda>ch. ch\<lparr>queue := its\<rparr>"] chans_invD(5) [OF D(1) c] q by (simp add: m')
    then show ?thesis by (cases it) (auto simp: p)
  qed auto
qed

text \<open>Emptying the queue of a stream takes its bundles out of the held ones.\<close>

lemma drain_inv:
  assumes inv: "chans_inv op lv m" and dr: "rx_drain c m = (items, m')" and c: "c \<in> lv"
  shows "chans_inv op lv m'" "held m' + mset (oks items) = held m" "same_state m m'"
    "queue (chans m' c) = []"
proof -
  have eq: "items = queue (chans m c)" "m' = upd_chan c (\<lambda>ch. ch\<lparr>queue := []\<rparr>) m"
    using dr by (auto simp: rx_drain_def)
  show "chans_inv op lv m'"
    by (rule chans_inv_same [OF inv]) (use chans_invD(9) [OF inv] in \<open>auto simp: eq\<close>)
  show "held m' + mset (oks items) = held m"
    using held_upd [of c m "\<lambda>ch. ch\<lparr>queue := []\<rparr>"] chans_invD(5) [OF inv c] by (simp add: eq)
  show "same_state m m'" "queue (chans m' c) = []"
    by (simp_all add: eq)
qed

lemma accept_failed_inv:
  assumes inv: "rx_inv op lv m" and c: "c \<in> op"
  shows "rx_inv op lv (accept_failed c c now m)" "held (accept_failed c c now m) = held m"
    "closing (accept_failed c c now m) = closing m" "\<not> accept_running (accept_failed c c now m)"
    "\<not> is_receiving (accept_failed c c now m)"
proof -
  note D = chans_invD [OF rx_invD(1) [OF inv]]
  have lv: "c \<in> lv" using c D(4) by blast
  define m1 where "m1 = m\<lparr>accept_running := False, subscribers := []\<rparr>"
  define m2 where "m2 = fold (\<lambda>(sub, other) m. drop_sender other
      (if sub \<noteq> c then snd (unbounded_send other (Inl Spawn) m) else m)) (subscribers m) m1"
  define m3 where "m3 = set_receiving False now m2"
  obtain items m4 where m4: "rx_drain c m3 = (items, m4)" by (cases "rx_drain c m3")
  have eq: "accept_failed c c now m = m4\<lparr>pending := pending m4 @ oks items\<rparr>"
    using m4 by (simp add: accept_failed_def Let_def m1_def [symmetric] m2_def [symmetric]
        m3_def [symmetric] keep_bundles)
  have subs: "\<forall>(s, c) \<in> set (subscribers m). s = c" using D(2) by blast
  have ch1: "chans m1 = chans m" by (simp add: m1_def)
  have st2: "same_state m1 m2" and ch2: "chans m2 = (\<lambda>d. if d \<in> sub_chans m
      then chan_drop (if d \<noteq> c then chan_fail (chans m d) else chans m d) else chans m d)"
    using fail_others_spec [OF D(3) subs, of m1 c]
    unfolding m2_def [symmetric] ch1 sub_chans_def [symmetric] by blast+
  have f3: "next_id m3 = next_id m" "next_cid m3 = next_cid m" "subscribers m3 = []"
      "closing m3 = closing m" "accept_running m3 = False" "pending m3 = pending m"
      "stopped_at m3 \<noteq> None" "chans m3 = chans m2"
    using st2 by (auto simp: m3_def m1_def same_state_def split: option.split)
  have inv3: "chans_inv op lv m3"
  proof (rule chans_inv_clear [OF rx_invD(1) [OF inv] f3(1-3)])
    fix d
    show "senders (chans m3 d) = senders (chans m d) - (if d \<in> sub_chans m then 1 else 0)"
      by (simp add: f3(8) ch2)
    show "is_open (chans m3 d) \<longleftrightarrow> is_open (chans m d) \<and> 0 < senders (chans m3 d)"
      using D(7) [of d] D(8) [of d] by (auto simp: f3(8) ch2)
    show "d \<notin> lv \<Longrightarrow> queue (chans m3 d) = []"
      using D(6) [of d] D(9) [of d] by (auto simp: f3(8) ch2)
  qed
  have "oks (queue (chans m3 d)) = oks (queue (chans m d))" for d
    by (simp add: f3(8) ch2)
  then have held3: "held m3 = held m"
    by (simp add: held_def f3)
  note dr = drain_inv [OF inv3 m4 lv] and f4 = drain_inv(3) [OF inv3 m4 lv, unfolded same_state_def]
  note kp = keep_pending_inv [OF dr(1), of "oks items"]
  show "held (accept_failed c c now m) = held m"
    using dr(2) kp(2) held3 by (simp add: eq)
  show "closing (accept_failed c c now m) = closing m" "\<not> accept_running (accept_failed c c now m)"
    "\<not> is_receiving (accept_failed c c now m)"
    using f3 f4 by (simp_all add: eq is_receiving_def)
  have "state_inv (accept_failed c c now m)"
    by (rule state_inv_stopped) (use f3 f4 in \<open>simp_all add: eq\<close>)
  with kp(1) show "rx_inv op lv (accept_failed c c now m)"
    by (simp add: rx_inv_def eq)
qed

lemma subscribe_failed_inv:
  assumes inv: "rx_inv op lv m" and c: "c \<in> op"
  shows "rx_inv (op - {c}) lv (subscribe_failed c c now m)" "held (subscribe_failed c c now m) = held m"
    "closing (subscribe_failed c c now m) = closing m" "\<not> accept_running (subscribe_failed c c now m)"
    "\<not> is_receiving (subscribe_failed c c now m)"
proof -
  define m1 where "m1 = accept_failed c c now m"
  define m2 where "m2 = snd (unbounded_send c (Inl Spawn) m1)"
  note a = accept_failed_inv [OF inv c, of now, folded m1_def]
  note D = chans_invD [OF rx_invD(1) [OF a(1)]]
  have lv: "c \<in> lv" using c D(4) by blast
  have "is_open (chans m1 c)"
    using c D(7) [of c] D(8) [of c] lv by simp
  then have m2: "m2 = upd_chan c (\<lambda>ch. ch\<lparr>queue := queue ch @ [Inl Spawn]\<rparr>) m1"
    by (simp add: m2_def unbounded_send_def)
  note q = append_queue_inv [OF rx_invD(1) [OF a(1)] lv, of "[Inl Spawn]", folded m2]
  have "rx_inv op lv m2"
    using q(1) rx_invD(2) [OF a(1)] by (simp add: rx_inv_def state_inv_def m2 is_receiving_def)
  from subscribe_done_inv [OF this c] show "rx_inv (op - {c}) lv (subscribe_failed c c now m)"
    by (simp add: subscribe_failed_def subscribe_done_def m2_def m1_def)
  show "held (subscribe_failed c c now m) = held m"
    using q(2) a(2) by (simp add: subscribe_failed_def m2_def [symmetric] m1_def [symmetric])
  have "same_state m1 (subscribe_failed c c now m)"
    by (simp add: subscribe_failed_def m1_def [symmetric] m2_def [symmetric] m2)
  with a show "closing (subscribe_failed c c now m) = closing m"
    "\<not> accept_running (subscribe_failed c c now m)" "\<not> is_receiving (subscribe_failed c c now m)"
    by (simp_all add: same_state_def is_receiving_def)
qed

lemma redeliver_inv:
  assumes inv: "chans_inv op lv m"
    and m'_def: "m' = fold (\<lambda>it m. case it of Inr b \<Rightarrow> deliver (Inr b) m | Inl _ \<Rightarrow> m) items m"
  shows "chans_inv op lv m'" "held m' = held m + mset (oks items)" "subscribers m' = subscribers m"
    "closing m' = closing m" "accept_running m' = accept_running m" "stopped_at m' = stopped_at m"
    "subscribers m \<noteq> [] \<Longrightarrow> pending m' = pending m"
proof -
  have "chans_inv op lv m' \<and> held m' = held m + mset (oks items) \<and> subscribers m' = subscribers m \<and>
    closing m' = closing m \<and> accept_running m' = accept_running m \<and> stopped_at m' = stopped_at m \<and>
    (subscribers m \<noteq> [] \<longrightarrow> pending m' = pending m)"
  proof (cases "subscribers m = []")
    case True
    show ?thesis
      unfolding m'_def redeliver_Nil [OF True] using keep_pending_inv [OF inv] True by simp
  next
    case False
    from subs_snoc [OF inv this] obtain subs c where c: "subscribers m = subs @ [(c, c)]"
      "is_open (chans m c)" "c \<in> lv" by metis
    show ?thesis
      unfolding m'_def redeliver_newest [OF c(1,2)]
      using append_queue_inv [OF inv c(3), of "map Inr (oks items)"] by simp
  qed
  then show "chans_inv op lv m'" "held m' = held m + mset (oks items)" "subscribers m' = subscribers m"
    "closing m' = closing m" "accept_running m' = accept_running m" "stopped_at m' = stopped_at m"
    "subscribers m \<noteq> [] \<Longrightarrow> pending m' = pending m"
    by auto
qed

text \<open>The part of \<open>unsubscribe\<close> that removes the stream, before its bundles are handed on.\<close>

lemma unsubscribe_remove:
  assumes inv: "rx_inv op lv m" and c: "c \<in> lv" "c \<notin> op"
    and m3: "rx_drain c (drop_senders (filter (\<lambda>(sub, _). sub = c) (subscribers m))
      ((rx_close c m)\<lparr>subscribers := filter (\<lambda>(sub, _). sub \<noteq> c) (subscribers m)\<rparr>)) = (items, m3)"
  shows "chans_inv op (lv - {c}) m3" "held m3 + mset (oks items) = held m"
    "subscribers m3 = filter (\<lambda>(sub, _). sub \<noteq> c) (subscribers m)" "pending m3 = pending m"
    "closing m3 = closing m" "accept_running m3 = accept_running m" "stopped_at m3 = stopped_at m"
    "items = queue (chans m c)"
    "chans m3 d = (if d = c then \<lparr>queue = [], is_open = False, senders = 0\<rparr> else chans m d)"
proof -
  note D = chans_invD [OF rx_invD(1) [OF inv]]
  let ?gone = "filter (\<lambda>(sub, _). sub = c) (subscribers m)"
  define m1 where "m1 = (rx_close c m)\<lparr>subscribers := filter (\<lambda>(sub, _). sub \<noteq> c) (subscribers m)\<rparr>"
  define m2 where "m2 = drop_senders ?gone m1"
  have m1: "next_id m1 = next_id m" "next_cid m1 = next_cid m" "pending m1 = pending m"
      "closing m1 = closing m" "accept_running m1 = accept_running m" "stopped_at m1 = stopped_at m"
      "subscribers m1 = filter (\<lambda>(sub, _). sub \<noteq> c) (subscribers m)"
      "chans m1 = (chans m)(c := (chans m c)\<lparr>is_open := False\<rparr>)"
    by (simp_all add: m1_def rx_close_def)
  have pair: "(s, d) \<in> set (subscribers m) \<longleftrightarrow> s = d \<and> d \<in> sub_chans m" for s d
  proof
    assume in_subs: "(s, d) \<in> set (subscribers m)"
    then show "s = d \<and> d \<in> sub_chans m"
      using D(2) [OF in_subs] by (force simp: sub_chans_def)
  next
    assume sd: "s = d \<and> d \<in> sub_chans m"
    then obtain t where "(t, d) \<in> set (subscribers m)" by (auto simp: sub_chans_def)
    with D(2) [OF this] sd show "(s, d) \<in> set (subscribers m)" by simp
  qed
  have gone: "snd ` set ?gone = sub_chans m \<inter> {c}"
    by (force simp: pair image_iff)
  have dist: "distinct (map snd ?gone)"
    using D(3) by (rule distinct_map_filter)
  have st2: "same_state m1 m2" and ch2: "chans m2 = (\<lambda>d. if d \<in> sub_chans m \<inter> {c} then chan_drop (chans m1 d) else chans m1 d)"
    using drop_senders_spec [OF dist, of m1] unfolding m2_def [symmetric] gone by blast+
  have m3: "items = queue (chans m2 c)" "m3 = upd_chan c (\<lambda>ch. ch\<lparr>queue := []\<rparr>) m2"
    using m3 by (auto simp: rx_drain_def m1_def [symmetric] m2_def [symmetric])
  show items: "items = queue (chans m c)"
    by (simp add: m3(1) ch2 m1)
  show f: "subscribers m3 = filter (\<lambda>(sub, _). sub \<noteq> c) (subscribers m)" "pending m3 = pending m"
    "closing m3 = closing m" "accept_running m3 = accept_running m" "stopped_at m3 = stopped_at m"
    using st2 by (simp_all add: m3(2) same_state_def m1)
  have g: "next_id m3 = next_id m" "next_cid m3 = next_cid m"
    using st2 by (simp_all add: m3(2) same_state_def m1)
  have sc: "sub_chans m3 = sub_chans m - {c}"
    unfolding sub_chans_def [of m3] f(1) by (force simp: pair image_iff)
  show ch: "chans m3 d = (if d = c then \<lparr>queue = [], is_open = False, senders = 0\<rparr> else chans m d)" for d
    using D(7) [of c] c(2) by (auto simp: m3(2) ch2 m1)
  show "chans_inv op (lv - {c}) m3"
  proof (rule chans_invI, goal_cases)
    case 3
    show ?case using D(3) by (simp add: f(1) distinct_map_filter)
  next
    case (7 d)
    show ?case using D(7) [of d] c(2) by (auto simp: ch sc)
  next
    case (8 d)
    show ?case using D(8) [of d] by (simp add: ch)
  qed (use D c in \<open>auto simp: f g sc ch\<close>)
  have "oks (queue (chans m2 d)) = oks (queue (chans m d))" for d
    by (simp add: ch2 m1)
  then have "held m2 = held m"
    using st2 by (simp add: held_def same_state_def m1)
  moreover have "held m3 + mset (oks items) = held m2"
    using held_upd [of c m2 "\<lambda>ch. ch\<lparr>queue := []\<rparr>"] D(5) [OF c(1)] st2
    by (simp add: m3 same_state_def m1)
  ultimately show "held m3 + mset (oks items) = held m" by simp
qed

lemma unsubscribe_inv:
  assumes inv: "rx_inv op lv m" and c: "c \<in> lv" "c \<notin> op"
  shows "rx_inv op (lv - {c}) (unsubscribe c c now m)" "held (unsubscribe c c now m) = held m"
    "closing (unsubscribe c c now m) = closing m"
    "accept_running (unsubscribe c c now m) = accept_running m"
proof -
  note D = rx_invD [OF inv]
  obtain items m3 where m3: "rx_drain c (drop_senders (filter (\<lambda>(sub, _). sub = c) (subscribers m))
      ((rx_close c m)\<lparr>subscribers := filter (\<lambda>(sub, _). sub \<noteq> c) (subscribers m)\<rparr>)) = (items, m3)"
    by fastforce
  note r = unsubscribe_remove [OF inv c m3]
  define m4 where "m4 = fold (\<lambda>it m. case it of Inr b \<Rightarrow> deliver (Inr b) m | Inl _ \<Rightarrow> m) items m3"
  note d = redeliver_inv [OF r(1) m4_def]
  have eq: "unsubscribe c c now m =
      (if subscribers m4 = [] \<and> is_receiving m4 then set_receiving False now m4 else m4)"
    using m3 by (simp add: unsubscribe_def Let_def m4_def rx_close_def)
  have "held m4 = held m" using d(2) r(2) by simp
  then show "held (unsubscribe c c now m) = held m" by (simp add: eq)
  show "closing (unsubscribe c c now m) = closing m"
    "accept_running (unsubscribe c c now m) = accept_running m"
    using d r by (simp_all add: eq)
  have "chans_inv op (lv - {c}) (unsubscribe c c now m)"
    by (rule chans_inv_same [OF d(1)]) (use chans_invD(9) [OF d(1)] in \<open>simp_all add: eq\<close>)
  moreover have "state_inv (unsubscribe c c now m)"
  proof (cases "subscribers m4 = []")
    case True
    then show ?thesis
      by (intro state_inv_stopped) (auto simp: eq is_receiving_def)
  next
    case False
    then have "subscribers m3 \<noteq> []" "subscribers m \<noteq> []" using d(3) r(3) by auto
    with D(2) have "is_receiving m" "pending m = []" "accept_running m" "closing m = 0"
      by (auto simp: state_inv_def)
    with False d r \<open>subscribers m3 \<noteq> []\<close> show ?thesis
      by (simp add: state_inv_def eq is_receiving_def)
  qed
  ultimately show "rx_inv op (lv - {c}) (unsubscribe c c now m)"
    by (simp add: rx_inv_def)
qed

text \<open>Where the items of a dropped stream go: to the newest remaining stream, or kept.\<close>

lemma unsubscribe_handover:
  assumes inv: "rx_inv op lv m" and c: "c \<in> lv" "c \<notin> op"
    and left: "left = filter (\<lambda>(sub, _). sub \<noteq> c) (subscribers m)"
  shows "subscribers (unsubscribe c c now m) = left"
    and "queue (chans (unsubscribe c c now m) c) = []"
    and "left = [] \<Longrightarrow> pending (unsubscribe c c now m) = pending m @ oks (queue (chans m c))"
    and "last_opt left = Some (i, d) \<Longrightarrow> pending (unsubscribe c c now m) = pending m \<and>
      queue (chans (unsubscribe c c now m) d) = queue (chans m d) @ map Inr (oks (queue (chans m c)))"
proof -
  obtain items m3 where m3: "rx_drain c (drop_senders (filter (\<lambda>(sub, _). sub = c) (subscribers m))
      ((rx_close c m)\<lparr>subscribers := filter (\<lambda>(sub, _). sub \<noteq> c) (subscribers m)\<rparr>)) = (items, m3)"
    by fastforce
  note r = unsubscribe_remove [OF inv c m3]
  define m4 where "m4 = fold (\<lambda>it m. case it of Inr b \<Rightarrow> deliver (Inr b) m | Inl _ \<Rightarrow> m) items m3"
  have eq: "unsubscribe c c now m =
      (if subscribers m4 = [] \<and> is_receiving m4 then set_receiving False now m4 else m4)"
    using m3 by (simp add: unsubscribe_def Let_def m4_def rx_close_def)
  have q: "chans (unsubscribe c c now m) = chans m4" "pending (unsubscribe c c now m) = pending m4"
      "subscribers (unsubscribe c c now m) = subscribers m4"
    by (simp_all add: eq)
  have sub4: "subscribers m4 = left"
    using redeliver_inv(3) [OF r(1) m4_def] r(3) left by simp
  show "subscribers (unsubscribe c c now m) = left" by (simp add: q sub4)
  show "queue (chans (unsubscribe c c now m) c) = []"
    using chans_invD(9) [OF redeliver_inv(1) [OF r(1) m4_def], of c] by (simp add: q)
  show "pending (unsubscribe c c now m) = pending m @ oks (queue (chans m c))" if "left = []"
    using that r(3) left by (simp add: q m4_def redeliver_Nil r(4,8))
  show "pending (unsubscribe c c now m) = pending m \<and>
      queue (chans (unsubscribe c c now m) d) = queue (chans m d) @ map Inr (oks (queue (chans m c)))"
    if last: "last_opt left = Some (i, d)"
  proof -
    have ne: "subscribers m3 \<noteq> []" using last r(3) left by auto
    obtain subs e where e: "subscribers m3 = subs @ [(e, e)]" "is_open (chans m3 e)" "e \<in> lv - {c}"
      using subs_snoc [OF r(1) ne] by metis
    then have "e = d" using last r(3) left by simp
    with e show ?thesis
      by (simp add: q m4_def redeliver_newest r(4,8,9))
  qed
qed

end
