(* ===== verification/ListenerTable.thy ===== *)
theory ListenerTable
  imports Prelude
begin

text \<open>
  The inbound connection table of \<open>rust-bindings/cspcl/src/inbound.rs\<close>
  (\<open>ListenerState\<close>, \<open>ListenerTable\<close>, \<open>Listeners\<close>, \<open>RunningGuard\<close>). A listener is an
  \<open>Arc<ListenerState>\<close> whose atomics are shared between its thread and the table, so the
  model keeps an explicit store: a listener is an address \<open>lid\<close>, \<open>Arc::ptr_eq\<close> is
  equality of addresses, and the store maps an address to the current values of the atomics.
  Every operation below runs under the table lock, except the update of
  \<open>last_active_ms\<close>.
\<close>

section \<open>State\<close>

type_synonym lid = nat
type_synonym conn_key = "u8 \<times> u8"

record listener_state =
  key :: conn_key
  running :: bool
  evicted :: bool
  last_active_ms :: u64

definition listener_state_new :: "conn_key \<Rightarrow> u64 \<Rightarrow> listener_state" where
  "listener_state_new k now_ms =
     \<lparr>key = k, running = True, evicted = False, last_active_ms = now_ms\<rparr>"

definition is_evicted :: "listener_state \<Rightarrow> bool" where
  "is_evicted l = evicted l"

text \<open>
  The store of listeners with the next free address, and the table's vector of
  \<open>Arc\<close>s.
\<close>

record listener_mem =
  heap :: "lid \<Rightarrow> listener_state"
  next_lid :: lid
  listeners :: "lid list"

text \<open>The C receive table size, and the slack while evictions finish.\<close>

definition CSPCL_RX_CONN_TABLE_SIZE :: nat where
  "CSPCL_RX_CONN_TABLE_SIZE = 8"

definition MAX_INBOUND_CONNS :: nat where
  "MAX_INBOUND_CONNS = CSPCL_RX_CONN_TABLE_SIZE"

definition MAX_EXTRA_INBOUND_CONNS :: nat where
  "MAX_EXTRA_INBOUND_CONNS = 2"

lemmas conn_limits = MAX_INBOUND_CONNS_def MAX_EXTRA_INBOUND_CONNS_def CSPCL_RX_CONN_TABLE_SIZE_def

text \<open>\<open>Listeners::default()\<close>: an empty table. The store is empty too.\<close>

definition listeners_default :: listener_mem where
  "listeners_default =
     \<lparr>heap = (\<lambda>_. \<lparr>key = (0, 0), running = False, evicted = False, last_active_ms = 0\<rparr>),
      next_lid = 0, listeners = []\<rparr>"

section \<open>Operations\<close>

text \<open>\<open>Arc::new(ListenerState::new(key, now_ms))\<close>.\<close>

definition arc_new :: "conn_key \<Rightarrow> u64 \<Rightarrow> listener_mem \<Rightarrow> lid \<times> listener_mem" where
  "arc_new k now_ms m =
     (next_lid m,
      m\<lparr>heap := (heap m)(next_lid m := listener_state_new k now_ms), next_lid := Suc (next_lid m)\<rparr>)"

definition store_evicted :: "lid \<Rightarrow> listener_mem \<Rightarrow> listener_mem" where
  "store_evicted l m = m\<lparr>heap := (heap m)(l := (heap m l)\<lparr>evicted := True\<rparr>)\<rparr>"

definition store_last_active :: "lid \<Rightarrow> u64 \<Rightarrow> listener_mem \<Rightarrow> listener_mem" where
  "store_last_active l t m = m\<lparr>heap := (heap m)(l := (heap m l)\<lparr>last_active_ms := t\<rparr>)\<rparr>"

text \<open>\<open>RunningGuard::drop\<close>: clears \<open>running\<close> under the table lock.\<close>

definition running_guard_drop :: "lid \<Rightarrow> listener_mem \<Rightarrow> listener_mem" where
  "running_guard_drop l m = m\<lparr>heap := (heap m)(l := (heap m l)\<lparr>running := False\<rparr>)\<rparr>"

text \<open>\<open>ListenerTable::open\<close>: forgets finished listeners, then counts.\<close>

definition open_conns :: "listener_mem \<Rightarrow> nat \<times> listener_mem" where
  "open_conns m =
     (let ls = filter (\<lambda>l. running (heap m l)) (listeners m)
      in (length ls, m\<lparr>listeners := ls\<rparr>))"

definition kept :: "listener_mem \<Rightarrow> nat" where
  "kept m = length (filter (\<lambda>l. \<not> is_evicted (heap m l)) (listeners m))"

definition may_accept :: "listener_mem \<Rightarrow> bool \<times> listener_mem" where
  "may_accept m =
     (let (n, m') = open_conns m in (n < MAX_INBOUND_CONNS + MAX_EXTRA_INBOUND_CONNS, m'))"

definition register :: "lid \<Rightarrow> listener_mem \<Rightarrow> listener_mem" where
  "register l m = m\<lparr>listeners := listeners m @ [l]\<rparr>"

definition evict_least_recent_except :: "lid \<Rightarrow> listener_mem \<Rightarrow> listener_mem" where
  "evict_least_recent_except keep m =
     (let candidate =
        min_by_key (\<lambda>l. last_active_ms (heap m l))
          (filter (\<lambda>l. l \<noteq> keep \<and> \<not> is_evicted (heap m l)) (listeners m))
      in case candidate of Some l \<Rightarrow> store_evicted l m | None \<Rightarrow> m)"

definition supersede :: "lid \<Rightarrow> listener_mem \<Rightarrow> listener_mem" where
  "supersede l m =
     (if \<not> running (heap m l) then m
      else
        let stale = filter (\<lambda>old. key (heap m old) = key (heap m l) \<and> old \<noteq> l) (listeners m);
            m1 = fold store_evicted stale m;
            m2 = snd (open_conns m1)
        in if kept m2 > MAX_INBOUND_CONNS then evict_least_recent_except l m2 else m2)"

text \<open>
  \<open>Listeners::wait_for_slot\<close>: what it returns when the table is \<open>m\<close> at the moment the
  wait ends (woken because a slot is free, or timed out).
\<close>

definition wait_for_slot :: "listener_mem \<Rightarrow> bool \<times> listener_mem" where
  "wait_for_slot m = may_accept m"

lemmas table_defs = arc_new_def store_evicted_def store_last_active_def running_guard_drop_def
  open_conns_def kept_def may_accept_def register_def evict_least_recent_except_def
  wait_for_slot_def listener_state_new_def is_evicted_def


section \<open>The table as sets of connections\<close>

text \<open>
  What a client of the table relies on: the open connections (listeners that have not
  finished) and among them the kept ones (not asked to close).
\<close>

definition conns :: "listener_mem \<Rightarrow> lid set" where
  "conns m = {l \<in> set (listeners m). running (heap m l)}"

definition kept_conns :: "listener_mem \<Rightarrow> lid set" where
  "kept_conns m = {l \<in> conns m. \<not> evicted (heap m l)}"

definition table_inv :: "listener_mem \<Rightarrow> bool" where
  "table_inv m \<longleftrightarrow>
     distinct (listeners m) \<and> set (listeners m) \<subseteq> {..<next_lid m} \<and>
     (\<forall>l. running (heap m l) \<longrightarrow> l \<in> set (listeners m))"

section \<open>Lemmas\<close>

lemma fold_store_evicted:
  "fold store_evicted ls m =
     m\<lparr>heap := (\<lambda>x. if x \<in> set ls then (heap m x)\<lparr>evicted := True\<rparr> else heap m x)\<rparr>"
proof (induction ls arbitrary: m)
  case Nil
  then show ?case by simp
next
  case (Cons a ls)
  then show ?case by (simp add: store_evicted_def fun_eq_iff)
qed

lemma finite_conns [simp]: "finite (conns m)"
  by (simp add: conns_def)

lemma finite_kept_conns [simp]: "finite (kept_conns m)"
  by (simp add: kept_conns_def)

lemma kept_conns_subset: "kept_conns m \<subseteq> conns m"
  by (auto simp: kept_conns_def)

lemma table_inv_default: "table_inv listeners_default"
  by (simp add: table_inv_def listeners_default_def)

lemma conns_default [simp]: "conns listeners_default = {}"
  by (simp add: conns_def listeners_default_def)

lemma open_conns_card: "table_inv m \<Longrightarrow> fst (open_conns m) = card (conns m)"
proof -
  assume inv: "table_inv m"
  have "card (conns m) = card (set (filter (\<lambda>l. running (heap m l)) (listeners m)))"
    by (simp add: conns_def)
  also have "\<dots> = length (filter (\<lambda>l. running (heap m l)) (listeners m))"
    using inv by (intro distinct_card) (simp add: table_inv_def)
  finally show ?thesis by (simp add: open_conns_def Let_def)
qed

lemma open_conns_frame [simp]:
  "heap (snd (open_conns m)) = heap m" "next_lid (snd (open_conns m)) = next_lid m"
  "conns (snd (open_conns m)) = conns m" "kept_conns (snd (open_conns m)) = kept_conns m"
  "set (listeners (snd (open_conns m))) = conns m"
  by (auto simp: open_conns_def conns_def kept_conns_def Let_def)

lemma table_inv_open_conns: "table_inv m \<Longrightarrow> table_inv (snd (open_conns m))"
  by (auto simp: table_inv_def open_conns_def Let_def)

lemma kept_open_conns: "table_inv m \<Longrightarrow> kept (snd (open_conns m)) = card (kept_conns m)"
proof -
  assume inv: "table_inv m"
  let ?ls = "filter (\<lambda>l. \<not> evicted (heap m l)) (filter (\<lambda>l. running (heap m l)) (listeners m))"
  have "set ?ls = kept_conns m"
    by (auto simp: kept_conns_def conns_def)
  moreover have "distinct ?ls" using inv by (simp add: table_inv_def)
  ultimately have "length ?ls = card (kept_conns m)"
    by (metis distinct_card)
  then show ?thesis by (simp add: kept_def open_conns_def Let_def is_evicted_def)
qed

lemma may_accept_iff:
  "table_inv m \<Longrightarrow> fst (may_accept m) \<longleftrightarrow> card (conns m) < MAX_INBOUND_CONNS + MAX_EXTRA_INBOUND_CONNS"
  using open_conns_card [of m] by (cases "open_conns m") (simp add: may_accept_def)

lemma snd_may_accept: "snd (may_accept m) = snd (open_conns m)"
  by (simp add: may_accept_def split: prod.splits)

section \<open>What the operations do to the table\<close>

text \<open>
  The connections that \<open>supersede\<close> closes: the stale ones, i.e. the other connections from
  the same address and port, and the one that makes room if too many are still kept.
\<close>

definition stale_conns :: "lid \<Rightarrow> listener_mem \<Rightarrow> lid set" where
  "stale_conns l m = {x \<in> set (listeners m). key (heap m x) = key (heap m l) \<and> x \<noteq> l}"

definition lru_victim :: "lid \<Rightarrow> listener_mem \<Rightarrow> lid option" where
  "lru_victim l m =
     (if card (kept_conns m - stale_conns l m) > MAX_INBOUND_CONNS
      then min_by_key (\<lambda>x. last_active_ms (heap m x))
             (filter (\<lambda>x. running (heap m x) \<and> x \<noteq> l \<and> \<not> evicted (heap m x) \<and> x \<notin> stale_conns l m)
               (listeners m))
      else None)"

lemma supersede_finished: "\<not> running (heap m l) \<Longrightarrow> supersede l m = m"
  by (simp add: supersede_def)

lemma supersede_evicted:
  assumes inv: "table_inv m" and run: "running (heap m l)"
  shows "heap (supersede l m) x =
     (heap m x)\<lparr>evicted := evicted (heap m x) \<or> x \<in> stale_conns l m \<or> lru_victim l m = Some x\<rparr>"
    and "next_lid (supersede l m) = next_lid m"
    and "listeners (supersede l m) = filter (\<lambda>x. running (heap m x)) (listeners m)"
proof -
  let ?st = "filter (\<lambda>old. key (heap m old) = key (heap m l) \<and> old \<noteq> l) (listeners m)"
  define m1 where "m1 = fold store_evicted ?st m"
  have m1: "heap m1 = (\<lambda>x. if x \<in> stale_conns l m then (heap m x)\<lparr>evicted := True\<rparr> else heap m x)"
      "listeners m1 = listeners m" "next_lid m1 = next_lid m"
    by (auto simp: m1_def fold_store_evicted stale_conns_def fun_eq_iff)
  have run1: "running (heap m1 x) = running (heap m x)" for x
    by (simp add: m1)
  have inv1: "table_inv m1"
    using inv by (simp add: table_inv_def m1 run1)
  have keptc: "kept_conns m1 = kept_conns m - stale_conns l m"
    by (auto simp: kept_conns_def conns_def m1 split: if_splits)
  have filt: "filter (\<lambda>x. x \<noteq> l \<and> \<not> is_evicted (heap m1 x)) (listeners (snd (open_conns m1)))
      = filter (\<lambda>x. running (heap m x) \<and> x \<noteq> l \<and> \<not> evicted (heap m x) \<and> x \<notin> stale_conns l m) (listeners m)"
    by (auto simp: open_conns_def Let_def is_evicted_def m1 intro: filter_cong)
  have key: "min_by_key (\<lambda>x. last_active_ms (heap m1 x)) ls
      = min_by_key (\<lambda>x. last_active_ms (heap m x)) ls" for ls
    by (rule arg_cong [where f = "\<lambda>f. min_by_key f ls"]) (simp add: m1 fun_eq_iff)
  have sup: "supersede l m =
      (case lru_victim l m of None \<Rightarrow> snd (open_conns m1) | Some v \<Rightarrow> store_evicted v (snd (open_conns m1)))"
    using run kept_open_conns [OF inv1]
    by (simp add: supersede_def Let_def m1_def [symmetric] evict_least_recent_except_def filt key
        lru_victim_def keptc split: option.split)
  show "heap (supersede l m) x =
     (heap m x)\<lparr>evicted := evicted (heap m x) \<or> x \<in> stale_conns l m \<or> lru_victim l m = Some x\<rparr>"
    by (simp add: sup store_evicted_def m1 split: option.split)
  show "next_lid (supersede l m) = next_lid m"
    by (simp add: sup store_evicted_def m1 split: option.split)
  show "listeners (supersede l m) = filter (\<lambda>x. running (heap m x)) (listeners m)"
    by (simp add: sup store_evicted_def open_conns_def Let_def m1 run1 split: option.split)
qed

lemma supersede_frame [simp]:
  assumes "table_inv m"
  shows "running (heap (supersede l m) x) = running (heap m x)"
    and "key (heap (supersede l m) x) = key (heap m x)"
    and "last_active_ms (heap (supersede l m) x) = last_active_ms (heap m x)"
    and "conns (supersede l m) = conns m"
    and "next_lid (supersede l m) = next_lid m"
  using assms supersede_evicted [OF assms, of l] supersede_finished [of m l]
  by (cases "running (heap m l)", auto simp: conns_def)+

lemma table_inv_supersede: "table_inv m \<Longrightarrow> table_inv (supersede l m)"
proof (cases "running (heap m l)")
  case True
  assume inv: "table_inv m"
  note sup = supersede_evicted [OF inv True]
  from inv show ?thesis
    by (auto simp: table_inv_def sup)
next
  case False
  assume "table_inv m"
  with False show ?thesis by (simp add: supersede_finished)
qed

lemma lru_victimD:
  assumes "lru_victim l m = Some v"
  shows "v \<in> kept_conns m - stale_conns l m" "v \<noteq> l"
    and "y \<in> kept_conns m - stale_conns l m \<Longrightarrow> y \<noteq> l \<Longrightarrow>
      last_active_ms (heap m v) \<le> last_active_ms (heap m y)"
proof -
  let ?ls = "filter (\<lambda>x. running (heap m x) \<and> x \<noteq> l \<and> \<not> evicted (heap m x) \<and> x \<notin> stale_conns l m)
    (listeners m)"
  have v: "min_by_key (\<lambda>x. last_active_ms (heap m x)) ?ls = Some v"
    using assms by (simp add: lru_victim_def split: if_splits)
  from min_by_key_in [OF v] show "v \<in> kept_conns m - stale_conns l m" "v \<noteq> l"
    by (auto simp: kept_conns_def conns_def)
  show "y \<in> kept_conns m - stale_conns l m \<Longrightarrow> y \<noteq> l \<Longrightarrow>
      last_active_ms (heap m v) \<le> last_active_ms (heap m y)"
    by (rule min_by_key_le [OF v]) (auto simp: kept_conns_def conns_def)
qed

lemma lru_victim_None:
  assumes "lru_victim l m = None" and "card (kept_conns m - stale_conns l m) > MAX_INBOUND_CONNS"
  shows "kept_conns m - stale_conns l m \<subseteq> {l}"
proof
  fix x assume x: "x \<in> kept_conns m - stale_conns l m"
  have "filter (\<lambda>x. running (heap m x) \<and> x \<noteq> l \<and> \<not> evicted (heap m x) \<and> x \<notin> stale_conns l m)
      (listeners m) = []"
    using assms by (simp add: lru_victim_def)
  with x show "x \<in> {l}"
    by (auto simp: kept_conns_def conns_def filter_empty_conv)
qed

lemma kept_conns_supersede:
  assumes inv: "table_inv m" and run: "running (heap m l)"
  shows "kept_conns (supersede l m) = kept_conns m - stale_conns l m - {x. lru_victim l m = Some x}"
  using supersede_evicted [OF inv run] inv
  by (auto simp: kept_conns_def conns_def)

lemma supersede_kept_subset: "table_inv m \<Longrightarrow> kept_conns (supersede l m) \<subseteq> kept_conns m"
  by (cases "running (heap m l)") (auto simp: kept_conns_supersede supersede_finished)

lemma supersede_kept_self:
  assumes inv: "table_inv m" and l: "l \<in> kept_conns m"
  shows "l \<in> kept_conns (supersede l m)"
proof -
  have run: "running (heap m l)" using l by (simp add: kept_conns_def conns_def)
  from l lru_victimD(2) [of l m l] show ?thesis
    by (auto simp: kept_conns_supersede [OF inv run] stale_conns_def)
qed

lemma supersede_kept_card:
  assumes inv: "table_inv m" and run: "running (heap m l)"
    and bound: "card (kept_conns m) \<le> Suc MAX_INBOUND_CONNS"
  shows "card (kept_conns (supersede l m)) \<le> MAX_INBOUND_CONNS"
proof (cases "card (kept_conns m - stale_conns l m) > MAX_INBOUND_CONNS")
  case False
  then have "card (kept_conns m - stale_conns l m) \<le> MAX_INBOUND_CONNS" by simp
  moreover have "kept_conns (supersede l m) \<subseteq> kept_conns m - stale_conns l m"
    by (auto simp: kept_conns_supersede [OF inv run])
  ultimately show ?thesis
    by (meson card_mono finite_Diff finite_kept_conns le_trans)
next
  case over: True
  show ?thesis
  proof (cases "lru_victim l m")
    case None
    from lru_victim_None [OF None over] have "card (kept_conns m - stale_conns l m) \<le> card {l}"
      by (intro card_mono) auto
    with over show ?thesis by (simp add: conn_limits)
  next
    case (Some v)
    note v = lru_victimD(1) [OF Some]
    have "kept_conns (supersede l m) = kept_conns m - stale_conns l m - {v}"
      using Some by (simp add: kept_conns_supersede [OF inv run])
    also have "card \<dots> < card (kept_conns m - stale_conns l m)"
      using v by (intro card_Diff1_less) auto
    also have "\<dots> \<le> card (kept_conns m)"
      by (intro card_mono) auto
    finally show ?thesis using bound by simp
  qed
qed

section \<open>The other operations\<close>

text \<open>\<open>Arc::new\<close> of a listener followed by \<open>register\<close>, as \<open>spawn_listener\<close> does.\<close>

definition register_new :: "conn_key \<Rightarrow> u64 \<Rightarrow> listener_mem \<Rightarrow> lid \<times> listener_mem" where
  "register_new k now_ms m = (let (l, m1) = arc_new k now_ms m in (l, register l m1))"

lemma register_new_simps:
  assumes inv: "table_inv m" and new: "register_new k t m = (l, m')"
  shows "l = next_lid m" "table_inv m'" "conns m' = insert l (conns m)" "l \<notin> conns m"
    "kept_conns m' = insert l (kept_conns m)" "heap m' = (heap m)(l := listener_state_new k t)"
    "listeners m' = listeners m @ [l]"
  using assms
  by (auto simp: register_new_def arc_new_def register_def Let_def table_inv_def conns_def
      kept_conns_def listener_state_new_def split: if_splits)

lemma running_guard_drop_simps [simp]:
  "conns (running_guard_drop l m) = conns m - {l}"
  "kept_conns (running_guard_drop l m) = kept_conns m - {l}"
  "next_lid (running_guard_drop l m) = next_lid m"
  "listeners (running_guard_drop l m) = listeners m"
  by (auto simp: running_guard_drop_def conns_def kept_conns_def split: if_splits)

lemma store_last_active_simps [simp]:
  "conns (store_last_active l t m) = conns m"
  "kept_conns (store_last_active l t m) = kept_conns m"
  "next_lid (store_last_active l t m) = next_lid m"
  "listeners (store_last_active l t m) = listeners m"
  by (auto simp: store_last_active_def conns_def kept_conns_def split: if_splits)

lemma table_inv_running_guard_drop: "table_inv m \<Longrightarrow> table_inv (running_guard_drop l m)"
  by (auto simp: table_inv_def running_guard_drop_def split: if_splits)

lemma table_inv_store_last_active: "table_inv m \<Longrightarrow> table_inv (store_last_active l t m)"
  by (auto simp: table_inv_def store_last_active_def split: if_splits)

lemma table_inv_may_accept: "table_inv m \<Longrightarrow> table_inv (snd (may_accept m))"
  by (simp add: snd_may_accept table_inv_open_conns)

section \<open>The interface the accept thread uses\<close>

text \<open>
  What the accept thread relies on: a table of connections with a limit on the open ones,
  of which at most \<open>keep\<close> stay open once the newest one has superseded others.
\<close>

locale connection_table =
  fixes tinv :: "'t \<Rightarrow> bool"
    and cs :: "'t \<Rightarrow> 'l set"
    and ks :: "'t \<Rightarrow> 'l set"
    and may :: "'t \<Rightarrow> bool \<times> 't"
    and add :: "'k \<Rightarrow> 'u \<Rightarrow> 't \<Rightarrow> 'l \<times> 't"
    and sup :: "'l \<Rightarrow> 't \<Rightarrow> 't"
    and fin :: "'l \<Rightarrow> 't \<Rightarrow> 't"
    and limit :: nat
    and keep :: nat
  assumes finite_cs: "finite (cs t)"
    and ks_cs: "ks t \<subseteq> cs t"
    and may_inv: "tinv t \<Longrightarrow> tinv (snd (may t))"
    and may_frame: "cs (snd (may t)) = cs t" "ks (snd (may t)) = ks t"
    and may_iff: "tinv t \<Longrightarrow> fst (may t) \<longleftrightarrow> card (cs t) < limit"
    and add_inv: "tinv t \<Longrightarrow> add k u t = (l, t') \<Longrightarrow> tinv t'"
    and add_cs: "tinv t \<Longrightarrow> add k u t = (l, t') \<Longrightarrow> cs t' = insert l (cs t) \<and> l \<notin> cs t"
    and add_ks: "tinv t \<Longrightarrow> add k u t = (l, t') \<Longrightarrow> ks t' = insert l (ks t)"
    and sup_inv: "tinv t \<Longrightarrow> tinv (sup l t)"
    and sup_cs: "tinv t \<Longrightarrow> cs (sup l t) = cs t"
    and sup_ks: "tinv t \<Longrightarrow> ks (sup l t) \<subseteq> ks t"
    and sup_keep: "tinv t \<Longrightarrow> l \<in> cs t \<Longrightarrow> card (ks t) \<le> Suc keep \<Longrightarrow> card (ks (sup l t)) \<le> keep"
    and fin_inv: "tinv t \<Longrightarrow> tinv (fin l t)"
    and fin_cs: "cs (fin l t) = cs t - {l}"
    and fin_ks: "ks (fin l t) = ks t - {l}"
begin

lemma finite_ks: "finite (ks t)"
  by (rule finite_subset [OF ks_cs finite_cs])

lemma add_within_limit:
  assumes "tinv t" and "card (cs t) < limit" and "add k u t = (l, t')"
  shows "card (cs t') \<le> limit"
  using assms add_cs [OF assms(1,3)] by (simp add: finite_cs card_insert_disjoint)

lemma add_kept:
  assumes "tinv t" and "card (ks t) \<le> keep" and "add k u t = (l, t')"
  shows "card (ks t') \<le> Suc keep"
  using assms add_ks [OF assms(1,3)] card_insert_le_m1 [of "Suc keep" "ks t" l]
  by simp

lemma fin_cards: "card (cs (fin l t)) \<le> card (cs t)" "card (ks (fin l t)) \<le> card (ks t)"
  by (auto simp: fin_cs fin_ks finite_cs finite_ks intro: card_mono)

lemma sup_cards:
  assumes "tinv t" shows "card (cs (sup l t)) \<le> card (cs t)" "card (ks (sup l t)) \<le> card (ks t)"
  using assms sup_ks [OF assms, of l] by (simp_all add: sup_cs finite_ks card_mono)

text \<open>
  A connection that finished before its \<open>supersede\<close> leaves no more kept ones than there
  were before it came.
\<close>

lemma sup_after_finish:
  assumes "tinv t" and "l \<notin> cs t" and "card (insert l (ks t)) \<le> Suc keep"
  shows "card (ks (sup l t)) \<le> keep"
proof -
  have "l \<notin> ks t" using assms(2) ks_cs by auto
  then have "card (ks t) \<le> keep" using assms(3) by (simp add: finite_ks)
  with sup_cards(2) [OF assms(1)] show ?thesis by (metis le_trans)
qed

end

interpretation ct: connection_table table_inv conns kept_conns may_accept register_new supersede
  running_guard_drop "MAX_INBOUND_CONNS + MAX_EXTRA_INBOUND_CONNS" MAX_INBOUND_CONNS
proof (unfold_locales, goal_cases)
  case (13 t l)
  then show ?case by (intro supersede_kept_card) (auto simp: conns_def)
qed (auto simp: kept_conns_subset snd_may_accept table_inv_open_conns may_accept_iff
    register_new_simps table_inv_supersede table_inv_running_guard_drop
    dest: supersede_kept_subset [THEN subsetD])

section \<open>Properties\<close>

text \<open>
  What \<open>supersede\<close> closes when a new connection \<open>l\<close> has its listener. All other kept
  connections from the same address and port are asked to close; if more than
  \<open>MAX_INBOUND_CONNS\<close> kept ones remain, then also exactly one more, never \<open>l\<close> itself, that
  was active least recently among the others; nothing else. No connection is forgotten.
\<close>

theorem supersede_closes:
  assumes "table_inv m" and "l \<in> conns m" and "rest = kept_conns m - stale_conns l m"
  shows "conns (supersede l m) = conns m \<and>
    (if card rest \<le> MAX_INBOUND_CONNS then kept_conns (supersede l m) = rest
     else \<exists>v \<in> rest - {l}. kept_conns (supersede l m) = rest - {v} \<and>
       (\<forall>y \<in> rest - {l}. last_active_ms (heap m v) \<le> last_active_ms (heap m y)))"
proof -
  have run: "running (heap m l)" using assms(2) by (simp add: conns_def)
  note k = kept_conns_supersede [OF assms(1) run, folded assms(3)]
  show ?thesis
  proof (cases "card rest \<le> MAX_INBOUND_CONNS")
    case True
    then have "lru_victim l m = None" by (simp add: lru_victim_def assms(3))
    with True k show ?thesis by (simp add: assms(1))
  next
    case False
    obtain v where v: "lru_victim l m = Some v"
    proof (cases "lru_victim l m")
      case None
      have "rest \<subseteq> {l}" using lru_victim_None [OF None] False by (simp add: assms(3))
      from card_mono [OF _ this] False show ?thesis by (simp add: conn_limits)
    qed (use that in blast)
    note d = lru_victimD [OF v, folded assms(3)]
    have "kept_conns (supersede l m) = rest - {v}" using k v by auto
    with False d show ?thesis by (auto simp: assms(1))
  qed
qed

definition sample_table :: listener_mem where
  "sample_table = snd (register_new (5, 60) 7 (snd (register_new (5, 60) 0 listeners_default)))"

theorem supersede_closes_witness:
  "kept_conns sample_table = {0, 1} \<and> kept_conns (supersede 1 sample_table) = {1}"
proof -
  have m: "listeners sample_table = [0, 1]" "next_lid sample_table = 2"
      "heap sample_table = (heap listeners_default)(0 := listener_state_new (5, 60) 0,
         1 := listener_state_new (5, 60) 7)"
    by (simp_all add: sample_table_def register_new_def arc_new_def register_def listeners_default_def Let_def)
  have i: "table_inv sample_table" "1 \<in> conns sample_table" "kept_conns sample_table = {0, 1}"
      "stale_conns 1 sample_table = {0}"
    by (auto simp: table_inv_def conns_def kept_conns_def stale_conns_def m listener_state_new_def
        listeners_default_def)
  then have "card (kept_conns sample_table - stale_conns 1 sample_table) \<le> MAX_INBOUND_CONNS"
    by (simp add: conn_limits)
  with supersede_closes [OF i(1,2) refl] i show ?thesis by auto
qed

end
