(* ===== verification/InboundSystem.thy ===== *)
theory InboundSystem
  imports ReceiverInv ListenerTable
begin

text \<open>
  The threads of an instance's inbound side (\<open>rust-bindings/cspcl/src/inbound.rs\<close>,
  \<open>Cspcl::poll_connection\<close> and \<open>Cspcl::close_rx_socket\<close> of \<open>instance.rs\<close>) as a step
  relation: the accept thread, one listener thread per connection, the users that open, read
  and drop streams, and the callers of \<open>close_rx_socket\<close>. A step is a region of code that
  runs under one lock, or the return of a call into C; the steps of different threads
  interleave freely. What C and the operating system answer (the result of an accept or of a
  read, whether a thread could be spawned, the clock) is not determined by the model.
\<close>

section \<open>Threads and state\<close>

text \<open>Where the accept thread is in \<open>accept_loop\<close> and \<open>spawn_listener\<close>.\<close>

datatype acc_pc =
    AStopped
  | ATop
  | ASlot
  | APoll
  | AInAccept
  | ARegister conn_key
  | ASpawn lid
  | ASpawnFailed lid
  | ASupersede lid
  | AError error
  | APause

text \<open>Where a listener thread is in \<open>listen\<close>; \<open>LReading\<close> remembers \<open>read_started\<close>.\<close>

datatype lsn_pc = LNone | LTop | LReading instant | LClosing | LClosed | LDone

text \<open>
  An \<open>InboundStream\<close>: its \<open>subscribe\<close> is about to spawn the accept thread (or not), it is
  open, or it was dropped.
\<close>

datatype stream_pc = SNone | SOpening nat bool | SOpen nat | SDropped

text \<open>A call of \<open>close_rx_socket\<close>: waiting for the accept lock, holding it, released it.\<close>

datatype close_pc = CNone | CWant | CHeld | CReleased

datatype lock_owner = OAcc nat | OClose nat

record sys =
  rx :: receiver_mem
  lt :: listener_mem
  acc :: "nat \<Rightarrow> acc_pc"
  next_acc :: nat
  lsn :: "lid \<Rightarrow> lsn_pc"
  conn_open :: "lid \<Rightarrow> bool"
  strm :: "cid \<Rightarrow> stream_pc"
  closer :: "nat \<Rightarrow> close_pc"
  accept_lock :: "lock_owner option"
  rx_socket :: bool
  clock :: instant
  epoch :: instant
  rdp_ms :: u32
  received :: "bp_bundle multiset"
  consumed :: "bp_bundle multiset"

definition sys_init :: "instant \<Rightarrow> u32 \<Rightarrow> sys" where
  "sys_init now rdp =
     \<lparr>rx = receiver_new now, lt = listeners_default, acc = (\<lambda>_. AStopped), next_acc = 0,
      lsn = (\<lambda>_. LNone), conn_open = (\<lambda>_. False), strm = (\<lambda>_. SNone), closer = (\<lambda>_. CNone),
      accept_lock = None, rx_socket = True, clock = now, epoch = now, rdp_ms = rdp,
      received = {#}, consumed = {#}\<rparr>"

section \<open>Thread bodies\<close>

text \<open>
  \<open>Cspcl::poll_connection\<close> up to the C call: with the accept lock taken, whether the
  socket may be polled. Otherwise the result is \<open>Error::Timeout\<close>.
\<close>

definition poll_connection_check :: "receiver_mem \<Rightarrow> bool" where
  "poll_connection_check m = is_receiving m"

text \<open>
  The end of an iteration of \<open>accept_loop\<close>: an accept that timed out goes on, any other
  error is reported to the newest stream and followed by a pause.
\<close>

definition accept_result :: "(error, conn_key) rresult \<Rightarrow> acc_pc" where
  "accept_result r =
     (case r of Inr k \<Rightarrow> ARegister k | Inl Timeout \<Rightarrow> ATop | Inl e \<Rightarrow> AError e)"

text \<open>
  The top of the loop of \<open>listen\<close>, once \<open>wait_while_stopped\<close> returned \<open>keep\<close>: whether
  the listener reads again.
\<close>

definition listen_again :: "bool \<Rightarrow> listener_state \<Rightarrow> bool" where
  "listen_again keep l = (keep \<and> \<not> is_evicted l)"

text \<open>
  The rest of the loop body of \<open>listen\<close>, after the read returned \<open>res\<close> having taken
  \<open>elapsed\<close>: whether the listener goes on.
\<close>

definition listen_read ::
  "lid \<Rightarrow> u64 \<Rightarrow> duration \<Rightarrow> duration \<Rightarrow> item \<Rightarrow> listener_mem \<Rightarrow> receiver_mem \<Rightarrow>
   bool \<times> listener_mem \<times> receiver_mem" where
  "listen_read l now elapsed read_timeout res tm m =
     (case res of
        Inr b \<Rightarrow> (True, store_last_active l now tm, deliver (Inr b) m)
      | Inl Timeout \<Rightarrow>
          if woken_by_reset elapsed read_timeout then (False, tm, m)
          else if idle_expired (last_active_ms (heap tm l)) now then (False, tm, m)
          else (True, tm, m)
      | Inl e \<Rightarrow> (False, tm, deliver (Inl e) m))"

text \<open>
  What unwinding a panicking accept thread drops: the accept lock, an accepted connection that
  has no listener thread yet. Then \<open>AcceptGuard::drop\<close> runs. Nothing between the spawn of
  a listener and the end of \<open>supersede\<close> can panic (\<open>sync::lock\<close> ignores poisoning).
\<close>

definition unwind_accept :: "nat \<Rightarrow> sys \<Rightarrow> sys" where
  "unwind_accept i s =
     (let s1 = (case acc s i of
            AInAccept \<Rightarrow> s\<lparr>accept_lock := None\<rparr>
          | ASpawn l \<Rightarrow> s\<lparr>conn_open := (conn_open s)(l := False), lt := running_guard_drop l (lt s)\<rparr>
          | ASpawnFailed l \<Rightarrow> s\<lparr>lt := running_guard_drop l (lt s)\<rparr>
          | _ \<Rightarrow> s)
      in s1\<lparr>rx := accept_guard_drop True (clock s) (rx s), acc := (acc s)(i := AStopped)\<rparr>)"

section \<open>Steps\<close>

inductive sys_step :: "sys \<Rightarrow> sys \<Rightarrow> bool" where
  tick: "clock s \<le> t \<Longrightarrow> sys_step s (s\<lparr>clock := t\<rparr>)"
\<comment> \<open>users of streams\<close>
| open_stream: "closing (rx s) = 0 \<Longrightarrow> subscribe_locked (rx s) = ((sid, c, start), m) \<Longrightarrow>
    sys_step s (s\<lparr>rx := m, strm := (strm s)(c := SOpening sid start)\<rparr>)"
| open_done: "strm s c = SOpening sid False \<Longrightarrow>
    sys_step s (s\<lparr>rx := subscribe_done c (rx s), strm := (strm s)(c := SOpen sid)\<rparr>)"
| spawn_accept: "strm s c = SOpening sid True \<Longrightarrow>
    sys_step s (s\<lparr>rx := subscribe_done c (rx s), strm := (strm s)(c := SOpen sid),
      acc := (acc s)(next_acc s := ATop), next_acc := Suc (next_acc s)\<rparr>)"
| spawn_accept_fails: "strm s c = SOpening sid True \<Longrightarrow>
    sys_step s (s\<lparr>rx := subscribe_failed sid c (clock s) (rx s), strm := (strm s)(c := SOpen sid)\<rparr>)"
| read_stream: "strm s c = SOpen sid \<Longrightarrow> poll_next c (rx s) = (p, m) \<Longrightarrow>
    sys_step s (s\<lparr>rx := m, consumed := consumed s +
      (case p of Ready (Some it) \<Rightarrow> mset (oks [it]) | _ \<Rightarrow> {#})\<rparr>)"
| drop_stream: "strm s c = SOpen sid \<Longrightarrow>
    sys_step s (s\<lparr>rx := unsubscribe sid c (clock s) (rx s), strm := (strm s)(c := SDropped)\<rparr>)"
\<comment> \<open>the accept thread\<close>
| acc_check: "acc s i = ATop \<Longrightarrow> accept_loop_check (rx s) = (go, m) \<Longrightarrow>
    sys_step s (s\<lparr>rx := m, acc := (acc s)(i := if go then ASlot else AStopped)\<rparr>)"
| acc_slot: "acc s i = ASlot \<Longrightarrow> wait_for_slot (lt s) = (ok, tm) \<Longrightarrow>
    sys_step s (s\<lparr>lt := tm, acc := (acc s)(i := if ok then APoll else ATop)\<rparr>)"
| acc_refuse: "acc s i = APoll \<Longrightarrow> accept_lock s = None \<Longrightarrow> \<not> poll_connection_check (rx s) \<Longrightarrow>
    sys_step s (s\<lparr>acc := (acc s)(i := accept_result (Inl Timeout))\<rparr>)"
| acc_enter: "acc s i = APoll \<Longrightarrow> accept_lock s = None \<Longrightarrow> poll_connection_check (rx s) \<Longrightarrow>
    sys_step s (s\<lparr>accept_lock := Some (OAcc i), acc := (acc s)(i := AInAccept)\<rparr>)"
| acc_return: "acc s i = AInAccept \<Longrightarrow> r \<noteq> Inl CSPCL_OK \<Longrightarrow> sock = rx_socket s \<or> sock \<Longrightarrow>
    sys_step s (s\<lparr>accept_lock := None, rx_socket := sock,
      acc := (acc s)(i := accept_result (from_sys_result r))\<rparr>)"
| acc_register: "acc s i = ARegister k \<Longrightarrow>
    register_new k (now_ms (epoch s) (clock s)) (lt s) = (l, tm) \<Longrightarrow>
    sys_step s (s\<lparr>lt := tm, conn_open := (conn_open s)(l := True), acc := (acc s)(i := ASpawn l)\<rparr>)"
| acc_spawn: "acc s i = ASpawn l \<Longrightarrow>
    sys_step s (s\<lparr>lsn := (lsn s)(l := LTop), acc := (acc s)(i := ASupersede l)\<rparr>)"
| acc_spawn_fails: "acc s i = ASpawn l \<Longrightarrow>
    sys_step s (s\<lparr>conn_open := (conn_open s)(l := False), acc := (acc s)(i := ASpawnFailed l)\<rparr>)"
| acc_spawn_failed: "acc s i = ASpawnFailed l \<Longrightarrow>
    sys_step s (s\<lparr>lt := running_guard_drop l (lt s), acc := (acc s)(i := AError Spawn)\<rparr>)"
| acc_supersede: "acc s i = ASupersede l \<Longrightarrow>
    sys_step s (s\<lparr>lt := supersede l (lt s), acc := (acc s)(i := ATop)\<rparr>)"
| acc_error: "acc s i = AError e \<Longrightarrow>
    sys_step s (s\<lparr>rx := deliver (Inl e) (rx s), acc := (acc s)(i := APause)\<rparr>)"
| acc_pause: "acc s i = APause \<Longrightarrow> sys_step s (s\<lparr>acc := (acc s)(i := ATop)\<rparr>)"
| acc_panic: "acc s i \<noteq> AStopped \<Longrightarrow> (\<And>l. acc s i \<noteq> ASupersede l) \<Longrightarrow>
    sys_step s (unwind_accept i s)"
\<comment> \<open>listener threads\<close>
| lsn_top: "lsn s l = LTop \<Longrightarrow> wait_while_stopped [(stopped_at (rx s), clock s)] = Some keep \<Longrightarrow>
    sys_step s (s\<lparr>lsn := (lsn s)(l :=
      if listen_again keep (heap (lt s) l) then LReading (clock s) else LClosing)\<rparr>)"
| lsn_read: "lsn s l = LReading t0 \<Longrightarrow>
    listen_read l (now_ms (epoch s) (clock s)) (clock s - t0) (expected_read_timeout (rdp_ms s))
      res (lt s) (rx s) = (go, tm, m) \<Longrightarrow>
    sys_step s (s\<lparr>lt := tm, rx := m, lsn := (lsn s)(l := if go then LTop else LClosing),
      received := received s + mset (oks [res])\<rparr>)"
| lsn_panic: "lsn s l = LTop \<or> lsn s l = LReading t0 \<Longrightarrow>
    sys_step s (s\<lparr>lsn := (lsn s)(l := LClosing)\<rparr>)"
| lsn_close: "lsn s l = LClosing \<Longrightarrow>
    sys_step s (s\<lparr>conn_open := (conn_open s)(l := False), lsn := (lsn s)(l := LClosed)\<rparr>)"
| lsn_finish: "lsn s l = LClosed \<Longrightarrow>
    sys_step s (s\<lparr>lt := running_guard_drop l (lt s), lsn := (lsn s)(l := LDone)\<rparr>)"
\<comment> \<open>callers of \<open>close_rx_socket\<close>\<close>
| close_begin: "closer s j = CNone \<Longrightarrow>
    sys_step s (s\<lparr>rx := begin_close (clock s) (rx s), closer := (closer s)(j := CWant)\<rparr>)"
| close_lock: "closer s j = CWant \<Longrightarrow> accept_lock s = None \<Longrightarrow>
    sys_step s (s\<lparr>accept_lock := Some (OClose j), rx_socket := False, closer := (closer s)(j := CHeld)\<rparr>)"
| close_unlock: "closer s j = CHeld \<Longrightarrow>
    sys_step s (s\<lparr>accept_lock := None, closer := (closer s)(j := CReleased)\<rparr>)"
| close_end: "closer s j = CReleased \<Longrightarrow>
    sys_step s (s\<lparr>rx := close_guard_drop (rx s), closer := (closer s)(j := CNone)\<rparr>)"

abbreviation sys_reach :: "instant \<Rightarrow> u32 \<Rightarrow> sys \<Rightarrow> bool" where
  "sys_reach now rdp \<equiv> reach (sys_init now rdp) sys_step"

end
