(* ===== verification/InboundInv.thy ===== *)
theory InboundInv
  imports InboundSystem
begin

text \<open>
  The invariants of the inbound side over every interleaving of its threads, in three groups
  proved one after the other: streams and the accept thread; the accept lock, the receive
  socket and the closes in progress; the connections. Then the bundles: every bundle a read
  acknowledged is in exactly one place.
\<close>

section \<open>Sets of threads by their program counter\<close>

fun is_opening :: "stream_pc \<Rightarrow> bool" where
  "is_opening (SOpening _ _) = True"
| "is_opening _ = False"

fun is_live :: "stream_pc \<Rightarrow> bool" where
  "is_live (SOpening _ _) = True"
| "is_live (SOpen _) = True"
| "is_live _ = False"

fun is_starting :: "stream_pc \<Rightarrow> bool" where
  "is_starting (SOpening _ b) = b"
| "is_starting _ = False"

lemma is_starting_live: "is_starting x \<Longrightarrow> is_live x"
  by (cases x) auto

definition opening_chans :: "sys \<Rightarrow> cid set" where
  "opening_chans s = {c. is_opening (strm s c)}"

definition live_chans :: "sys \<Rightarrow> cid set" where
  "live_chans s = {c. is_live (strm s c)}"

text \<open>Who runs, or is about to start, the accept thread.\<close>

definition starters :: "sys \<Rightarrow> cid set" where
  "starters s = {c. is_starting (strm s c)}"

definition accepters :: "sys \<Rightarrow> nat set" where
  "accepters s = {i. acc s i \<noteq> AStopped}"

lemma coll_upd: "{d. P ((f(c := x)) d)} = (if P x then insert c {d. P (f d)} else {d. P (f d)} - {c})"
  by auto

section \<open>Streams and the accept thread\<close>

definition stream_inv :: "sys \<Rightarrow> bool" where
  "stream_inv s \<longleftrightarrow>
     rx_inv (opening_chans s) (live_chans s) (rx s) \<and>
     (\<forall>c sid. strm s c = SOpen sid \<longrightarrow> sid = c) \<and>
     (\<forall>c sid st. strm s c = SOpening sid st \<longrightarrow> sid = c) \<and>
     (\<forall>i. next_acc s \<le> i \<longrightarrow> acc s i = AStopped)"

definition agent_inv :: "sys \<Rightarrow> bool" where
  "agent_inv s \<longleftrightarrow>
     (if accept_running (rx s)
      then (\<exists>i. accepters s = {i} \<and> starters s = {}) \<or> (\<exists>c. accepters s = {} \<and> starters s = {c})
      else accepters s = {} \<and> starters s = {})"

lemma agent_of_accepter:
  assumes "agent_inv s" and "acc s i \<noteq> AStopped"
  shows "accept_running (rx s)" "accepters s = {i}" "starters s = {}"
proof -
  have "i \<in> accepters s" using assms(2) by (simp add: accepters_def)
  then show "accept_running (rx s)" "accepters s = {i}" "starters s = {}"
    using assms(1) by (auto simp: agent_inv_def split: if_splits)
qed

lemma agent_of_starter:
  assumes "agent_inv s" and "strm s c = SOpening sid True"
  shows "accept_running (rx s)" "accepters s = {}" "starters s = {c}"
proof -
  have "c \<in> starters s" using assms(2) by (simp add: starters_def)
  then show "accept_running (rx s)" "accepters s = {}" "starters s = {c}"
    using assms(1) by (auto simp: agent_inv_def split: if_splits)
qed

lemma agent_idle:
  assumes "agent_inv s" and "\<not> accept_running (rx s)"
  shows "accepters s = {}" "starters s = {}"
  using assms by (simp_all add: agent_inv_def)

lemma agent_invI:
  assumes "accepters t = accepters s" and "starters t = starters s"
    and "accept_running (rx t) = accept_running (rx s)" and "agent_inv s"
  shows "agent_inv t"
  using assms by (simp only: agent_inv_def)

lemma agent_inv_accepter:
  "accept_running (rx t) \<Longrightarrow> accepters t = {i} \<Longrightarrow> starters t = {} \<Longrightarrow> agent_inv t"
  by (simp add: agent_inv_def)

lemma agent_inv_starter:
  "accept_running (rx t) \<Longrightarrow> accepters t = {} \<Longrightarrow> starters t = {c} \<Longrightarrow> agent_inv t"
  by (simp add: agent_inv_def)

lemma agent_inv_none:
  "\<not> accept_running (rx t) \<Longrightarrow> accepters t = {} \<Longrightarrow> starters t = {} \<Longrightarrow> agent_inv t"
  by (simp add: agent_inv_def)

lemmas agent_defs = accepters_def starters_def

text \<open>Steps of the accept thread that keep it running and leave the receiver alone.\<close>

lemma agent_inv_move:
  assumes "agent_inv s" and "acc t = (acc s)(i := x)" and "acc s i \<noteq> AStopped" and "x \<noteq> AStopped"
    and "strm t = strm s" and "accept_running (rx t) = accept_running (rx s)"
  shows "agent_inv t"
proof (rule agent_invI [OF _ _ assms(6,1)])
  show "accepters t = accepters s" "starters t = starters s"
    using assms by (auto simp: agent_defs)
qed

lemma agent_inv_same:
  assumes "agent_inv s" and "strm t = strm s" and "acc t = acc s"
    and "accept_running (rx t) = accept_running (rx s)"
  shows "agent_inv t"
  by (rule agent_invI [OF _ _ assms(4,1)]) (simp_all only: agent_defs assms)

lemma stream_invI:
  assumes "rx_inv (opening_chans s) (live_chans s) (rx s)"
    and "\<And>c sid. strm s c = SOpen sid \<Longrightarrow> sid = c"
    and "\<And>c sid st. strm s c = SOpening sid st \<Longrightarrow> sid = c"
    and "\<And>i. next_acc s \<le> i \<Longrightarrow> acc s i = AStopped"
  shows "stream_inv s"
  unfolding stream_inv_def using assms by blast

lemma opening_upd:
  "strm t = (strm s)(c := x) \<Longrightarrow>
   opening_chans t = (if is_opening x then insert c (opening_chans s) else opening_chans s - {c})"
  by (auto simp: opening_chans_def)

lemma live_upd:
  "strm t = (strm s)(c := x) \<Longrightarrow>
   live_chans t = (if is_live x then insert c (live_chans s) else live_chans s - {c})"
  by (auto simp: live_chans_def)

lemma starters_upd:
  "strm t = (strm s)(c := x) \<Longrightarrow>
   starters t = (if is_starting x then insert c (starters s) else starters s - {c})"
  by (auto simp: starters_def)

lemma accepters_upd:
  "acc t = (acc s)(i := x) \<Longrightarrow>
   accepters t = (if x \<noteq> AStopped then insert i (accepters s) else accepters s - {i})"
  by (auto simp: accepters_def)

lemma stream_inv_upd:
  assumes inv: "stream_inv s" and strm: "strm t = (strm s)(c := x)"
    and x: "x = SOpen c \<or> x = SOpening c st \<or> x = SDropped"
    and rxi: "rx_inv (if is_opening x then insert c (opening_chans s) else opening_chans s - {c})
      (if is_live x then insert c (live_chans s) else live_chans s - {c}) (rx t)"
    and fresh: "\<And>i. next_acc t \<le> i \<Longrightarrow> acc t i = AStopped"
  shows "stream_inv t"
proof (rule stream_invI)
  show "rx_inv (opening_chans t) (live_chans t) (rx t)"
    using rxi by (simp only: opening_upd [OF strm] live_upd [OF strm])
qed (use inv x fresh in \<open>auto simp: strm stream_inv_def split: if_splits\<close>)

lemma stream_inv_same:
  assumes "stream_inv s" and "strm t = strm s" and "rx_inv (opening_chans s) (live_chans s) (rx t)"
    and "next_acc t = next_acc s" and "\<And>i. acc s i = AStopped \<Longrightarrow> acc t i = AStopped"
  shows "stream_inv t"
  using assms by (simp add: stream_inv_def opening_chans_def live_chans_def)

lemma accept_result_not_stopped [simp]: "accept_result r \<noteq> AStopped"
  by (auto simp: accept_result_def split: sum.split error.split)

lemma listen_read_rx:
  assumes "rx_inv op lv m" and "listen_read l n e rt res tm m = (go, tm', m')"
  shows "rx_inv op lv m'" "held m' = held m + mset (oks [res])"
    "accept_running m' = accept_running m" "closing m' = closing m" "is_receiving m' = is_receiving m"
proof -
  note D = deliver_inv [OF assms(1)] and S = deliver_same [OF rx_invD(1) [OF assms(1)]]
  have "m' = m \<and> oks [res] = [] \<or> m' = deliver res m"
    using assms(2) by (cases res; cases "projl res")
      (auto simp: listen_read_def split: if_splits)
  then show "rx_inv op lv m'" "held m' = held m + mset (oks [res])"
    "accept_running m' = accept_running m" "closing m' = closing m" "is_receiving m' = is_receiving m"
    using assms(1) D S by (auto simp: is_receiving_def)
qed

lemma unwind_accept_sel [simp]:
  "rx (unwind_accept i s) = accept_guard_drop True (clock s) (rx s)"
  "strm (unwind_accept i s) = strm s" "acc (unwind_accept i s) = (acc s)(i := AStopped)"
  "next_acc (unwind_accept i s) = next_acc s" "closer (unwind_accept i s) = closer s"
  "rx_socket (unwind_accept i s) = rx_socket s" "consumed (unwind_accept i s) = consumed s"
  "received (unwind_accept i s) = received s" "lsn (unwind_accept i s) = lsn s"
  by (auto simp: unwind_accept_def Let_def split: acc_pc.split)

lemma stream_inv_step:
  assumes "sys_step s t" and inv: "stream_inv s" and ag: "agent_inv s"
  shows "stream_inv t"
proof -
  have rxi: "rx_inv (opening_chans s) (live_chans s) (rx s)"
    and open_sid: "\<And>c sid. strm s c = SOpen sid \<Longrightarrow> sid = c"
    and opening_sid: "\<And>c sid st. strm s c = SOpening sid st \<Longrightarrow> sid = c"
    and fresh: "\<And>i. next_acc s \<le> i \<Longrightarrow> acc s i = AStopped"
    using inv by (auto simp: stream_inv_def)
  have opened: "\<And>c sid st. strm s c = SOpening sid st \<Longrightarrow> c \<in> opening_chans s"
      "\<And>c sid st. strm s c = SOpening sid st \<Longrightarrow> c \<in> live_chans s"
    by (simp_all add: opening_chans_def live_chans_def)
  from assms(1) show ?thesis
  proof cases
    case (open_stream sid c start m)
    note sub = subscribe_locked_inv [OF rxi open_stream(2,3)]
    show ?thesis
      by (rule stream_inv_upd [OF inv, where c = c and x = "SOpening c start" and st = start])
        (use sub(1,6) fresh in \<open>simp_all add: open_stream(1)\<close>)
  next
    case (open_done c sid)
    note c = opening_sid [OF open_done(2)] opened [OF open_done(2)]
    show ?thesis
      by (rule stream_inv_upd [OF inv, where c = c and x = "SOpen c"])
        (use c subscribe_done_inv [OF rxi c(2)] fresh in \<open>simp_all add: open_done(1) insert_absorb\<close>)
  next
    case (spawn_accept c sid)
    note c = opening_sid [OF spawn_accept(2)] opened [OF spawn_accept(2)]
    show ?thesis
      by (rule stream_inv_upd [OF inv, where c = c and x = "SOpen c"])
        (use c subscribe_done_inv [OF rxi c(2)] fresh in \<open>simp_all add: spawn_accept(1) insert_absorb\<close>)
  next
    case (spawn_accept_fails c sid)
    note c = opening_sid [OF spawn_accept_fails(2)] opened [OF spawn_accept_fails(2)]
    show ?thesis
      by (rule stream_inv_upd [OF inv, where c = c and x = "SOpen c"])
        (use c subscribe_failed_inv(1) [OF rxi c(2)] fresh in \<open>simp_all add: spawn_accept_fails(1) insert_absorb\<close>)
  next
    case (drop_stream c sid)
    have c: "c \<in> live_chans s" "c \<notin> opening_chans s" "sid = c"
      using drop_stream(2) open_sid by (auto simp: opening_chans_def live_chans_def)
    show ?thesis
      by (rule stream_inv_upd [OF inv, where c = c and x = SDropped])
        (use c unsubscribe_inv(1) [OF rxi c(1,2)] fresh in \<open>simp_all add: drop_stream(1)\<close>)
  next
    case (read_stream c sid p m)
    have "c \<in> live_chans s" using read_stream by (simp add: live_chans_def)
    from poll_next_inv(1) [OF rxi this read_stream(3)] show ?thesis
      by (intro stream_inv_same [OF inv]) (simp_all add: read_stream)
  next
    case (acc_check i go m)
    from accept_loop_check_inv(1) [OF rxi acc_check(3)] show ?thesis
      by (intro stream_inv_same [OF inv]) (auto simp: acc_check)
  next
    case (acc_error i e)
    from deliver_inv(1) [OF rxi] show ?thesis
      by (intro stream_inv_same [OF inv]) (auto simp: acc_error)
  next
    case (acc_panic i)
    from accept_guard_drop_inv(1) [OF rxi] show ?thesis
      by (intro stream_inv_same [OF inv]) (auto simp: acc_panic)
  next
    case (lsn_read l t0 res go tm m)
    from listen_read_rx(1) [OF rxi lsn_read(3)] show ?thesis
      by (intro stream_inv_same [OF inv]) (auto simp: lsn_read)
  next
    case (close_begin j)
    from begin_close_inv(1) [OF rxi] show ?thesis
      by (intro stream_inv_same [OF inv]) (auto simp: close_begin)
  next
    case (close_end j)
    from close_guard_drop_inv(1) [OF rxi] show ?thesis
      by (intro stream_inv_same [OF inv]) (auto simp: close_end)
  qed (use rxi in \<open>auto intro!: stream_inv_same [OF inv]\<close>)
qed

lemma agent_inv_step:
  assumes "sys_step s t" and inv: "stream_inv s" and ag: "agent_inv s"
  shows "agent_inv t"
proof -
  have rxi: "rx_inv (opening_chans s) (live_chans s) (rx s)"
    and open_sid: "\<And>c sid. strm s c = SOpen sid \<Longrightarrow> sid = c"
    and opening_sid: "\<And>c sid st. strm s c = SOpening sid st \<Longrightarrow> sid = c"
    using inv by (auto simp: stream_inv_def)
  from assms(1) show ?thesis
  proof cases
    case (open_stream sid c start m)
    note sub = subscribe_locked_inv [OF rxi open_stream(2,3)]
    have c: "c \<notin> starters s" using sub(3) is_starting_live by (auto simp: starters_def live_chans_def)
    show ?thesis
    proof (cases "accept_running (rx s)")
      case True
      with sub have "start = False" by simp
      with True sub(5) c show ?thesis
        by (intro agent_invI [OF _ _ _ ag]) (auto simp: open_stream(1) agent_defs)
    next
      case False
      with sub have "start = True" by simp
      with agent_idle [OF ag False] sub(5) show ?thesis
        by (intro agent_inv_starter [where c = c]) (auto simp: open_stream(1) agent_defs)
    qed
  next
    case (open_done c sid)
    then show ?thesis
      by (intro agent_invI [OF _ _ _ ag]) (auto simp: agent_defs)
  next
    case (spawn_accept c sid)
    from agent_of_starter [OF ag spawn_accept(2)] show ?thesis
      by (intro agent_inv_accepter [where i = "next_acc s"]) (auto simp: spawn_accept(1) agent_defs)
  next
    case (spawn_accept_fails c sid)
    note c = opening_sid [OF spawn_accept_fails(2)]
    have "c \<in> opening_chans s" using spawn_accept_fails(2) by (simp add: opening_chans_def)
    from subscribe_failed_inv(4) [OF rxi this] agent_of_starter [OF ag spawn_accept_fails(2)] c
    show ?thesis
      by (intro agent_inv_none) (auto simp: spawn_accept_fails(1) agent_defs)
  next
    case (drop_stream c sid)
    have c: "c \<in> live_chans s" "c \<notin> opening_chans s" "sid = c"
      using drop_stream(2) open_sid by (auto simp: opening_chans_def live_chans_def)
    with unsubscribe_inv(4) [OF rxi c(1,2)] drop_stream show ?thesis
      by (intro agent_invI [OF _ _ _ ag]) (auto simp: agent_defs)
  next
    case (read_stream c sid p m)
    have "c \<in> live_chans s" using read_stream by (simp add: live_chans_def)
    from poll_next_inv(3) [OF rxi this read_stream(3)] show ?thesis
      by (intro agent_inv_same [OF ag]) (simp_all add: read_stream)
  next
    case (acc_check i go m)
    note chk = accept_loop_check_inv [OF rxi acc_check(3)] and a = agent_of_accepter [OF ag, of i]
    show ?thesis
    proof (cases go)
      case True
      with chk show ?thesis
        by (intro agent_inv_move [OF ag, of t i ASlot]) (simp_all add: acc_check)
    next
      case False
      with chk a acc_check show ?thesis
        by (intro agent_inv_none) (auto simp: agent_defs)
    qed
  next
    case (acc_slot i ok tm)
    then show ?thesis
      by (intro agent_inv_move [OF ag, of t i "if ok then APoll else ATop"]) simp_all
  next
    case (acc_error i e)
    with deliver_same(3) [OF rx_invD(1) [OF rxi]] show ?thesis
      by (intro agent_inv_move [OF ag, of t i APause]) simp_all
  next
    case (acc_panic i)
    with accept_guard_drop_inv(4) [OF rxi] agent_of_accepter [OF ag acc_panic(2)] show ?thesis
      by (intro agent_inv_none) (auto simp: agent_defs)
  next
    case (lsn_read l t0 res go tm m)
    with listen_read_rx(3) [OF rxi lsn_read(3)] show ?thesis
      by (intro agent_inv_same [OF ag]) simp_all
  next
    case (close_begin j)
    with begin_close_inv(5) [OF rxi] show ?thesis
      by (intro agent_inv_same [OF ag]) simp_all
  next
    case (close_end j)
    then show ?thesis
      by (intro agent_inv_same [OF ag]) (simp_all add: close_guard_drop_def)
  qed ((rule agent_inv_same [OF ag]; simp; fail) |
      (rule agent_inv_move [OF ag], simp, simp_all; fail))+
qed

section \<open>Closes in progress, the accept lock and the receive socket\<close>

definition closers :: "sys \<Rightarrow> nat set" where
  "closers s = {j. closer s j \<noteq> CNone}"

definition close_inv :: "sys \<Rightarrow> bool" where
  "close_inv s \<longleftrightarrow> finite (closers s) \<and> closing (rx s) = card (closers s)"

definition lock_inv :: "sys \<Rightarrow> bool" where
  "lock_inv s \<longleftrightarrow>
     (\<forall>i. acc s i = AInAccept \<longleftrightarrow> accept_lock s = Some (OAcc i)) \<and>
     (\<forall>j. closer s j = CHeld \<longleftrightarrow> accept_lock s = Some (OClose j)) \<and>
     (\<forall>j. closer s j = CHeld \<or> closer s j = CReleased \<longrightarrow>
        \<not> rx_socket s \<and> (\<forall>i. acc s i \<noteq> AInAccept))"

lemma subscribe_locked_closing: "subscribe_locked m = (x, m') \<Longrightarrow> closing m' = closing m"
  by (auto simp: subscribe_locked_eq)

lemma close_inv_same:
  assumes "close_inv s" and "closer t = closer s" and "closing (rx t) = closing (rx s)"
  shows "close_inv t"
  using assms by (simp add: close_inv_def closers_def)

lemma closers_upd:
  "closer t = (closer s)(j := x) \<Longrightarrow>
   closers t = (if x \<noteq> CNone then insert j (closers s) else closers s - {j})"
  by (auto simp: closers_def)

lemma close_inv_move:
  assumes "close_inv s" and "closer t = (closer s)(j := x)" and "closer s j \<noteq> CNone" and "x \<noteq> CNone"
    and "closing (rx t) = closing (rx s)"
  shows "close_inv t"
proof -
  have "closers t = closers s"
    using assms(2-4) by (auto simp: closers_def)
  with assms(1,5) show ?thesis by (simp add: close_inv_def)
qed

lemma close_inv_step:
  assumes "sys_step s t" and inv: "stream_inv s" and cl: "close_inv s"
  shows "close_inv t"
proof -
  have rxi: "rx_inv (opening_chans s) (live_chans s) (rx s)"
    and open_sid: "\<And>c sid. strm s c = SOpen sid \<Longrightarrow> sid = c"
    and opening_sid: "\<And>c sid st. strm s c = SOpening sid st \<Longrightarrow> sid = c"
    using inv by (auto simp: stream_inv_def)
  have fin: "finite (closers s)" and card: "closing (rx s) = card (closers s)"
    using cl by (simp_all add: close_inv_def)
  from assms(1) show ?thesis
  proof cases
    case (open_stream sid c start m)
    then show ?thesis
      by (intro close_inv_same [OF cl]) (simp_all add: subscribe_locked_closing [OF open_stream(3)])
  next
    case (spawn_accept_fails c sid)
    have "c \<in> opening_chans s" using spawn_accept_fails(2) by (simp add: opening_chans_def)
    from subscribe_failed_inv(3) [OF rxi this] opening_sid [OF spawn_accept_fails(2)] show ?thesis
      by (intro close_inv_same [OF cl]) (simp_all add: spawn_accept_fails(1))
  next
    case (drop_stream c sid)
    have c: "c \<in> live_chans s" "c \<notin> opening_chans s" "sid = c"
      using drop_stream(2) open_sid by (auto simp: opening_chans_def live_chans_def)
    with unsubscribe_inv(3) [OF rxi c(1,2)] show ?thesis
      by (intro close_inv_same [OF cl]) (simp_all add: drop_stream(1))
  next
    case (read_stream c sid p m)
    have "c \<in> live_chans s" using read_stream by (simp add: live_chans_def)
    from poll_next_inv(4) [OF rxi this read_stream(3)] show ?thesis
      by (intro close_inv_same [OF cl]) (simp_all add: read_stream(1))
  next
    case (acc_check i go m)
    from accept_loop_check_inv(4) [OF rxi acc_check(3)] show ?thesis
      by (intro close_inv_same [OF cl]) (simp_all add: acc_check(1))
  next
    case (acc_error i e)
    from deliver_same(2) [OF rx_invD(1) [OF rxi]] show ?thesis
      by (intro close_inv_same [OF cl]) (simp_all add: acc_error(1))
  next
    case (acc_panic i)
    from accept_guard_drop_inv(3) [OF rxi] show ?thesis
      by (intro close_inv_same [OF cl]) (simp_all add: acc_panic(1))
  next
    case (lsn_read l t0 res go tm m)
    from listen_read_rx(4) [OF rxi lsn_read(3)] show ?thesis
      by (intro close_inv_same [OF cl]) (simp_all add: lsn_read(1))
  next
    case (close_begin j)
    have "closers t = insert j (closers s)" "j \<notin> closers s"
      using close_begin by (auto simp: closers_def)
    with begin_close_inv(3) [OF rxi] fin card show ?thesis
      by (simp add: close_inv_def close_begin(1))
  next
    case (close_end j)
    have "closers t = closers s - {j}" "j \<in> closers s"
      using close_end by (auto simp: closers_def)
    with fin card show ?thesis
      by (simp add: close_inv_def close_end(1) close_guard_drop_def)
  qed ((rule close_inv_same [OF cl]; simp; fail) |
      (rule close_inv_move [OF cl], simp, simp_all; fail))+
qed

lemma closing_not_receiving:
  assumes "stream_inv s" and "close_inv s" and "closer s j \<noteq> CNone"
  shows "\<not> is_receiving (rx s)" "subscribers (rx s) = []"
proof -
  have "j \<in> closers s" using assms(3) by (simp add: closers_def)
  with assms(2) have "0 < closing (rx s)" by (auto simp: close_inv_def card_gt_0_iff)
  with assms(1) show "\<not> is_receiving (rx s)" "subscribers (rx s) = []"
    by (auto simp: stream_inv_def rx_inv_def state_inv_def)
qed

lemma lock_invI:
  assumes "\<And>i. acc s i = AInAccept \<longleftrightarrow> accept_lock s = Some (OAcc i)"
    and "\<And>j. closer s j = CHeld \<longleftrightarrow> accept_lock s = Some (OClose j)"
    and "\<And>j. closer s j = CHeld \<or> closer s j = CReleased \<Longrightarrow> \<not> rx_socket s"
    and "\<And>i j. closer s j = CHeld \<or> closer s j = CReleased \<Longrightarrow> acc s i \<noteq> AInAccept"
  shows "lock_inv s"
  unfolding lock_inv_def using assms by blast

lemma lock_invD:
  assumes "lock_inv s"
  shows "acc s i = AInAccept \<longleftrightarrow> accept_lock s = Some (OAcc i)"
    and "closer s j = CHeld \<longleftrightarrow> accept_lock s = Some (OClose j)"
    and "closer s j = CHeld \<or> closer s j = CReleased \<Longrightarrow> \<not> rx_socket s"
    and "closer s j = CHeld \<or> closer s j = CReleased \<Longrightarrow> acc s i \<noteq> AInAccept"
  using assms by (auto simp: lock_inv_def)

lemma lock_inv_same:
  assumes "lock_inv s" and "\<And>j. closer t j = CHeld \<longleftrightarrow> closer s j = CHeld"
    and "\<And>j. closer t j = CReleased \<Longrightarrow> closer s j = CReleased" and "accept_lock t = accept_lock s"
    and "rx_socket t = rx_socket s" and "\<And>i. acc t i = AInAccept \<longleftrightarrow> acc s i = AInAccept"
  shows "lock_inv t"
  by (rule lock_invI) (metis assms(2-6) lock_invD [OF assms(1)])+

lemma unwind_accept_lock:
  "accept_lock (unwind_accept i s) = (if acc s i = AInAccept then None else accept_lock s)"
  by (simp add: unwind_accept_def Let_def split: acc_pc.split)

lemma accept_result_not_in_accept [simp]: "accept_result r \<noteq> AInAccept"
  by (auto simp: accept_result_def split: sum.split error.split)

lemma lock_inv_step:
  assumes "sys_step s t" and inv: "stream_inv s" and cl: "close_inv s" and lk: "lock_inv s"
  shows "lock_inv t"
proof -
  note acc_lk = lock_invD(1) [OF lk] and close_lk = lock_invD(2) [OF lk]
    and sock = lock_invD(3) [OF lk] and none = lock_invD(4) [OF lk]
  note same = lock_inv_same [OF lk]
  from assms(1) show ?thesis
  proof cases
    case (spawn_accept c sid)
    have "acc s (next_acc s) = AStopped" using inv by (simp add: stream_inv_def)
    then show ?thesis by (intro same) (simp_all add: spawn_accept(1))
  next
    case (acc_enter i)
    have "closer s j \<noteq> CReleased" "closer s j \<noteq> CHeld" for j
      using closing_not_receiving [OF inv cl, of j] acc_enter(4)
      by (auto simp: poll_connection_check_def)
    with acc_enter acc_lk close_lk show ?thesis
      by (intro lock_invI) (auto split: if_splits)
  next
    case (acc_return i r sock')
    then have lk_i: "accept_lock s = Some (OAcc i)" using acc_lk by simp
    have "closer s j \<noteq> CReleased" "closer s j \<noteq> CHeld" for j
      using none [of j i] acc_return(2) by auto
    with acc_return lk_i acc_lk show ?thesis
      by (intro lock_invI) (auto split: if_splits)
  next
    case (acc_panic i)
    show ?thesis
    proof (rule lock_invI, goal_cases)
      case (1 k)
      then show ?case using acc_lk [of k] acc_lk [of i]
        by (auto simp: acc_panic(1) unwind_accept_lock)
    next
      case (2 j)
      then show ?case using acc_lk [of i] close_lk [of j]
        by (auto simp: acc_panic(1) unwind_accept_lock)
    qed (use sock none acc_panic in \<open>auto split: if_splits\<close>)
  next
    case (close_lock j)
    then show ?thesis
      using acc_lk close_lk sock none by (intro lock_invI) (auto split: if_splits)
  next
    case (close_unlock j)
    then have "accept_lock s = Some (OClose j)" using close_lk by simp
    with close_unlock show ?thesis
      using acc_lk close_lk sock [of j] none by (intro lock_invI) (auto split: if_splits)
  next
    case (close_begin j)
    then show ?thesis by (intro same) (auto split: if_splits)
  next
    case (close_end j)
    then show ?thesis by (intro same) (auto split: if_splits)
  qed (auto intro!: same split: if_splits)
qed

section \<open>Connections\<close>

text \<open>What the accept thread has in hand: a free slot, a connection not yet superseding others.\<close>

fun has_slot :: "acc_pc \<Rightarrow> bool" where
  "has_slot APoll = True"
| "has_slot AInAccept = True"
| "has_slot (ARegister _) = True"
| "has_slot _ = False"

fun newcomer :: "acc_pc \<Rightarrow> lid set" where
  "newcomer (ASpawn l) = {l}"
| "newcomer (ASpawnFailed l) = {l}"
| "newcomer (ASupersede l) = {l}"
| "newcomer _ = {}"

definition newcomers :: "sys \<Rightarrow> lid set" where
  "newcomers s = (\<Union>i. newcomer (acc s i))"

abbreviation MAX_CONNS :: nat where
  "MAX_CONNS \<equiv> MAX_INBOUND_CONNS + MAX_EXTRA_INBOUND_CONNS"

definition slot_inv :: "sys \<Rightarrow> bool" where
  "slot_inv s \<longleftrightarrow>
     table_inv (lt s) \<and> card (conns (lt s)) \<le> MAX_CONNS \<and>
     (\<forall>i. has_slot (acc s i) \<longrightarrow> card (conns (lt s)) < MAX_CONNS)"

definition kept_inv :: "sys \<Rightarrow> bool" where
  "kept_inv s \<longleftrightarrow>
     card (kept_conns (lt s) - newcomers s) \<le> MAX_INBOUND_CONNS \<and>
     inj_on (\<lambda>l. key (heap (lt s) l)) (kept_conns (lt s) - newcomers s)"

lemma sole_accepter:
  assumes "accepters s = {i}" shows "j \<noteq> i \<Longrightarrow> acc s j = AStopped"
proof -
  assume "j \<noteq> i"
  then have "j \<notin> accepters s" unfolding assms by simp
  then show ?thesis by (simp add: accepters_def)
qed

lemma newcomers_move:
  assumes "accepters s = {i}" and "acc t = (acc s)(i := x)"
  shows "newcomers t = newcomer x"
proof -
  have "newcomer (acc t j) = (if j = i then newcomer x else {})" for j
    using assms by (cases "j = i") (simp_all add: sole_accepter)
  then show ?thesis by (auto simp: newcomers_def split: if_splits)
qed

lemma newcomers_accepter:
  assumes "accepters s = {i}" shows "newcomers s = newcomer (acc s i)"
  by (rule newcomers_move [OF assms]) simp

lemma newcomers_same: "acc t = acc s \<Longrightarrow> newcomers t = newcomers s"
  by (simp add: newcomers_def)

text \<open>What reading a bundle does to the table: at most a new time of last activity.\<close>

lemma listen_read_table:
  assumes "listen_read l n e rt res tm m = (go, tm', m')"
  shows "conns tm' = conns tm" "kept_conns tm' = kept_conns tm" "table_inv tm \<Longrightarrow> table_inv tm'"
    "key (heap tm' x) = key (heap tm x)" "next_lid tm' = next_lid tm"
proof -
  have "tm' = tm \<or> (\<exists>t. tm' = store_last_active l t tm)"
    using assms by (cases res; cases "projl res") (auto simp: listen_read_def split: if_splits)
  then show "conns tm' = conns tm" "kept_conns tm' = kept_conns tm" "table_inv tm \<Longrightarrow> table_inv tm'"
    "key (heap tm' x) = key (heap tm x)" "next_lid tm' = next_lid tm"
    by (auto simp: table_inv_store_last_active, auto simp: store_last_active_def)
qed

lemma slot_inv_shrink:
  assumes "slot_inv s" and "table_inv (lt t)" and "conns (lt t) \<subseteq> conns (lt s)"
    and "\<And>i. has_slot (acc t i) \<Longrightarrow> has_slot (acc s i)"
  shows "slot_inv t"
proof -
  have "card (conns (lt t)) \<le> card (conns (lt s))"
    by (rule card_mono [OF ct.finite_cs assms(3)])
  with assms show ?thesis
    unfolding slot_inv_def by (meson le_less_trans le_trans)
qed

lemma unwind_accept_table:
  "lt (unwind_accept i s) = lt s \<or> (\<exists>l. lt (unwind_accept i s) = running_guard_drop l (lt s))"
  by (auto simp: unwind_accept_def Let_def split: acc_pc.split)

lemma slot_inv_step:
  assumes "sys_step s t" and ag: "agent_inv s" and sl: "slot_inv s"
  shows "slot_inv t"
proof -
  note shrink = slot_inv_shrink [OF sl]
  have tinv: "table_inv (lt s)" using sl by (simp add: slot_inv_def)
  from assms(1) show ?thesis
  proof cases
    case (acc_slot i ok tm)
    have acc: "accepters s = {i}" by (rule agent_of_accepter [OF ag]) (simp add: acc_slot)
    have tm: "conns tm = conns (lt s)" "table_inv tm" "ok \<longleftrightarrow> card (conns (lt s)) < MAX_CONNS"
      using ct.may_frame [of "lt s"] ct.may_inv [OF tinv] ct.may_iff [OF tinv] acc_slot(3)
      by (auto simp: wait_for_slot_def)
    have "\<not> has_slot (acc s j)" for j
      using sole_accepter [OF acc, of j] acc_slot(2) by (cases "j = i") simp_all
    with sl tm show ?thesis
      by (auto simp: slot_inv_def acc_slot(1))
  next
    case (acc_register i k l tm)
    have acc: "accepters s = {i}" by (rule agent_of_accepter [OF ag]) (simp add: acc_register)
    note other = sole_accepter [OF acc]
    have "card (conns (lt s)) < MAX_CONNS"
      using sl acc_register(2) unfolding slot_inv_def by (metis has_slot.simps(3))
    note tm = ct.add_inv [OF tinv acc_register(3)] ct.add_within_limit [OF tinv this acc_register(3)]
    have "\<not> has_slot (acc t j)" for j
      using other by (simp add: acc_register(1))
    with tm show ?thesis by (simp add: slot_inv_def acc_register(1))
  next
    case (acc_return i r sock)
    then show ?thesis
      by (intro shrink) (auto simp: tinv split: if_splits)
  next
    case (acc_supersede i l)
    then show ?thesis
      by (intro shrink) (simp_all add: tinv ct.sup_inv ct.sup_cs split: if_splits)
  next
    case (acc_panic i)
    then show ?thesis
      by (intro shrink) (use unwind_accept_table [of i s] in
        \<open>auto simp: tinv table_inv_running_guard_drop split: if_splits\<close>)
  next
    case (lsn_read l t0 res go tm m)
    then show ?thesis
      by (intro shrink) (simp_all add: listen_read_table [OF lsn_read(3)] tinv)
  qed ((rule shrink; simp add: tinv ct.fin_inv accept_result_def split: if_splits; fail)+)?
qed

text \<open>At most the newcomer is above the limit of kept connections, or shares a key with one.\<close>

lemma kept_inv_shrink:
  assumes "kept_inv s" and "kept_conns (lt t) - newcomers t \<subseteq> kept_conns (lt s) - newcomers s"
    and "\<And>l. key (heap (lt t) l) = key (heap (lt s) l)"
  shows "kept_inv t"
proof -
  let ?K = "\<lambda>s. kept_conns (lt s) - newcomers s"
  have "card (?K t) \<le> card (?K s)"
    by (rule card_mono [OF _ assms(2)]) (simp add: ct.finite_ks)
  moreover have "inj_on (\<lambda>l. key (heap (lt t) l)) (?K t)"
    using assms(1) by (simp only: assms(3) kept_inv_def) (blast intro: inj_on_subset [OF _ assms(2)])
  ultimately show ?thesis
    using assms(1) by (simp only: kept_inv_def) simp
qed

lemma key_running_guard_drop [simp]: "key (heap (running_guard_drop l m) x) = key (heap m x)"
  by (simp add: running_guard_drop_def)

lemma kept_inv_move:
  assumes k: "kept_inv s" and ag: "agent_inv s" and t: "acc t = (acc s)(i := x)"
    and i: "acc s i \<noteq> AStopped" and n: "newcomer (acc s i) = newcomer x" and lt: "lt t = lt s"
  shows "kept_inv t"
proof -
  note a = agent_of_accepter(2) [OF ag i]
  have "newcomers t = newcomers s"
    by (simp only: newcomers_accepter [OF a] newcomers_move [OF a t] n)
  then show ?thesis
    by (intro kept_inv_shrink [OF k]) (simp_all add: lt)
qed

lemma newcomer_accept_result [simp]: "newcomer (accept_result r) = {}"
  by (auto simp: accept_result_def split: sum.split error.split)

lemma kept_inv_register:
  assumes "table_inv (lt s)" and "kept_inv s" and "newcomers s = {}"
    and "register_new k n (lt s) = (l, lt t)" and "newcomers t = {l}"
  shows "kept_inv t"
proof -
  note r = register_new_simps [OF assms(1,4)]
  have l: "l \<notin> kept_conns (lt s)" using r(4) ct.ks_cs by blast
  then have K: "kept_conns (lt t) - newcomers t = kept_conns (lt s) - newcomers s"
    by (auto simp: r(5) assms(3,5))
  have "inj_on (\<lambda>x. key (heap (lt t) x)) (kept_conns (lt s)) = inj_on (\<lambda>x. key (heap (lt s) x)) (kept_conns (lt s))"
    using l by (intro inj_on_cong) (auto simp: r(6))
  then show ?thesis
    using assms(2) by (simp only: kept_inv_def K) (simp add: assms(3))
qed

lemma kept_inv_supersede:
  assumes tinv: "table_inv (lt s)" and k: "kept_inv s" and n: "newcomers s = {l}"
    and t: "lt t = supersede l (lt s)" and n': "newcomers t = {}"
  shows "kept_inv t"
proof -
  let ?m = "lt s" and ?key = "\<lambda>x. key (heap (lt s) x)"
  have card: "card (kept_conns ?m - {l}) \<le> MAX_INBOUND_CONNS" and inj: "inj_on ?key (kept_conns ?m - {l})"
    using k by (simp_all add: kept_inv_def n)
  have "card (insert l (kept_conns ?m)) \<le> Suc MAX_INBOUND_CONNS"
    using card by (simp add: card.insert_remove ct.finite_ks)
  moreover have "card (kept_conns ?m) \<le> card (insert l (kept_conns ?m))"
    by (rule card_insert_le)
  ultimately have "card (kept_conns (supersede l ?m)) \<le> MAX_INBOUND_CONNS"
    using ct.sup_keep [OF tinv, of l] ct.sup_after_finish [OF tinv, of l]
    by (cases "l \<in> conns ?m") (simp_all add: le_trans)
  moreover have "inj_on ?key (kept_conns (supersede l ?m))"
  proof (cases "running (heap ?m l)")
    case True
    have "kept_conns (supersede l ?m) \<subseteq> kept_conns ?m - stale_conns l ?m"
      by (auto simp: kept_conns_supersede [OF tinv True])
    moreover have "?key x \<noteq> ?key l" if "x \<in> kept_conns ?m - stale_conns l ?m" "x \<noteq> l" for x
      using that by (auto simp: stale_conns_def kept_conns_def conns_def)
    ultimately have "x \<in> kept_conns ?m - {l}" "?key x \<noteq> ?key l"
      if "x \<in> kept_conns (supersede l ?m)" "x \<noteq> l" for x
      using that by auto
    then show ?thesis
      by (intro inj_onI) (metis inj inj_onD)
  next
    case False
    then have "kept_conns (supersede l ?m) \<subseteq> kept_conns ?m - {l}"
      by (auto simp: supersede_finished kept_conns_def conns_def)
    with inj show ?thesis by (rule inj_on_subset)
  qed
  ultimately show ?thesis
    by (simp add: kept_inv_def n' t tinv)
qed

lemma kept_inv_step:
  assumes "sys_step s t" and str: "stream_inv s" and ag: "agent_inv s" and sl: "slot_inv s"
    and k: "kept_inv s"
  shows "kept_inv t"
proof -
  note shrink = kept_inv_shrink [OF k]
  have tinv: "table_inv (lt s)" using sl by (simp add: slot_inv_def)
  have acc: "accepters s = {i}" "newcomers s = newcomer (acc s i)" if "acc s i \<noteq> AStopped" for i
    using agent_of_accepter(2) [OF ag that] newcomers_accepter by auto
  note move = newcomers_move [OF acc(1)]
  from assms(1) show ?thesis
  proof cases
    case (spawn_accept c sid)
    have "acc s j = AStopped" for j
      using agent_of_starter(2) [OF ag spawn_accept(2)] by (simp add: accepters_def)
    then have "newcomers t = {}" "newcomers s = {}"
      by (simp_all add: newcomers_def spawn_accept(1))
    then show ?thesis by (intro shrink) (simp_all add: spawn_accept(1))
  next
    case (acc_slot i ok tm)
    have "newcomers s = {}" "newcomers t = {}"
      using acc(2) [of i] move [of i t "if ok then APoll else ATop"] acc_slot by auto
    moreover have "kept_conns tm = kept_conns (lt s)"
      using ct.may_frame(2) [of "lt s"] acc_slot(3) by (simp add: wait_for_slot_def)
    moreover have "heap tm = heap (lt s)"
      using acc_slot(3) by (auto simp: wait_for_slot_def may_accept_def open_conns_def Let_def)
    ultimately show ?thesis
      by (intro shrink) (simp_all add: acc_slot(1))
  next
    case (acc_register i k' l tm)
    have n: "newcomers s = {}" "newcomers t = {l}"
      using acc(2) [of i] move [of i t "ASpawn l"] acc_register by auto
    have "register_new k' (now_ms (epoch s) (clock s)) (lt s) = (l, lt t)"
      using acc_register by simp
    from kept_inv_register [OF tinv k n(1) this n(2)] show ?thesis .
  next
    case (acc_supersede i l)
    have n: "newcomers s = {l}" "newcomers t = {}"
      using acc(2) [of i] move [of i t ATop] acc_supersede by auto
    have "lt t = supersede l (lt s)" using acc_supersede by simp
    from kept_inv_supersede [OF tinv k n(1) this n(2)] show ?thesis .
  next
    case (acc_spawn_failed i l)
    have "newcomers s = {l}" "newcomers t = {}"
      using acc(2) [of i] move [of i t "AError Spawn"] acc_spawn_failed by auto
    then show ?thesis
      by (intro shrink) (auto simp: acc_spawn_failed(1))
  next
    case (lsn_read l t0 res go tm m)
    then show ?thesis
      by (intro shrink) (simp_all add: listen_read_table [OF lsn_read(3)] newcomers_def)
  next
    case (acc_panic i)
    have n: "newcomers s = newcomer (acc s i)" "newcomers t = {}"
      using acc(2) [of i] move [of i t AStopped] acc_panic by auto
    have "kept_conns (lt t) \<subseteq> kept_conns (lt s) - newcomer (acc s i)"
      using acc_panic by (cases "acc s i") (auto simp: unwind_accept_def Let_def)
    then show ?thesis
      by (intro shrink) (use n unwind_accept_table [of i s] in \<open>auto simp: acc_panic(1)\<close>)
  next
    case (lsn_finish l)
    then show ?thesis
      by (intro shrink) (auto simp: newcomers_def)
  qed ((rule shrink; simp add: newcomers_def; fail) |
      (rule kept_inv_move [OF k ag], simp, simp_all; fail))+
qed

section \<open>Threads own the connections\<close>

fun holds_conn :: "lsn_pc \<Rightarrow> bool" where
  "holds_conn LTop = True"
| "holds_conn (LReading _) = True"
| "holds_conn LClosing = True"
| "holds_conn _ = False"

fun holds_slot :: "lsn_pc \<Rightarrow> bool" where
  "holds_slot LNone = False"
| "holds_slot LDone = False"
| "holds_slot _ = True"

fun spawn_of :: "acc_pc \<Rightarrow> lid set" where
  "spawn_of (ASpawn l) = {l}"
| "spawn_of _ = {}"

fun failed_of :: "acc_pc \<Rightarrow> lid set" where
  "failed_of (ASpawnFailed l) = {l}"
| "failed_of _ = {}"

definition spawning :: "sys \<Rightarrow> lid set" where
  "spawning s = (\<Union>i. spawn_of (acc s i))"

definition failing :: "sys \<Rightarrow> lid set" where
  "failing s = (\<Union>i. failed_of (acc s i))"

definition open_set :: "sys \<Rightarrow> lid set" where
  "open_set s = {l. conn_open s l}"

definition owner_inv :: "sys \<Rightarrow> bool" where
  "owner_inv s \<longleftrightarrow>
     open_set s = {l. holds_conn (lsn s l)} \<union> spawning s \<and>
     conns (lt s) = {l. holds_slot (lsn s l)} \<union> spawning s \<union> failing s \<and>
     (\<forall>l. l \<in> spawning s \<union> failing s \<longrightarrow> lsn s l = LNone) \<and>
     (\<forall>l. lsn s l \<noteq> LNone \<longrightarrow> l < next_lid (lt s))"

lemma owner_invI:
  assumes "\<And>l. conn_open s l \<longleftrightarrow> holds_conn (lsn s l) \<or> l \<in> spawning s"
    and "\<And>l. l \<in> conns (lt s) \<longleftrightarrow> holds_slot (lsn s l) \<or> l \<in> spawning s \<or> l \<in> failing s"
    and "\<And>l. l \<in> spawning s \<or> l \<in> failing s \<Longrightarrow> lsn s l = LNone"
    and "\<And>l. lsn s l \<noteq> LNone \<Longrightarrow> l < next_lid (lt s)"
  shows "owner_inv s"
  unfolding owner_inv_def open_set_def using assms by blast

lemma owner_invD:
  assumes "owner_inv s"
  shows "conn_open s l \<longleftrightarrow> holds_conn (lsn s l) \<or> l \<in> spawning s"
    and "l \<in> conns (lt s) \<longleftrightarrow> holds_slot (lsn s l) \<or> l \<in> spawning s \<or> l \<in> failing s"
    and "l \<in> spawning s \<or> l \<in> failing s \<Longrightarrow> lsn s l = LNone"
    and "lsn s l \<noteq> LNone \<Longrightarrow> l < next_lid (lt s)"
  using assms unfolding owner_inv_def open_set_def by blast+

lemma holds_conn_slot: "holds_conn x \<Longrightarrow> holds_slot x"
  by (cases x) auto

lemma spawning_move:
  assumes "accepters s = {i}" and "acc t = (acc s)(i := x)"
  shows "spawning t = spawn_of x" "failing t = failed_of x"
proof -
  have "spawn_of (acc t j) = (if j = i then spawn_of x else {})"
    "failed_of (acc t j) = (if j = i then failed_of x else {})" for j
    using assms by (cases "j = i"; simp add: sole_accepter)+
  then show "spawning t = spawn_of x" "failing t = failed_of x"
    by (auto simp: spawning_def failing_def split: if_splits)
qed

lemma spawning_accepter:
  assumes "accepters s = {i}"
  shows "spawning s = spawn_of (acc s i)" "failing s = failed_of (acc s i)"
  by (rule spawning_move [OF assms], simp)+

lemma spawning_same: "acc t = acc s \<Longrightarrow> spawning t = spawning s" "acc t = acc s \<Longrightarrow> failing t = failing s"
  by (simp_all add: spawning_def failing_def)

lemma owner_inv_same:
  assumes "owner_inv s" and "spawning t = spawning s" and "failing t = failing s"
    and "conn_open t = conn_open s" and "lsn t = lsn s" and "conns (lt t) = conns (lt s)"
    and "next_lid (lt t) = next_lid (lt s)"
  shows "owner_inv t"
  by (rule owner_invI; unfold assms(2-7); rule owner_invD [OF assms(1)]; assumption)

text \<open>A step of a listener thread that keeps its connection.\<close>

lemma owner_inv_lsn:
  assumes own: "owner_inv s" and lsn: "lsn t = (lsn s)(l := x)" and acc: "acc t = acc s"
    and "conn_open t = conn_open s" and "conns (lt t) = conns (lt s)" and "next_lid (lt t) = next_lid (lt s)"
    and "lsn s l \<noteq> LNone" and "holds_conn x = holds_conn (lsn s l)" and "holds_slot x = holds_slot (lsn s l)"
  shows "owner_inv t"
proof (rule owner_invI)
  note D = owner_invD [OF own]
  fix k
  show "conn_open t k \<longleftrightarrow> holds_conn (lsn t k) \<or> k \<in> spawning t"
    using D(1) [of k] by (simp add: assms spawning_same [OF acc])
  show "k \<in> conns (lt t) \<longleftrightarrow> holds_slot (lsn t k) \<or> k \<in> spawning t \<or> k \<in> failing t"
    using D(2) [of k] by (simp add: assms spawning_same [OF acc])
  show "lsn t k = LNone" if "k \<in> spawning t \<or> k \<in> failing t"
    using that D(3) [of k] assms(7) by (auto simp: lsn spawning_same [OF acc])
  show "k < next_lid (lt t)" if "lsn t k \<noteq> LNone"
    using that D(4) [of k] assms(7) by (auto simp: lsn assms(6) split: if_splits)
qed

lemma owner_inv_move:
  assumes own: "owner_inv s" and ag: "agent_inv s" and t: "acc t = (acc s)(i := x)"
    and i: "acc s i \<noteq> AStopped" and "spawn_of x = spawn_of (acc s i)" and "failed_of x = failed_of (acc s i)"
    and "conn_open t = conn_open s" and "lsn t = lsn s" and "conns (lt t) = conns (lt s)"
    and "next_lid (lt t) = next_lid (lt s)"
  shows "owner_inv t"
proof -
  note a = agent_of_accepter(2) [OF ag i]
  show ?thesis
    by (rule owner_inv_same [OF own])
      (simp_all only: assms(5-10) spawning_move [OF a t] spawning_accepter [OF a])
qed

lemma spawn_of_accept_result [simp]: "spawn_of (accept_result r) = {}" "failed_of (accept_result r) = {}"
  by (auto simp: accept_result_def split: sum.split error.split)

lemma owner_inv_step:
  assumes "sys_step s t" and ag: "agent_inv s" and sl: "slot_inv s" and own: "owner_inv s"
  shows "owner_inv t"
proof -
  have tinv: "table_inv (lt s)" using sl by (simp add: slot_inv_def)
  note D = owner_invD [OF own]
  have acc: "accepters s = {i}" if "acc s i \<noteq> AStopped" for i
    by (rule agent_of_accepter(2) [OF ag that])
  note sp = spawning_accepter [OF acc] and mv = spawning_move [OF acc]
  from assms(1) show ?thesis
  proof cases
    case (spawn_accept c sid)
    have "acc s j = AStopped" for j
      using agent_of_starter(2) [OF ag spawn_accept(2)] by (simp add: accepters_def)
    then have "spawning t = spawning s" "failing t = failing s"
      by (simp_all add: spawning_def failing_def spawn_accept(1))
    then show ?thesis by (intro owner_inv_same [OF own]) (simp_all add: spawn_accept(1))
  next
    case (acc_slot i ok tm)
    have "conns tm = conns (lt s)" "next_lid tm = next_lid (lt s)"
      using ct.may_frame(1) [of "lt s"] acc_slot(3)
      by (auto simp: wait_for_slot_def may_accept_def open_conns_def Let_def)
    then show ?thesis
      by (intro owner_inv_move [OF own ag, of t i "if ok then APoll else ATop"]) (simp_all add: acc_slot)
  next
    case (acc_register i k l tm)
    note r = register_new_simps [OF tinv acc_register(3)]
    have new: "spawning t = {l}" "failing t = {}" "spawning s = {}" "failing s = {}"
      using sp [of i] mv [of i t "ASpawn l"] acc_register by auto
    have none: "lsn s l = LNone" using D(4) [of l] r(1) by auto
    have nlid: "next_lid tm = Suc (next_lid (lt s))"
      using acc_register(3) by (auto simp: register_new_def arc_new_def register_def Let_def)
    have f: "conn_open t = (conn_open s)(l := True)" "lsn t = lsn s" "lt t = tm"
      by (simp_all add: acc_register(1))
    with D r(1,3) none show ?thesis
      by (intro owner_invI) (auto simp: new f nlid less_Suc_eq)
  next
    case (acc_spawn i l)
    have new: "spawning s = {l}" "failing s = {}" "spawning t = {}" "failing t = {}"
      using sp [of i] mv [of i t "ASupersede l"] acc_spawn by auto
    have "l < next_lid (lt s)"
      using D(2) [of l] tinv by (auto simp: new table_inv_def conns_def)
    have f: "conn_open t = conn_open s" "lsn t = (lsn s)(l := LTop)" "lt t = lt s"
      by (simp_all add: acc_spawn(1))
    with D \<open>l < next_lid (lt s)\<close> show ?thesis
      by (intro owner_invI) (auto simp: new f split: if_splits)
  next
    case (acc_spawn_fails i l)
    have new: "spawning s = {l}" "failing s = {}" "spawning t = {}" "failing t = {l}"
      using sp [of i] mv [of i t "ASpawnFailed l"] acc_spawn_fails by auto
    have f: "conn_open t = (conn_open s)(l := False)" "lsn t = lsn s" "lt t = lt s"
      by (simp_all add: acc_spawn_fails(1))
    with D D(3) [of l] show ?thesis
      by (intro owner_invI) (auto simp: new f)
  next
    case (acc_spawn_failed i l)
    have new: "spawning s = {}" "failing s = {l}" "spawning t = {}" "failing t = {}"
      using sp [of i] mv [of i t "AError Spawn"] acc_spawn_failed by auto
    have f: "conn_open t = conn_open s" "lsn t = lsn s" "lt t = running_guard_drop l (lt s)"
      by (simp_all add: acc_spawn_failed(1))
    with D D(3) [of l] show ?thesis
      by (intro owner_invI) (auto simp: new f)
  next
    case (acc_supersede i l)
    then show ?thesis
      by (intro owner_inv_move [OF own ag, of t i ATop]) (simp_all add: tinv)
  next
    case (acc_panic i)
    have new: "spawning s = spawn_of (acc s i)" "failing s = failed_of (acc s i)" "spawning t = {}" "failing t = {}"
      using sp [of i] mv [of i t AStopped] acc_panic by auto
    have f: "lsn t = lsn s" "next_lid (lt t) = next_lid (lt s)"
        "conns (lt t) = conns (lt s) - (spawning s \<union> failing s)"
        "conn_open t l \<longleftrightarrow> conn_open s l \<and> l \<notin> spawning s" for l
      unfolding new by (cases "acc s i"; simp add: acc_panic(1) unwind_accept_def Let_def)+
    show ?thesis
    proof (rule owner_invI, goal_cases)
      case (1 l)
      then show ?case using D(1,3) [of l] by (auto simp: f new(3))
    next
      case (2 l)
      then show ?case using D(2,3) [of l] by (auto simp: f new(3,4))
    next
      case (4 l)
      then show ?case using D(4) [of l] by (simp add: f)
    qed (simp add: new)
  next
    case (lsn_top l keep)
    then show ?thesis
      by (intro owner_inv_lsn [OF own, where l = l]) (auto)
  next
    case (lsn_read l t0 res go tm m)
    then show ?thesis
      by (intro owner_inv_lsn [OF own, where l = l]) (auto simp: listen_read_table [OF lsn_read(3)])
  next
    case (lsn_panic l t0)
    then show ?thesis
      by (intro owner_inv_lsn [OF own, where l = l and x = LClosing]) auto
  next
    case (lsn_close l)
    then have "l \<notin> spawning s" "l \<notin> failing s" using D(3) [of l] by auto
    moreover have f: "conn_open t = (conn_open s)(l := False)" "lsn t = (lsn s)(l := LClosed)"
        "lt t = lt s" and acc: "acc t = acc s"
      by (simp_all add: lsn_close(1))
    ultimately show ?thesis
      by (intro owner_invI) (use D lsn_close(2) in \<open>auto simp: f spawning_same [OF acc] split: if_splits\<close>)
  next
    case (lsn_finish l)
    then have "l \<notin> spawning s" "l \<notin> failing s" using D(3) [of l] by auto
    moreover have f: "conn_open t = conn_open s" "lsn t = (lsn s)(l := LDone)"
        "lt t = running_guard_drop l (lt s)" and acc: "acc t = acc s"
      by (simp_all add: lsn_finish(1))
    ultimately show ?thesis
      by (intro owner_invI) (use D lsn_finish(2) in \<open>auto simp: f spawning_same [OF acc] split: if_splits\<close>)
  qed ((rule owner_inv_same [OF own]; simp add: spawning_def failing_def; fail) |
      (rule owner_inv_move [OF own ag], simp, simp_all; fail))+
qed

end
