(* ===== verification/InboundProps.thy ===== *)
theory InboundProps
  imports InboundInv
begin

text \<open>
  The properties of the inbound side over every reachable state: the invariants of
  \<open>InboundInv\<close> put together, with the ledger of bundles, and what they say of the threads,
  the socket, the connections and the streams of an instance.
\<close>

section \<open>The ledger of bundles\<close>

text \<open>
  \<open>received\<close> counts the bundles that a read of C reassembled (and so acknowledged to their
  sender), \<open>consumed\<close> those that \<open>poll_next\<close> handed out.
\<close>

definition ledger_inv :: "sys \<Rightarrow> bool" where
  "ledger_inv s \<longleftrightarrow> received s = held (rx s) + consumed s"

lemma ledger_inv_step:
  assumes "sys_step s t" and inv: "stream_inv s" and led: "ledger_inv s"
  shows "ledger_inv t"
proof -
  have rxi: "rx_inv (opening_chans s) (live_chans s) (rx s)"
    and open_sid: "\<And>c sid. strm s c = SOpen sid \<Longrightarrow> sid = c"
    and opening_sid: "\<And>c sid st. strm s c = SOpening sid st \<Longrightarrow> sid = c"
    using inv by (auto simp: stream_inv_def)
  from assms(1) show ?thesis
  proof cases
    case (open_stream sid c start m)
    then show ?thesis
      using led subscribe_locked_held [of "rx s"] by (simp add: ledger_inv_def)
  next
    case (spawn_accept_fails c sid)
    have "c \<in> opening_chans s" using spawn_accept_fails(2) by (simp add: opening_chans_def)
    with subscribe_failed_inv(2) [OF rxi this] opening_sid [OF spawn_accept_fails(2)] led show ?thesis
      by (simp add: ledger_inv_def spawn_accept_fails(1))
  next
    case (drop_stream c sid)
    have c: "c \<in> live_chans s" "c \<notin> opening_chans s" "sid = c"
      using drop_stream(2) open_sid by (auto simp: opening_chans_def live_chans_def)
    with unsubscribe_inv(2) [OF rxi c(1,2)] led show ?thesis
      by (simp add: ledger_inv_def drop_stream(1))
  next
    case (read_stream c sid p m)
    have "c \<in> live_chans s" using read_stream by (simp add: live_chans_def)
    from poll_next_inv(2) [OF rxi this read_stream(3)] led show ?thesis
      by (simp add: ledger_inv_def read_stream(1) ac_simps)
  next
    case (acc_check i go m)
    from accept_loop_check_inv(2) [OF rxi acc_check(3)] led show ?thesis
      by (simp add: ledger_inv_def acc_check(1))
  next
    case (acc_error i e)
    from deliver_inv(2) [OF rxi, of "Inl e"] led show ?thesis
      by (simp add: ledger_inv_def acc_error(1))
  next
    case (acc_panic i)
    from accept_guard_drop_inv(2) [OF rxi] led show ?thesis
      by (simp add: ledger_inv_def acc_panic(1))
  next
    case (lsn_read l t0 res go tm m)
    from listen_read_rx(2) [OF rxi lsn_read(3)] led show ?thesis
      by (simp add: ledger_inv_def lsn_read(1) ac_simps)
  next
    case (close_begin j)
    from begin_close_inv(2) [OF rxi] led show ?thesis
      by (simp add: ledger_inv_def close_begin(1))
  next
    case (close_end j)
    from close_guard_drop_inv(2) [OF rxi] led show ?thesis
      by (simp add: ledger_inv_def close_end(1))
  qed (use led in \<open>simp_all add: ledger_inv_def\<close>)
qed

section \<open>All invariants together\<close>

definition sys_inv :: "sys \<Rightarrow> bool" where
  "sys_inv s \<longleftrightarrow>
     stream_inv s \<and> agent_inv s \<and> close_inv s \<and> lock_inv s \<and> slot_inv s \<and> kept_inv s \<and>
     owner_inv s \<and> ledger_inv s"

lemma sys_inv_step: "sys_step s t \<Longrightarrow> sys_inv s \<Longrightarrow> sys_inv t"
  by (simp add: sys_inv_def stream_inv_step agent_inv_step close_inv_step lock_inv_step slot_inv_step
      kept_inv_step owner_inv_step ledger_inv_step)

lemma sys_init_sel [simp]:
  "rx (sys_init now rdp) = receiver_new now" "lt (sys_init now rdp) = listeners_default"
  "acc (sys_init now rdp) i = AStopped" "lsn (sys_init now rdp) l = LNone"
  "conn_open (sys_init now rdp) l = False" "strm (sys_init now rdp) c = SNone"
  "closer (sys_init now rdp) j = CNone" "accept_lock (sys_init now rdp) = None"
  "received (sys_init now rdp) = {#}" "consumed (sys_init now rdp) = {#}"
  by (simp_all add: sys_init_def)

lemma sys_inv_init: "sys_inv (sys_init now rdp)"
proof -
  let ?s = "sys_init now rdp"
  have sets: "opening_chans ?s = {}" "live_chans ?s = {}" "starters ?s = {}" "accepters ?s = {}"
      "closers ?s = {}" "newcomers ?s = {}" "spawning ?s = {}" "failing ?s = {}"
    by (simp_all add: opening_chans_def live_chans_def agent_defs closers_def newcomers_def
        spawning_def failing_def)
  have tab: "table_inv listeners_default" "conns listeners_default = {}" "kept_conns listeners_default = {}"
    by (simp_all add: table_inv_def conns_def kept_conns_def listeners_default_def)
  have "stream_inv ?s" "agent_inv ?s" "close_inv ?s" "slot_inv ?s" "kept_inv ?s" "ledger_inv ?s"
    by (simp_all add: stream_inv_def agent_inv_def close_inv_def slot_inv_def kept_inv_def ledger_inv_def
        sets tab rx_inv_new) (simp_all add: receiver_new_def held_def)
  moreover have "lock_inv ?s" by (rule lock_invI) simp_all
  moreover have "owner_inv ?s" by (rule owner_invI) (simp_all add: sets tab)
  ultimately show ?thesis by (simp add: sys_inv_def)
qed

interpretation inbound: invariant_system "sys_init now rdp" sys_step sys_inv for now rdp
  by unfold_locales (rule sys_inv_init, rule sys_inv_step)

lemma inbound_invD:
  assumes "sys_reach now rdp s"
  shows "stream_inv s" "agent_inv s" "close_inv s" "lock_inv s" "slot_inv s" "kept_inv s"
    "owner_inv s" "ledger_inv s"
  using inbound.inv_reach [OF assms] by (simp_all add: sys_inv_def)

lemma reach_rx_inv: "sys_reach now rdp s \<Longrightarrow> rx_inv (opening_chans s) (live_chans s) (rx s)"
  using inbound_invD(1) by (simp add: stream_inv_def)

section \<open>A sample run\<close>

text \<open>
  One stream is opened, the accept thread starts and accepts a connection from 5:60, whose
  listener reads one bundle.
\<close>

definition sample_bundle :: bp_bundle where
  "sample_bundle = \<lparr>data = [1, 2, 3], src_addr = 5, src_port = 60\<rparr>"

definition run_open :: sys where
  "run_open = (let s = sys_init 0 0 in
     s\<lparr>rx := snd (subscribe_locked (rx s)), strm := (strm s)(0 := SOpening 0 True)\<rparr>)"

definition run_top :: sys where
  "run_top = run_open\<lparr>rx := subscribe_done 0 (rx run_open), strm := (strm run_open)(0 := SOpen 0),
     acc := (acc run_open)(0 := ATop), next_acc := 1\<rparr>"

definition run_slot :: sys where
  "run_slot = run_top\<lparr>acc := (acc run_top)(0 := ASlot)\<rparr>"

definition run_poll :: sys where
  "run_poll = run_slot\<lparr>lt := snd (wait_for_slot (lt run_slot)), acc := (acc run_slot)(0 := APoll)\<rparr>"

definition run_accept :: sys where
  "run_accept = run_poll\<lparr>accept_lock := Some (OAcc 0), acc := (acc run_poll)(0 := AInAccept)\<rparr>"

definition run_register :: sys where
  "run_register = run_accept\<lparr>accept_lock := None, rx_socket := True,
     acc := (acc run_accept)(0 := ARegister (5, 60))\<rparr>"

definition run_spawn :: sys where
  "run_spawn = run_register\<lparr>lt := snd (register_new (5, 60) 0 (lt run_register)),
     conn_open := (conn_open run_register)(0 := True), acc := (acc run_register)(0 := ASpawn 0)\<rparr>"

definition run_supersede :: sys where
  "run_supersede = run_spawn\<lparr>lsn := (lsn run_spawn)(0 := LTop), acc := (acc run_spawn)(0 := ASupersede 0)\<rparr>"

definition run_listening :: sys where
  "run_listening = run_supersede\<lparr>lt := supersede 0 (lt run_supersede), acc := (acc run_supersede)(0 := ATop)\<rparr>"

definition run_reading :: sys where
  "run_reading = run_listening\<lparr>lsn := (lsn run_listening)(0 := LReading 0)\<rparr>"

definition run_got :: sys where
  "run_got = run_reading\<lparr>lt := store_last_active 0 0 (lt run_reading),
     rx := deliver (Inr sample_bundle) (rx run_reading), lsn := (lsn run_reading)(0 := LTop),
     received := {#sample_bundle#}\<rparr>"

text \<open>From there, the socket is closed while the accept thread sits at the top of its loop.\<close>

definition run_close :: sys where
  "run_close = run_got\<lparr>rx := begin_close 0 (rx run_got), closer := (closer run_got)(0 := CWant)\<rparr>"

definition run_closed :: sys where
  "run_closed = run_close\<lparr>accept_lock := Some (OClose 0), rx_socket := False,
     closer := (closer run_close)(0 := CHeld)\<rparr>"

lemmas run_defs = run_open_def run_top_def run_slot_def run_poll_def run_accept_def run_register_def
  run_spawn_def run_supersede_def run_listening_def run_reading_def run_got_def run_close_def run_closed_def

lemma run_open_rx:
  "rx run_open = (receiver_new 0)\<lparr>next_id := 1, subscribers := [(0, 0)], accept_running := True,
     stopped_at := None,
     chans := (chans (receiver_new 0))(0 := \<lparr>queue = [], is_open = True, senders = 2\<rparr>), next_cid := 1\<rparr>"
  by (simp add: run_open_def subscribe_locked_eq receiver_new_def Let_def)

lemma run_top_rx:
  "rx run_top = (receiver_new 0)\<lparr>next_id := 1, subscribers := [(0, 0)], accept_running := True,
     stopped_at := None,
     chans := (chans (receiver_new 0))(0 := \<lparr>queue = [], is_open = True, senders = 1\<rparr>), next_cid := 1\<rparr>"
  by (simp add: run_top_def run_open_rx subscribe_done_def drop_sender_def upd_chan_def)

lemma run_reach_open: "sys_reach 0 0 run_open"
proof -
  have "sys_step (sys_init 0 0) run_open"
    unfolding run_open_def Let_def
    by (rule sys_step.open_stream [where sid = 0 and c = 0 and start = True])
      (simp_all add: subscribe_locked_eq receiver_new_def)
  then show ?thesis by (blast intro: reach.intros)
qed

lemma run_reach_top: "sys_reach 0 0 run_top"
proof -
  have "sys_step run_open run_top"
    using sys_step.spawn_accept [of run_open 0 0]
    by (simp add: run_top_def) (simp add: run_open_def sys_init_def Let_def)
  with run_reach_open show ?thesis by (blast intro: reach.intros)
qed

lemma run_top_sel [simp]:
  "acc run_top 0 = ATop" "accept_lock run_top = None" "rx_socket run_top" "closer run_top j = CNone"
  "clock run_top = 0" "epoch run_top = 0" "received run_top = {#}" "consumed run_top = {#}"
  "lt run_top = listeners_default" "strm run_top 0 = SOpen 0"
  "is_receiving (rx run_top)" "c \<noteq> 0 \<Longrightarrow> strm run_top c = SNone"
  by (simp_all add: run_top_def run_open_def sys_init_def Let_def is_receiving_def subscribe_locked_eq)

lemma run_poll_sel [simp]:
  "acc run_slot 0 = ASlot" "lt run_slot = listeners_default" "rx run_slot = rx run_top"
  "acc run_poll 0 = APoll" "accept_lock run_poll = None" "rx run_poll = rx run_top"
  by (simp_all add: run_slot_def run_poll_def)

lemma run_register_sel [simp]:
  "acc run_accept 0 = AInAccept" "rx_socket run_accept" "acc run_register 0 = ARegister (5, 60)"
  "clock run_register = 0" "epoch run_register = 0" "rx run_register = rx run_top"
  "closer run_register j = CNone" "accept_lock run_register = None" "received run_register = {#}"
  "consumed run_register = {#}" "strm run_register = strm run_top"
  by (simp_all add: run_accept_def run_register_def run_poll_def run_slot_def)

lemma run_listening_sel [simp]:
  "acc run_spawn 0 = ASpawn 0" "acc run_supersede 0 = ASupersede 0" "acc run_listening 0 = ATop"
  "lsn run_listening 0 = LTop" "rx run_listening = rx run_top" "clock run_listening = 0"
  "epoch run_listening = 0" "closer run_listening j = CNone" "accept_lock run_listening = None"
  "received run_listening = {#}" "consumed run_listening = {#}" "strm run_listening = strm run_top"
  "conn_open run_listening 0"
  by (simp_all add: run_spawn_def run_supersede_def run_listening_def)

lemma run_got_sel [simp]:
  "lsn run_reading 0 = LReading 0" "rx run_reading = rx run_top" "clock run_reading = 0"
  "epoch run_reading = 0" "closer run_got j = CNone" "accept_lock run_got = None" "acc run_got 0 = ATop"
  "clock run_got = 0" "received run_reading = {#}" "received run_got = {#sample_bundle#}"
  "consumed run_got = {#}" "strm run_got = strm run_top" "conn_open run_got 0"
  "closer run_close 0 = CWant" "accept_lock run_close = None" "closer run_closed 0 = CHeld"
  by (simp_all add: run_reading_def run_got_def run_close_def run_closed_def)

lemma run_lt:
  "lt run_register = listeners_default" "next_lid (lt run_spawn) = 1" "listeners (lt run_spawn) = [0]"
  "heap (lt run_spawn) = (heap listeners_default)(0 := listener_state_new (5, 60) 0)"
  by (simp_all add: run_spawn_def run_register_def run_accept_def run_poll_def table_defs
      listeners_default_def register_new_def Let_def)

lemma sys_rx_same: "s\<lparr>rx := rx s, acc := a\<rparr> = s\<lparr>acc := a\<rparr>"
  by (cases s) simp

lemma run_reach_poll: "sys_reach 0 0 run_poll"
proof -
  have "sys_step run_top run_slot"
    using sys_step.acc_check [of run_top 0 True "rx run_top"]
    by (simp add: run_slot_def accept_loop_check_def sys_rx_same)
  moreover have "sys_step run_slot run_poll"
    using sys_step.acc_slot [of run_slot 0 True "snd (wait_for_slot (lt run_slot))"]
    by (simp add: run_poll_def) (simp add: table_defs listeners_default_def conn_limits Let_def)
  ultimately show ?thesis using run_reach_top by (blast intro: reach.intros)
qed

lemma run_reach_register: "sys_reach 0 0 run_register"
proof -
  have "sys_step run_poll run_accept"
    using sys_step.acc_enter [of run_poll 0]
    by (simp add: run_accept_def poll_connection_check_def)
  moreover have "sys_step run_accept run_register"
    using sys_step.acc_return [of run_accept 0 "Inr (5, 60)" True]
    by (simp add: run_register_def from_sys_result_def accept_result_def)
  ultimately show ?thesis using run_reach_poll by (blast intro: reach.intros)
qed

lemma now_ms_0 [simp]: "now_ms 0 0 = 0"
  by (simp add: now_ms_def saturating_duration_since_def as_millis_def)

lemma run_reach_listening: "sys_reach 0 0 run_listening"
proof -
  have "sys_step run_register run_spawn"
    using sys_step.acc_register [of run_register 0 "(5, 60)" 0 "snd (register_new (5, 60) 0 (lt run_register))"]
    by (simp add: run_spawn_def run_lt)
      (simp add: register_new_def arc_new_def listeners_default_def Let_def)
  moreover have "sys_step run_spawn run_supersede"
    using sys_step.acc_spawn [of run_spawn 0 0] by (simp add: run_supersede_def)
  moreover have "sys_step run_supersede run_listening"
    using sys_step.acc_supersede [of run_supersede 0 0] by (simp add: run_listening_def)
  ultimately show ?thesis using run_reach_register by (blast intro: reach.intros)
qed

lemma run_listening_lt:
  "heap (lt run_listening) 0 = listener_state_new (5, 60) 0" "listeners (lt run_listening) = [0]"
proof -
  have "lt run_listening = supersede 0 (lt run_spawn)" by (simp add: run_listening_def run_supersede_def)
  then show "heap (lt run_listening) 0 = listener_state_new (5, 60) 0" "listeners (lt run_listening) = [0]"
    by (simp_all add: supersede_def run_lt table_defs conn_limits Let_def)
qed

lemma run_reach_got: "sys_reach 0 0 run_got"
proof -
  have "sys_step run_listening run_reading"
    using sys_step.lsn_top [of run_listening 0 True]
    by (simp add: run_reading_def run_top_rx run_listening_lt listen_again_def is_evicted_def
        listener_state_new_def)
  moreover have "sys_step run_reading run_got"
    using sys_step.lsn_read [of run_reading 0 0 "Inr sample_bundle" True]
    by (simp add: run_got_def listen_read_def)
  ultimately show ?thesis using run_reach_listening by (blast intro: reach.intros)
qed

lemma run_reach_closed: "sys_reach 0 0 run_closed"
proof -
  have "sys_step run_got run_close"
    using sys_step.close_begin [of run_got 0] by (simp add: run_close_def)
  moreover have "sys_step run_close run_closed"
    using sys_step.close_lock [of run_close 0] by (simp add: run_closed_def)
  ultimately show ?thesis using run_reach_got by (blast intro: reach.intros)
qed

lemma run_got_rx: "rx run_got = (rx run_top)\<lparr>chans := (chans (receiver_new 0))(0 :=
    \<lparr>queue = [Inr sample_bundle], is_open = True, senders = 1\<rparr>)\<rparr>"
  by (simp add: run_got_def run_top_rx deliver_def last_opt_def unbounded_send_def upd_chan_def)

section \<open>Properties\<close>

lemma held_live:
  assumes "rx_inv op lv m"
  shows "held m = mset (pending m) + (\<Sum>c\<in>lv. mset (oks (queue (chans m c))))"
proof -
  note D = chans_invD [OF rx_invD(1) [OF assms]]
  have sub: "lv \<subseteq> {..<next_cid m}" using D(5) by blast
  have "(\<Sum>c<next_cid m. mset (oks (queue (chans m c)))) = (\<Sum>c\<in>lv. mset (oks (queue (chans m c))))"
    by (rule sum.mono_neutral_right) (use sub D(9) in auto)
  then show ?thesis by (simp add: held_def)
qed

text \<open>
  C1: no bundle is lost or duplicated. In every reachable state of the inbound side, whatever
  the interleaving of the accept thread, the listeners, the streams and the closes, the bundles
  that the C layer reassembled (and acknowledged to their senders) are exactly those handed out
  by \<open>poll_next\<close>, those kept for a later stream, and those queued in the streams that still
  exist; with multiplicities.
\<close>

theorem received_bundles_accounted:
  assumes "sys_reach now rdp s"
  shows "received s = consumed s + mset (pending (rx s)) +
    (\<Sum>c | is_live (strm s c). mset (oks (queue (chans (rx s) c))))"
  using inbound_invD(8) [OF assms] held_live [OF reach_rx_inv [OF assms]]
  by (simp add: ledger_inv_def live_chans_def ac_simps)

lemma run_got_live: "{c. is_live (strm run_got c)} = {0}"
proof -
  have "is_live (strm run_top c) \<longleftrightarrow> c = 0" for c
    by (cases "c = 0") simp_all
  then show ?thesis by simp
qed

theorem received_bundles_accounted_witness:
  "received run_got = {#sample_bundle#} \<and> consumed run_got = {#} \<and>
   received run_got = mset (pending (rx run_got)) + mset (oks (queue (chans (rx run_got) 0)))"
  using received_bundles_accounted [OF run_reach_got] unfolding run_got_live by simp

text \<open>
  C4: at most 10 inbound connections are open at any time: the 8 that
  \<open>MAX_INBOUND_CONNS\<close> allows, and \<open>MAX_EXTRA_INBOUND_CONNS\<close> more while evicted ones
  finish. This counts the connections themselves (accepted and not yet closed), not the
  entries of the table.
\<close>

theorem inbound_connections_bounded:
  assumes "sys_reach now rdp s"
  shows "finite {l. conn_open s l} \<and>
    card {l. conn_open s l} \<le> MAX_INBOUND_CONNS + MAX_EXTRA_INBOUND_CONNS"
proof -
  note own = owner_invD [OF inbound_invD(7) [OF assms]]
  have sub: "{l. conn_open s l} \<subseteq> conns (lt s)"
    using own(1,2) holds_conn_slot by blast
  have "card (conns (lt s)) \<le> MAX_INBOUND_CONNS + MAX_EXTRA_INBOUND_CONNS"
    using inbound_invD(5) [OF assms] by (simp add: slot_inv_def)
  with sub show ?thesis
    by (meson card_mono ct.finite_cs finite_subset le_trans)
qed

theorem inbound_connections_bounded_witness:
  "conn_open run_got 0 \<and> card {l. conn_open run_got l} \<le> 10"
  using inbound_connections_bounded [OF run_reach_got] by (simp add: conn_limits)

text \<open>
  C5: whenever the accept thread is not in the middle of starting a listener, at most
  \<open>MAX_INBOUND_CONNS\<close> connections have not been asked to close, and no two of them come from
  the same address and port.
\<close>

theorem kept_connections_limited:
  assumes "sys_reach now rdp s" and "\<And>i. newcomer (acc s i) = {}"
  shows "card (kept_conns (lt s)) \<le> MAX_INBOUND_CONNS \<and>
    inj_on (\<lambda>l. key (heap (lt s) l)) (kept_conns (lt s))"
  using inbound_invD(6) [OF assms(1)] assms(2) by (simp add: kept_inv_def newcomers_def)

lemma run_got_newcomer: "newcomer (acc run_got i) = {}"
  using agent_of_accepter(2) [OF inbound_invD(2) [OF run_reach_got], of 0]
  by (cases "i = 0") (simp_all add: sole_accepter)

theorem kept_connections_limited_witness:
  "kept_conns (lt run_got) = {0} \<and> card (kept_conns (lt run_got)) \<le> MAX_INBOUND_CONNS"
proof -
  have "kept_conns (lt run_got) = {0}"
    by (simp add: run_got_def run_reading_def kept_conns_def conns_def run_listening_lt listener_state_new_def)
      (auto simp: run_listening_lt listener_state_new_def store_last_active_def)
  with kept_connections_limited [OF run_reach_got run_got_newcomer] show ?thesis by simp
qed

text \<open>
  C6: there is at most one accept thread, and while the receiver is receiving there is one, or
  a \<open>subscribe\<close> that is about to start it.
\<close>

theorem one_accept_thread:
  assumes "sys_reach now rdp s"
  shows "card {i. acc s i \<noteq> AStopped} \<le> 1 \<and>
    (is_receiving (rx s) \<longrightarrow> (\<exists>i. acc s i \<noteq> AStopped) \<or> (\<exists>c sid. strm s c = SOpening sid True))"
proof -
  note ag = inbound_invD(2) [OF assms]
  have "card (accepters s) \<le> 1"
  proof (cases "accept_running (rx s)")
    case True
    with ag have "\<exists>i. accepters s \<subseteq> {i}" by (auto simp: agent_inv_def)
    then obtain i where "accepters s \<subseteq> {i}" by blast
    from card_mono [OF _ this] show ?thesis by simp
  next
    case False
    with agent_idle [OF ag] show ?thesis by simp
  qed
  moreover have "(\<exists>i. acc s i \<noteq> AStopped) \<or> (\<exists>c sid. strm s c = SOpening sid True)"
    if "is_receiving (rx s)"
  proof -
    from that reach_rx_inv [OF assms] have "accept_running (rx s)"
      by (auto simp: rx_inv_def state_inv_def)
    with ag consider i where "accepters s = {i}" | c where "starters s = {c}"
      by (auto simp: agent_inv_def)
    then show ?thesis
    proof cases
      case 1
      then have "i \<in> accepters s" by simp
      then show ?thesis by (auto simp: accepters_def)
    next
      case 2
      then have "c \<in> starters s" by simp
      then have "is_starting (strm s c)" by (simp add: starters_def)
      then show ?thesis by (cases "strm s c") auto
    qed
  qed
  ultimately show ?thesis by (simp add: accepters_def)
qed

theorem one_accept_thread_witness:
  "is_receiving (rx run_top) \<and> card {i. acc run_top i \<noteq> AStopped} \<le> 1"
  using one_accept_thread [OF run_reach_top] by simp

text \<open>
  C7: closing the receive socket excludes accepting. From the moment \<open>close_rx_socket\<close> has
  closed the socket until the call ends, the socket stays closed, no thread is inside the C
  accept, the receiver is not receiving and no stream is subscribed.
\<close>

theorem close_excludes_accept:
  assumes "sys_reach now rdp s" and "closer s j = CHeld \<or> closer s j = CReleased"
  shows "\<not> rx_socket s \<and> (\<forall>i. acc s i \<noteq> AInAccept) \<and> \<not> is_receiving (rx s) \<and> subscribers (rx s) = []"
proof -
  have "closer s j \<noteq> CNone" using assms(2) by auto
  note c = closing_not_receiving [OF inbound_invD(1,3) [OF assms(1)] this]
  with lock_invD(3,4) [OF inbound_invD(4) [OF assms(1)] assms(2)] show ?thesis by blast
qed

theorem close_excludes_accept_witness:
  "closer run_closed 0 = CHeld \<and> \<not> rx_socket run_closed \<and> \<not> is_receiving (rx run_closed)"
  using close_excludes_accept [OF run_reach_closed, of 0] by simp

text \<open>
  C11: the receiver is receiving exactly while a stream is subscribed; then no bundle waits in
  \<open>pending\<close>, and no close is in progress. A subscribed stream exists (it was not dropped)
  and its channel is open.
\<close>

theorem receiving_iff_subscribed:
  assumes "sys_reach now rdp s"
  shows "(is_receiving (rx s) \<longleftrightarrow> subscribers (rx s) \<noteq> []) \<and>
    (subscribers (rx s) \<noteq> [] \<longrightarrow> pending (rx s) = [] \<and> closing (rx s) = 0) \<and>
    (\<forall>(sid, c) \<in> set (subscribers (rx s)). is_live (strm s c) \<and> is_open (chans (rx s) c))"
proof -
  note I = reach_rx_inv [OF assms]
  note D = chans_invD [OF rx_invD(1) [OF I]]
  have "is_live (strm s c) \<and> is_open (chans (rx s) c)" if "(sid, c) \<in> set (subscribers (rx s))" for sid c
  proof -
    have c: "c \<in> sub_chans (rx s)" using that by (force simp: sub_chans_def)
    with D(6) [of c] D(7) [of c] D(8) [of c] show ?thesis by (simp add: live_chans_def)
  qed
  with rx_invD(2) [OF I] show ?thesis by (auto simp: state_inv_def)
qed

theorem receiving_iff_subscribed_witness:
  "subscribers (rx run_got) = [(0, 0)] \<and> is_receiving (rx run_got) \<and> pending (rx run_got) = []"
  using receiving_iff_subscribed [OF run_reach_got] by (simp add: run_got_rx run_top_rx)

text \<open>
  C10: no connection and no slot of the table leaks. An open connection is held by its own
  listener thread or by the accept thread that is about to start it, and every counted slot
  belongs to a thread that will release it.
\<close>

theorem connections_have_owners:
  assumes "sys_reach now rdp s"
  shows "(conn_open s l \<longleftrightarrow> holds_conn (lsn s l) \<or> (\<exists>i. acc s i = ASpawn l)) \<and>
    (l \<in> conns (lt s) \<longleftrightarrow>
       holds_slot (lsn s l) \<or> (\<exists>i. acc s i = ASpawn l) \<or> (\<exists>i. acc s i = ASpawnFailed l))"
proof -
  have "l \<in> spawn_of x \<longleftrightarrow> x = ASpawn l" "l \<in> failed_of x \<longleftrightarrow> x = ASpawnFailed l" for x
    by (cases x; auto)+
  then have "l \<in> spawning s \<longleftrightarrow> (\<exists>i. acc s i = ASpawn l)" "l \<in> failing s \<longleftrightarrow> (\<exists>i. acc s i = ASpawnFailed l)"
    by (simp_all add: spawning_def failing_def)
  with owner_invD(1,2) [OF inbound_invD(7) [OF assms], of l] show ?thesis by simp
qed

theorem connections_have_owners_witness:
  "conn_open run_got 0 \<and> (holds_conn (lsn run_got 0) \<or> (\<exists>i. acc run_got i = ASpawn 0))"
  using connections_have_owners [OF run_reach_got, of 0] by simp

subsection \<open>Progress of a close\<close>

abbreviation sys_steps :: "sys \<Rightarrow> sys \<Rightarrow> bool" where
  "sys_steps \<equiv> sys_step\<^sup>*\<^sup>*"

lemma sys_steps_reach: "sys_steps s t \<Longrightarrow> sys_reach now rdp s \<Longrightarrow> sys_reach now rdp t"
  by (induction rule: rtranclp_induct) (auto intro: reach.intros)

text \<open>The accept lock is always released: the accept polls, the close only closes a socket.\<close>

lemma accept_lock_released:
  assumes inv: "lock_inv s" and want: "closer s j = CWant"
  obtains t where "sys_steps s t" "accept_lock t = None" "closer t j = CWant"
proof (cases "accept_lock s")
  case None
  with want that show ?thesis by blast
next
  case (Some o')
  show ?thesis
  proof (cases o')
    case (OAcc i)
    with Some have "acc s i = AInAccept" using lock_invD(1) [OF inv] by simp
    from that [OF r_into_rtranclp [of sys_step, OF sys_step.acc_return [OF this, of "Inl CSPCL_ERR_TIMEOUT" "rx_socket s"]]]
    show ?thesis by (simp add: want)
  next
    case (OClose k)
    with Some have k: "closer s k = CHeld" using lock_invD(2) [OF inv] by simp
    with want have "k \<noteq> j" by auto
    with that [OF r_into_rtranclp [of sys_step, OF sys_step.close_unlock [OF k]]] show ?thesis by (simp add: want)
  qed
qed

text \<open>
  C9: a close of the receive socket is never stuck: from every reachable state in which
  \<open>close_rx_socket\<close> waits for the accept lock, the threads can go on so that it gets the lock
  and closes the socket, and then returns.
\<close>

theorem close_completes:
  assumes "sys_reach now rdp s" and "closer s j = CWant"
  shows "\<exists>u t. sys_steps s u \<and> closer u j = CHeld \<and> \<not> rx_socket u \<and> sys_steps u t \<and> closer t j = CNone"
proof -
  obtain v where v: "sys_steps s v" "accept_lock v = None" "closer v j = CWant"
    using accept_lock_released [OF inbound_invD(4) [OF assms(1)] assms(2)] by blast
  define u where "u = v\<lparr>accept_lock := Some (OClose j), rx_socket := False, closer := (closer v)(j := CHeld)\<rparr>"
  define w where "w = u\<lparr>accept_lock := None, closer := (closer u)(j := CReleased)\<rparr>"
  define t where "t = w\<lparr>rx := close_guard_drop (rx w), closer := (closer w)(j := CNone)\<rparr>"
  have "sys_step v u" unfolding u_def by (rule sys_step.close_lock [OF v(3,2)])
  moreover have "sys_step u w" unfolding w_def by (rule sys_step.close_unlock) (simp add: u_def)
  moreover have "sys_step w t" unfolding t_def by (rule sys_step.close_end) (simp add: w_def)
  ultimately have "sys_steps s u" "sys_steps u t" using v(1) by auto
  then show ?thesis by (intro exI [of _ u] exI [of _ t]) (simp add: u_def t_def)
qed

lemma run_reach_close: "sys_reach 0 0 run_close"
  using run_reach_got sys_step.close_begin [of run_got 0]
  by (auto simp: run_close_def intro: reach.intros)

theorem close_completes_witness:
  "closer run_close 0 = CWant \<and> (\<exists>u. sys_steps run_close u \<and> closer u 0 = CHeld \<and> \<not> rx_socket u)"
  using close_completes [OF run_reach_close, of 0] by auto

subsection \<open>Where a bundle goes\<close>

text \<open>
  C8: a dropped stream loses nothing that it had not handed out: its queued bundles go, in
  order and behind what is already there, to the newest of the remaining streams, or are kept
  for a later stream if there is none. Its own queue is empty afterwards and it is no longer
  subscribed; queued receive errors are discarded.
\<close>

theorem drop_stream_hands_over:
  assumes "sys_reach now rdp s" and "strm s c = SOpen sid"
    and "left = filter (\<lambda>(sub, _). sub \<noteq> sid) (subscribers (rx s))"
    and "m = unsubscribe sid c t (rx s)"
  shows "subscribers m = left \<and> queue (chans m c) = [] \<and>
    (case last_opt left of
       None \<Rightarrow> pending m = pending (rx s) @ oks (queue (chans (rx s) c))
     | Some (_, d) \<Rightarrow> pending m = pending (rx s) \<and>
         queue (chans m d) = queue (chans (rx s) d) @ map Inr (oks (queue (chans (rx s) c))))"
proof -
  have sid: "sid = c"
    using assms(2) inbound_invD(1) [OF assms(1)] by (simp add: stream_inv_def)
  have c: "c \<in> live_chans s" "c \<notin> opening_chans s"
    using assms(2) by (simp_all add: live_chans_def opening_chans_def)
  have left: "left = filter (\<lambda>(sub, _). sub \<noteq> c) (subscribers (rx s))" and m: "m = unsubscribe c c t (rx s)"
    using assms(3,4) sid by simp_all
  note h = unsubscribe_handover [OF reach_rx_inv [OF assms(1)] c left]
  show ?thesis
    using h by (cases "last_opt left") (auto simp: m)
qed

theorem drop_stream_hands_over_witness:
  "strm run_got 0 = SOpen 0 \<and> pending (unsubscribe 0 0 7 (rx run_got)) = [sample_bundle]"
  using drop_stream_hands_over [OF run_reach_got, of 0 0 "[]" "unsubscribe 0 0 7 (rx run_got)" 7]
  by (simp add: run_got_rx run_top_rx receiver_new_def)

text \<open>
  A received bundle goes to the back of the queue of the newest subscribed stream and to no
  other; without a subscribed stream it is kept.
\<close>

theorem bundle_goes_to_newest_stream:
  assumes "sys_reach now rdp s"
  shows "deliver (Inr b) (rx s) =
    (case last_opt (subscribers (rx s)) of
       None \<Rightarrow> (rx s)\<lparr>pending := pending (rx s) @ [b]\<rparr>
     | Some (_, c) \<Rightarrow> upd_chan c (\<lambda>ch. ch\<lparr>queue := queue ch @ [Inr b]\<rparr>) (rx s))"
proof (cases "subscribers (rx s) = []")
  case True
  then show ?thesis by (simp add: deliver_Nil)
next
  case False
  obtain subs c where "subscribers (rx s) = subs @ [(c, c)]" "is_open (chans (rx s) c)"
    using subs_snoc [OF rx_invD(1) [OF reach_rx_inv [OF assms]] False] by metis
  then show ?thesis by (simp add: deliver_newest)
qed

theorem bundle_goes_to_newest_stream_witness:
  "queue (chans (deliver (Inr sample_bundle) (rx run_got)) 0) = [Inr sample_bundle, Inr sample_bundle]"
  using bundle_goes_to_newest_stream [OF run_reach_got, of sample_bundle]
  by (simp add: run_got_rx run_top_rx last_opt_def)

text \<open>
  A new stream becomes the newest one and starts with the bundles that were kept while no
  stream was open, in the order they arrived; receiving is on afterwards, and the caller must
  start the accept thread exactly if none is running.
\<close>

theorem open_stream_takes_pending:
  assumes "subscribe_locked m = ((sid, c, start), m')"
  shows "queue (chans m' c) = map Inr (pending m) \<and> pending m' = [] \<and>
    last_opt (subscribers m') = Some (sid, c) \<and> is_receiving m' \<and>
    (start \<longleftrightarrow> \<not> accept_running m) \<and> accept_running m'"
  using assms by (auto simp: subscribe_locked_eq is_receiving_def)

theorem open_stream_takes_pending_witness:
  "queue (chans (snd (subscribe_locked ((receiver_new 0)\<lparr>pending := [sample_bundle]\<rparr>))) 0) = [Inr sample_bundle]"
  using open_stream_takes_pending [of "(receiver_new 0)\<lparr>pending := [sample_bundle]\<rparr>" 0 0 True
    "snd (subscribe_locked ((receiver_new 0)\<lparr>pending := [sample_bundle]\<rparr>))"]
  by (simp add: subscribe_locked_eq receiver_new_def)

end
