(* ===== verification/InboundTime.thy ===== *)
theory InboundTime
  imports Receiver Complex_Main
begin

text \<open>
  The times of the inbound side: the grace after receiving stopped, the idle timeout on 64-bit
  millisecond counters, and the detection of a reset by the length of a read, which goes
  through double arithmetic. The relative error of a rounding is bounded first, then that of
  \<open>Duration::mul_f64\<close>.
\<close>

section \<open>Error of a rounding\<close>

definition fval :: "frac \<Rightarrow> real" where
  "fval x = real (fst x) / real (snd x)"

abbreviation ulp :: real where "ulp \<equiv> 1 / 2 ^ 53"

lemma div_even_error:
  assumes "0 < b" shows "\<bar>real (div_even a b) * b - a\<bar> \<le> b / 2"
proof -
  have "a = b * (a div b) + a mod b" by simp
  then have a: "real a = real b * real (a div b) + real (a mod b)"
    by (metis of_nat_add of_nat_mult)
  have r: "real (a mod b) < b" using assms by simp
  show ?thesis
    unfolding div_even_def Let_def a using r
    by (auto simp: algebra_simps abs_le_iff split: if_splits)
qed

lemma abs_div_le: "\<bar>y\<bar> \<le> c \<Longrightarrow> 0 < z \<Longrightarrow> \<bar>y / z\<bar> \<le> c / z" for y :: real
  by (simp add: abs_divide divide_right_mono)

lemma abs_rel: "\<bar>a - b\<bar> \<le> u * b \<Longrightarrow> (1 - u) * b \<le> a \<and> a \<le> (1 + u) * b" for a b u :: real
  by (auto simp: abs_le_iff algebra_simps)

lemma bitlen_bounds: "0 < n \<Longrightarrow> 2 ^ (bitlen n - 1) \<le> n \<and> n < 2 ^ bitlen n"
proof (induction n rule: bitlen.induct)
  case (1 n)
  show ?case
  proof (cases "n div 2 = 0")
    case True
    then have "n = 1" using 1 by simp
    then show ?thesis by (simp add: bitlen.simps)
  next
    case False
    with 1 have IH: "2 ^ (bitlen (n div 2) - 1) \<le> n div 2" "n div 2 < 2 ^ bitlen (n div 2)" by auto
    have pos: "bitlen (n div 2) \<noteq> 0" using False by (simp add: bitlen.simps [of "n div 2"])
    have "2 ^ bitlen (n div 2) = 2 * (2 :: nat) ^ (bitlen (n div 2) - 1)"
      using pos by (metis Suc_pred' gr0I power_Suc)
    with IH have "2 ^ bitlen (n div 2) \<le> n" "n < 2 * 2 ^ bitlen (n div 2)" by linarith+
    moreover have "bitlen n = Suc (bitlen (n div 2))" using 1 by (simp add: bitlen.simps [of n])
    ultimately show ?thesis by simp
  qed
qed

text \<open>The scaled value is at least \<open>2^52\<close>.\<close>

lemma f64_exp_scale:
  assumes "0 < n" "0 < d"
  shows "2 ^ 52 * real d * 2 powi (f64_exp n d) \<le> real n"
proof -
  define k where "k = int (bitlen n) - int (bitlen d)"
  have n: "2 powi (int (bitlen n) - 1) \<le> real n"
  proof -
    have "bitlen n \<noteq> 0" using assms(1) by (simp add: bitlen.simps [of n])
    then have "2 powi (int (bitlen n) - 1) = (2 :: real) ^ (bitlen n - 1)"
      by (metis (no_types) One_nat_def Suc_pred diff_Suc_1 int_ops(2) of_nat_diff power_int_of_nat
          Suc_leI not_gr_zero)
    also have "\<dots> = real (2 ^ (bitlen n - 1))" by simp
    also have "\<dots> \<le> real n" using bitlen_bounds [OF assms(1)] by (simp only: of_nat_le_iff)
    finally show ?thesis .
  qed
  have d: "real d \<le> 2 powi int (bitlen d)"
  proof -
    have "d \<le> 2 ^ bitlen d" using bitlen_bounds [OF assms(2)] by simp
    then have "real d \<le> real (2 ^ bitlen d)" by (simp only: of_nat_le_iff)
    then show ?thesis by simp
  qed
  have "2 ^ 52 * real d * 2 powi (k - 53) = real d * 2 powi (k - 1)"
    by (simp add: power_int_diff)
  also have "\<dots> \<le> 2 powi int (bitlen d) * 2 powi (k - 1)"
    using d by (intro mult_right_mono) auto
  also have "\<dots> = 2 powi (int (bitlen n) - 1)"
    by (subst power_int_add [symmetric]) (simp_all add: k_def)
  finally have low: "2 ^ 52 * real d * 2 powi (k - 53) \<le> real n" using n by simp
  show ?thesis
  proof (cases "2 ^ nat k * d \<le> 2 ^ nat (- k) * n")
    case False
    then have "f64_exp n d = k - 53" by (simp add: f64_exp_def k_def)
    with low show ?thesis by simp
  next
    case True
    then have e: "f64_exp n d = k - 52" by (simp add: f64_exp_def k_def)
    from True have "real (2 ^ nat k * d) \<le> real (2 ^ nat (- k) * n)" by (simp only: of_nat_le_iff)
    then have le: "2 ^ nat k * real d \<le> 2 ^ nat (- k) * real n" by simp
    have "2 powi k * real d \<le> real n"
    proof (cases "0 \<le> k")
      case True
      with le show ?thesis by (simp add: power_int_def)
    next
      case False
      then have pk: "2 powi k = 1 / (2 :: real) ^ nat (- k)" by (simp add: power_int_def power_one_over)
      from le False show ?thesis
        unfolding pk by (simp add: pos_divide_le_eq mult.commute)
    qed
    then show ?thesis by (simp add: e power_int_diff mult.commute)
  qed
qed

lemma f64_round_error:
  assumes "0 < snd x"
  shows "\<bar>fval (f64_round x) - fval x\<bar> \<le> ulp * fval x" "0 < snd (f64_round x)"
proof -
  obtain n d where x: "x = (n, d)" by (cases x)
  with assms have d: "0 < d" by simp
  have "\<bar>fval (f64_round x) - fval x\<bar> \<le> ulp * fval x \<and> 0 < snd (f64_round x)"
  proof (cases "n = 0")
    case True
    then show ?thesis by (simp add: x fval_def)
  next
    case False
    define e where "e = f64_exp n d"
    note sc = f64_exp_scale [of n d, folded e_def]
    show ?thesis
    proof (cases "0 \<le> e")
      case True
      define b where "b = d * 2 ^ nat e"
      have b: "0 < b" using d by (simp add: b_def)
      have "real b = real d * 2 powi e" using True by (simp add: b_def power_int_def)
      then have bn: "2 ^ 52 * real b \<le> real n" using sc False d by simp
      have "fval (f64_round x) - fval x = (real (div_even n b) * b - n) / d"
        using True False d by (simp add: x fval_def e_def [symmetric] b_def [symmetric] Let_def)
          (simp add: b_def field_simps)
      then have "\<bar>fval (f64_round x) - fval x\<bar> \<le> (b / 2) / d"
        using abs_div_le [OF div_even_error [OF b, of n], of d] d by simp
      also have "\<dots> \<le> (n / 2 ^ 53) / d"
        using bn d by (intro divide_right_mono) auto
      finally show ?thesis
        using True False by (simp add: x fval_def e_def [symmetric] Let_def)
    next
      case neg: False
      define p :: nat where "p = 2 ^ nat (- e)"
      have p: "0 < p" by (simp add: p_def)
      have pe: "2 powi e = 1 / real p"
        using neg by (simp add: p_def power_int_def power_one_over)
      have "2 ^ 52 * real d * (1 / real p) \<le> real n"
        using sc False d unfolding pe by simp
      then have bn: "2 ^ 52 * real d \<le> real n * real p"
        using p by (simp add: pos_divide_le_eq)
      have "fval (f64_round x) - fval x = (real (div_even (n * p) d) * d - real (n * p)) / (real p * d)"
      proof -
        have "f64_round x = (div_even (n * p) d, p)"
          using neg False by (simp add: x e_def [symmetric] p_def [symmetric] Let_def)
        then show ?thesis
          using d p by (simp add: x fval_def diff_frac_eq)
      qed
      then have "\<bar>fval (f64_round x) - fval x\<bar> \<le> (d / 2) / (real p * d)"
        using abs_div_le [OF div_even_error [OF d, of "n * p"], of "real p * d"] d p by simp
      also have "\<dots> \<le> (real n * real p / 2 ^ 53) / (real p * d)"
        using bn d p by (intro divide_right_mono) auto
      also have "\<dots> = ulp * fval x"
        using p by (simp add: x fval_def)
      finally show ?thesis
        using neg False by (simp add: x e_def [symmetric] Let_def)
    qed
  qed
  then show "\<bar>fval (f64_round x) - fval x\<bar> \<le> ulp * fval x" "0 < snd (f64_round x)" by blast+
qed

section \<open>Error of \<open>Duration::mul_f64\<close>\<close>

text \<open>\<open>near k x y\<close>: \<open>x\<close> is \<open>y\<close> after at most \<open>k\<close> roundings.\<close>

definition near :: "nat \<Rightarrow> real \<Rightarrow> real \<Rightarrow> bool" where
  "near k x y \<longleftrightarrow> (1 - ulp) ^ k * y \<le> x \<and> x \<le> (1 + ulp) ^ k * y"

lemma fval_nonneg: "0 \<le> fval x"
  by (simp add: fval_def)

lemma near_round:
  assumes x: "0 < snd x" and k: "near k (fval x) y"
  shows "near (Suc k) (fval (f64_round x)) y" "0 < snd (f64_round x)"
proof -
  note r = f64_round_error [OF x]
  have lo: "(1 - ulp) * fval x \<le> fval (f64_round x)" and hi: "fval (f64_round x) \<le> (1 + ulp) * fval x"
    using abs_rel [OF r(1)] by blast+
  have "(1 - ulp) * ((1 - ulp) ^ k * y) \<le> (1 - ulp) * fval x"
    using k by (intro mult_left_mono) (auto simp: near_def)
  moreover have "(1 + ulp) * fval x \<le> (1 + ulp) * ((1 + ulp) ^ k * y)"
    using k by (intro mult_left_mono) (auto simp: near_def)
  ultimately show "near (Suc k) (fval (f64_round x)) y"
    unfolding near_def power_Suc mult.assoc using lo hi by linarith
  show "0 < snd (f64_round x)" by (rule r(2))
qed

lemma near_mono:
  assumes "near k x y" and "0 \<le> y" and "k \<le> m" shows "near m x y"
proof -
  have "(1 - ulp) ^ m * y \<le> (1 - ulp) ^ k * y"
    using assms(2,3) by (intro mult_right_mono power_decreasing) auto
  moreover have "(1 + ulp) ^ k * y \<le> (1 + ulp) ^ m * y"
    using assms(2,3) by (intro mult_right_mono power_increasing) auto
  ultimately show ?thesis using assms(1) by (simp add: near_def)
qed

lemma near_add: "near k x y \<Longrightarrow> near k x' y' \<Longrightarrow> near k (x + x') (y + y')"
  by (auto simp: near_def distrib_left)

lemma near_mult:
  assumes "near k x y" "near m x' y'" "0 \<le> y" "0 \<le> y'"
  shows "near (k + m) (x * x') (y * y')"
proof -
  have p: "0 \<le> (1 - ulp) ^ k * y" "0 \<le> (1 - ulp) ^ m * y'" using assms(3,4) by auto
  then have x: "0 \<le> x" "0 \<le> x'"
    using assms(1,2) unfolding near_def by linarith+
  have "((1 - ulp) ^ k * y) * ((1 - ulp) ^ m * y') \<le> x * x'"
    using assms(1,2) p x by (intro mult_mono) (auto simp: near_def)
  moreover have "x * x' \<le> ((1 + ulp) ^ k * y) * ((1 + ulp) ^ m * y')"
    using assms x by (intro mult_mono) (auto simp: near_def)
  ultimately show ?thesis by (simp add: near_def power_add ac_simps)
qed

lemma near_exact: "near 0 x x"
  by (simp add: near_def)

lemma near_of_nat: "near 1 (fval (f64_of_nat n)) n" "0 < snd (f64_of_nat n)"
  using near_round [of "(n, 1)" 0 n] by (simp_all add: f64_of_nat_def fval_def near_exact)

lemma billion: "fval (f64_of_nat (10 ^ 9)) = 10 ^ 9" "0 < fst (f64_of_nat (10 ^ 9))"
  by (simp_all add: f64_defs bitlen.simps fval_def)

lemma near_as_secs: "near 3 (fval (as_secs_f64 d)) (d / 10 ^ 9)" "0 < snd (as_secs_f64 d)"
proof -
  define A B G where "A = f64_of_nat (d div 10 ^ 9)" and "B = f64_of_nat (d mod 10 ^ 9)"
    and "G = f64_of_nat (10 ^ 9)"
  define Q where "Q = f64_div B G"
  note a = near_of_nat [of "d div 10 ^ 9", folded A_def] and b = near_of_nat [of "d mod 10 ^ 9", folded B_def]
  note g = billion [folded G_def]
  have "fval (fst B * snd G, snd B * fst G) = fval B / fval G" by (simp add: fval_def)
  then have "near 1 (fval (fst B * snd G, snd B * fst G)) (real (d mod 10 ^ 9) / 10 ^ 9)"
    using b(1) by (simp add: g near_def divide_right_mono)
  moreover have "0 < snd B * fst G" using b(2) g(2) by simp
  ultimately have q: "near 2 (fval Q) (real (d mod 10 ^ 9) / 10 ^ 9)" "0 < snd Q"
    using near_round [of "(fst B * snd G, snd B * fst G)" 1] unfolding Q_def f64_div_def
    by (simp_all add: numeral_2_eq_2)
  have "fval (fst A * snd Q + fst Q * snd A, snd A * snd Q) = fval A + fval Q"
    using a(2) q(2) by (simp add: fval_def add_frac_eq)
  moreover have "near 2 (fval A + fval Q) (real (d div 10 ^ 9) + real (d mod 10 ^ 9) / 10 ^ 9)"
    by (rule near_add [OF near_mono [OF a(1)] q(1)]) simp_all
  moreover have "real (d div 10 ^ 9) + real (d mod 10 ^ 9) / 10 ^ 9 = d / 10 ^ 9"
  proof -
    have "d = d div 10 ^ 9 * 10 ^ 9 + d mod 10 ^ 9" by simp
    then have "real d = real (d div 10 ^ 9) * 10 ^ 9 + real (d mod 10 ^ 9)"
      by (metis of_nat_add of_nat_mult of_nat_numeral of_nat_power)
    then show ?thesis by (simp add: add_divide_distrib)
  qed
  ultimately have "near 2 (fval (fst A * snd Q + fst Q * snd A, snd A * snd Q)) (d / 10 ^ 9)"
    by (simp only:)
  from near_round [OF _ this] a(2) q(2)
  show "near 3 (fval (as_secs_f64 d)) (d / 10 ^ 9)" "0 < snd (as_secs_f64 d)"
    by (simp_all add: as_secs_f64_def f64_add_def A_def B_def G_def Q_def numeral_3_eq_3 numeral_2_eq_2)
qed

lemma near_0_9: "near 1 (fval f64_0_9) (9 / 10)" "0 < snd f64_0_9"
  using near_round [of "(9, 10)" 0 "9 / 10"] by (simp_all add: f64_0_9_def fval_def near_exact)

lemma near_product: "near 5 (fval (f64_mul f64_0_9 (as_secs_f64 d))) (9 / 10 * (d / 10 ^ 9))"
    "0 < snd (f64_mul f64_0_9 (as_secs_f64 d))"
proof -
  let ?x = "(fst f64_0_9 * fst (as_secs_f64 d), snd f64_0_9 * snd (as_secs_f64 d))"
  have "fval ?x = fval f64_0_9 * fval (as_secs_f64 d)" by (simp add: fval_def)
  moreover have "near (1 + 3) (fval f64_0_9 * fval (as_secs_f64 d)) (9 / 10 * (d / 10 ^ 9))"
    by (rule near_mult [OF near_0_9(1) near_as_secs(1)]) simp_all
  ultimately have "near 4 (fval ?x) (9 / 10 * (d / 10 ^ 9))" by simp
  moreover have "0 < snd ?x" using near_0_9(2) near_as_secs(2) by simp
  ultimately show "near 5 (fval (f64_mul f64_0_9 (as_secs_f64 d))) (9 / 10 * (d / 10 ^ 9))"
    "0 < snd (f64_mul f64_0_9 (as_secs_f64 d))"
    using near_round [of ?x 4] by (simp_all add: f64_mul_def)
qed

lemma mul_0_9_bounds:
  "(899 / 1000) * real d - 1 / 2 \<le> real (mul_f64 d f64_0_9)" "real (mul_f64 d f64_0_9) \<le> (901 / 1000) * real d + 1 / 2"
proof -
  define p where "p = f64_mul f64_0_9 (as_secs_f64 d)"
  note n = near_product [of d, folded p_def]
  have c: "(899 / 1000 :: real) \<le> (1 - ulp) ^ 5 * (9 / 10)" "(1 + ulp) ^ 5 * (9 / 10) \<le> (901 / 1000 :: real)"
    by (simp_all add: power_numeral_reduce field_simps)
  have "(899 / 1000) * (real d / 10 ^ 9) \<le> (1 - ulp) ^ 5 * (9 / 10) * (real d / 10 ^ 9)"
    by (rule mult_right_mono [OF c(1)]) simp
  moreover have "(1 + ulp) ^ 5 * (9 / 10) * (real d / 10 ^ 9) \<le> (901 / 1000) * (real d / 10 ^ 9)"
    by (rule mult_right_mono [OF c(2)]) simp
  ultimately have "(899 / 1000) * (real d / 10 ^ 9) \<le> fval p" "fval p \<le> (901 / 1000) * (real d / 10 ^ 9)"
    using n(1) unfolding near_def mult.assoc by linarith+
  then have p: "(899 / 1000) * real d \<le> fval p * 10 ^ 9" "fval p * 10 ^ 9 \<le> (901 / 1000) * real d"
    by simp_all
  have m: "mul_f64 d f64_0_9 = div_even (fst p * 10 ^ 9) (snd p)"
    by (simp add: mul_f64_def from_secs_f64_def p_def)
  have "\<bar>real (mul_f64 d f64_0_9) * snd p - fst p * 10 ^ 9\<bar> \<le> snd p / 2"
    using div_even_error [OF n(2), of "fst p * 10 ^ 9"] by (simp add: m)
  from abs_div_le [OF this, of "snd p"] n(2)
  have abs: "\<bar>real (mul_f64 d f64_0_9) - fval p * 10 ^ 9\<bar> \<le> 1 / 2"
    by (simp add: diff_divide_distrib fval_def)
  show "(899 / 1000) * real d - 1 / 2 \<le> real (mul_f64 d f64_0_9)"
    using abs_le_D2 [OF abs] p(1) by linarith
  show "real (mul_f64 d f64_0_9) \<le> (901 / 1000) * real d + 1 / 2"
    using abs_le_D1 [OF abs] p(2) by linarith
qed

section \<open>Properties\<close>

lemma expected_read_timeout_ge: "from_millis 5000 \<le> expected_read_timeout rdp"
  by (simp add: expected_read_timeout_def from_millis_def CSPCL_SFP_TIMEOUT_MS_def)

text \<open>
  C30: telling a reset from a timeout by the length of the read, for every RDP timeout that
  libcsp may report and despite the rounding of the double arithmetic: a read that lasted the
  expected timeout is never taken for a reset, one that ended within 89% of it always is.
\<close>

theorem reset_detection_bounds:
  "(expected_read_timeout rdp \<le> elapsed \<longrightarrow> \<not> woken_by_reset elapsed (expected_read_timeout rdp)) \<and>
   (100 * elapsed \<le> 89 * expected_read_timeout rdp \<longrightarrow> woken_by_reset elapsed (expected_read_timeout rdp))"
proof -
  define d where "d = expected_read_timeout rdp"
  have "from_millis 5000 \<le> d" by (simp add: d_def expected_read_timeout_ge)
  then have d: "1000 \<le> real d" by (simp add: from_millis_def)
  note m = mul_0_9_bounds [of d]
  have "\<not> elapsed < mul_f64 d f64_0_9" if "d \<le> elapsed"
  proof -
    have "real d \<le> real elapsed" using that by simp
    with m(2) d have "real (mul_f64 d f64_0_9) \<le> real elapsed" by linarith
    then show ?thesis by simp
  qed
  moreover have "elapsed < mul_f64 d f64_0_9" if "100 * elapsed \<le> 89 * d"
  proof -
    have "real (100 * elapsed) \<le> real (89 * d)" using that by (simp only: of_nat_le_iff)
    then have "100 * real elapsed \<le> 89 * real d" by simp
    with m(1) d have "real elapsed < real (mul_f64 d f64_0_9)" by linarith
    then show ?thesis by simp
  qed
  ultimately show ?thesis by (simp add: woken_by_reset_def d_def [symmetric])
qed

theorem reset_detection_bounds_witness:
  "\<not> woken_by_reset (from_secs 10) (expected_read_timeout 10000) \<and>
   woken_by_reset (from_secs 8) (expected_read_timeout 10000)"
  using reset_detection_bounds [of 10000 "from_secs 10"] reset_detection_bounds [of 10000 "from_secs 8"]
  by (simp add: expected_read_timeout_def CSPCL_SFP_TIMEOUT_MS_def time_defs)

text \<open>
  The idle timeout on the truncated 64-bit millisecond counters is exact as long as the
  process has run for less than \<open>2^64\<close> ms: a connection last active at \<open>t1\<close> is closed at
  \<open>t2\<close> exactly if at least ten minutes lie between the two counters.
\<close>

theorem idle_timeout_exact:
  assumes "epoch \<le> t1" and "t1 \<le> t2" and "as_millis (t2 - epoch) < 2 ^ 64"
  shows "idle_expired (now_ms epoch t1) (now_ms epoch t2) \<longleftrightarrow>
    10 * 60 * 1000 \<le> as_millis (t2 - epoch) - as_millis (t1 - epoch)"
proof -
  define a b where "a = as_millis (t1 - epoch)" and "b = as_millis (t2 - epoch)"
  have ab: "a \<le> b" using assms by (simp add: a_def b_def as_millis_def div_le_mono)
  have b: "b < 2 ^ 64" using assms(3) by (simp add: b_def)
  have w: "unat (of_nat n :: u64) = n" if "n < 2 ^ 64" for n
    using that by (simp add: unsigned_of_nat take_bit_nat_eq_self)
  have ua: "unat (now_ms epoch t1) = a" and ub: "unat (now_ms epoch t2) = b"
    using ab b by (simp_all add: now_ms_def saturating_duration_since_def a_def [symmetric]
        b_def [symmetric] w)
  have le: "now_ms epoch t1 \<le> now_ms epoch t2" using ab ua ub by (simp add: word_le_nat_alt)
  then have "unat (saturating_sub_u64 (now_ms epoch t2) (now_ms epoch t1)) = b - a"
    by (simp add: saturating_sub_u64_def not_less unat_sub ua ub)
  then show ?thesis
    by (simp add: idle_expired_def word_le_nat_alt INBOUND_IDLE_TIMEOUT_def time_defs)
      (simp add: a_def b_def as_millis_def)
qed

theorem idle_timeout_exact_witness:
  "idle_expired (now_ms 0 0) (now_ms 0 (from_secs 600)) \<and> \<not> idle_expired (now_ms 0 0) (now_ms 0 (from_secs 599))"
  using idle_timeout_exact [of 0 0 "from_secs 600"] idle_timeout_exact [of 0 0 "from_secs 599"]
  by (simp add: time_defs)

text \<open>
  The grace after receiving stopped lasts one second. A listener that looks while receiving
  is on goes on reading; one that never sees it on again gives up at its first look a second
  or more after the stop, and not before.
\<close>

theorem stop_grace_exact:
  assumes "\<And>t. t \<in> set before \<Longrightarrow> t < stopped + from_secs 1"
  shows "wait_while_stopped (map (Pair (Some stopped)) before) = None \<and>
    wait_while_stopped (map (Pair (Some stopped)) before @ (None, t) # rest) = Some True \<and>
    (stopped + from_secs 1 \<le> t \<longrightarrow>
       wait_while_stopped (map (Pair (Some stopped)) before @ (Some stopped, t) # rest) = Some False)"
proof -
  have grace: "grace_left stopped t = None \<longleftrightarrow> stopped + from_secs 1 \<le> t" for t
    by (auto simp: grace_left_def STOP_GRACE_def checked_sub_def saturating_duration_since_def from_secs_def)
  have "wait_while_stopped (map (Pair (Some stopped)) before @ obs) = wait_while_stopped obs" for obs
    using assms
  proof (induction before)
    case (Cons t ts)
    then have "grace_left stopped t \<noteq> None" using grace [of t] by (simp add: not_le)
    with Cons show ?case by auto
  qed simp
  note skip = this
  have "wait_while_stopped ((Some stopped, t) # rest) = Some False" if "stopped + from_secs 1 \<le> t"
    using grace [of t] that by simp
  with skip [of "[]"] skip show ?thesis by simp
qed

theorem stop_grace_exact_witness:
  "wait_while_stopped [(Some 0, from_millis 300), (Some 0, from_millis 1200)] = Some False \<and>
   wait_while_stopped [(Some 0, from_millis 300), (None, from_millis 1200)] = Some True"
  using stop_grace_exact [of "[from_millis 300]" 0 "from_millis 1200" "[]"] by (simp add: time_defs)

end
