(* ===== verification/Sync.thy ===== *)
theory Sync
  imports Receiver
begin

text \<open>
  The lock helpers of \<open>sync.rs\<close>, which ignore the poisoning of a mutex by a thread that panicked
  while it held the lock, over the waits of the standard library (\<open>Mutex::lock\<close>, \<open>Condvar::wait_while\<close>
  and its variants). A guard is the value that it guards.
\<close>

section \<open>The standard library\<close>

text \<open>A mutex when it is acquired: whether it is poisoned, and its value.\<close>

record 't mutex =
  poisoned :: bool
  inner :: 't

text \<open>\<open>Mutex::lock\<close>; a \<open>PoisonError\<close> carries the guard.\<close>

definition std_lock :: "'t mutex \<Rightarrow> ('t, 't) rresult" where
  "std_lock m = (if poisoned m then Inl (inner m) else Inr (inner m))"

text \<open>
  The loop of \<open>Condvar::wait_while\<close>. The condition may change the value; \<open>wakes\<close> are the mutexes found
  at the wake-ups, spurious ones included, and \<open>None\<close> means that it still waits after them. A wait that
  finds the mutex poisoned ends the loop through \<open>?\<close>.
\<close>

fun std_wait_while :: "('t \<Rightarrow> bool \<times> 't) \<Rightarrow> 't \<Rightarrow> 't mutex list \<Rightarrow> ('t, 't) rresult option" where
  "std_wait_while condition guard wakes =
     (let (wait, guard') = condition guard
      in if \<not> wait then Some (Inr guard')
         else case wakes of
                [] \<Rightarrow> None
              | m # ms \<Rightarrow>
                  (case std_lock m of Inl g \<Rightarrow> Some (Inl g) | Inr g \<Rightarrow> std_wait_while condition g ms))"

text \<open>
  \<open>Condvar::wait_timeout\<close>, with the mutex found when it wakes up and whether it timed out, and the loop of
  \<open>Condvar::wait_timeout_while\<close>, which reads the time elapsed before each wait.
\<close>

definition std_wait_timeout :: "'t mutex \<Rightarrow> bool \<Rightarrow> ('t \<times> bool, 't \<times> bool) rresult" where
  "std_wait_timeout m timed_out = (case std_lock m of Inl g \<Rightarrow> Inl (g, timed_out) | Inr g \<Rightarrow> Inr (g, timed_out))"

fun std_wait_timeout_while ::
  "('t \<Rightarrow> bool \<times> 't) \<Rightarrow> duration \<Rightarrow> 't \<Rightarrow> (duration \<times> 't mutex) list \<Rightarrow> ('t \<times> bool, 't \<times> bool) rresult option" where
  "std_wait_timeout_while condition timeout guard wakes =
     (let (wait, guard') = condition guard
      in if \<not> wait then Some (Inr (guard', False))
         else case wakes of
                [] \<Rightarrow> None
              | (elapsed, m) # ms \<Rightarrow>
                  if timeout < elapsed then Some (Inr (guard', True))
                  else case std_wait_timeout m False of
                         Inl g \<Rightarrow> Some (Inl g)
                       | Inr (g, _) \<Rightarrow> std_wait_timeout_while condition timeout g ms)"

declare std_wait_while.simps [simp del] std_wait_timeout_while.simps [simp del]

section \<open>The helpers\<close>

fun unwrap_or_else :: "('e \<Rightarrow> 'a) \<Rightarrow> ('e, 'a) rresult \<Rightarrow> 'a" where
  "unwrap_or_else f (Inl e) = f e"
| "unwrap_or_else f (Inr x) = x"

text \<open>\<open>PoisonError::into_inner\<close> is the identity on the guard carried.\<close>

definition into_inner :: "'g \<Rightarrow> 'g" where "into_inner g = g"

definition sync_lock :: "'t mutex \<Rightarrow> 't" where
  "sync_lock m = unwrap_or_else into_inner (std_lock m)"

definition sync_wait_while :: "('t \<Rightarrow> bool \<times> 't) \<Rightarrow> 't \<Rightarrow> 't mutex list \<Rightarrow> 't option" where
  "sync_wait_while condition guard wakes =
     map_option (unwrap_or_else into_inner) (std_wait_while condition guard wakes)"

definition sync_wait_timeout :: "'t mutex \<Rightarrow> bool \<Rightarrow> 't" where
  "sync_wait_timeout m timed_out = fst (unwrap_or_else into_inner (std_wait_timeout m timed_out))"

definition sync_wait_timeout_while ::
  "('t \<Rightarrow> bool \<times> 't) \<Rightarrow> duration \<Rightarrow> 't \<Rightarrow> (duration \<times> 't mutex) list \<Rightarrow> 't option" where
  "sync_wait_timeout_while condition timeout guard wakes =
     map_option (\<lambda>r. fst (unwrap_or_else into_inner r)) (std_wait_timeout_while condition timeout guard wakes)"

text \<open>The wait of \<open>Receiver::subscribe\<close> for the end of every close.\<close>

definition subscribe_wait :: "receiver_mem \<Rightarrow> receiver_mem mutex list \<Rightarrow> receiver_mem option" where
  "subscribe_wait state wakes = sync_wait_while (\<lambda>state. (0 < closing state, state)) state wakes"

section \<open>What the waits guarantee\<close>

text \<open>A wait on a mutex that is never poisoned ends exactly when the condition no longer holds.\<close>

lemma std_wait_while_holds:
  "std_wait_while condition g ws = Some r \<Longrightarrow> \<forall>m \<in> set ws. \<not> poisoned m \<Longrightarrow> \<exists>g0 g1. condition g0 = (False, g1) \<and> r = Inr g1"
proof (induction ws arbitrary: g)
  case Nil
  then show ?case by (auto simp: std_wait_while.simps [of condition g] split: if_splits prod.splits)
next
  case (Cons m ms)
  then show ?case
    by (cases "condition g") (auto simp: std_wait_while.simps [of condition g] std_lock_def split: if_splits)
qed

lemma sync_wait_while_holds:
  assumes "sync_wait_while condition g ws = Some g'" and "\<forall>m \<in> set ws. \<not> poisoned m"
  shows "\<exists>g0. condition g0 = (False, g')"
  using assms std_wait_while_holds [of condition g ws] unfolding sync_wait_while_def by force

text \<open>A wait that finds the mutex poisoned returns at once, whatever the condition.\<close>

lemma sync_wait_while_poisoned:
  "condition g = (True, g1) \<Longrightarrow> poisoned m \<Longrightarrow> sync_wait_while condition g (m # ms) = Some (inner m)"
  by (simp add: sync_wait_while_def std_wait_while.simps [of condition g] std_lock_def into_inner_def)

text \<open>
  C36: a new stream waits until no close is in progress, if no thread panicked while it held the lock:
  then the wait ends with none. On a poisoned mutex the wait ends at the first wake-up with the
  state it finds, even while a close is in progress.
\<close>

theorem subscribe_waits_unless_poisoned:
  "(subscribe_wait m ws = Some m' \<and> (\<forall>k \<in> set ws. \<not> poisoned k) \<longrightarrow> closing m' = 0) \<and>
   (0 < closing m \<longrightarrow> subscribe_wait m (\<lparr>poisoned = True, inner = m2\<rparr> # ws) = Some m2)"
proof (intro conjI impI)
  show "closing m' = 0" if "subscribe_wait m ws = Some m' \<and> (\<forall>k \<in> set ws. \<not> poisoned k)"
    using that sync_wait_while_holds [of "\<lambda>s. (0 < closing s, s)" m ws m'] by (auto simp: subscribe_wait_def)
  show "subscribe_wait m (\<lparr>poisoned = True, inner = m2\<rparr> # ws) = Some m2" if "0 < closing m"
    using that sync_wait_while_poisoned [of "\<lambda>s. (0 < closing s, s)" m m] by (simp add: subscribe_wait_def)
qed

theorem subscribe_waits_unless_poisoned_witness:
  "subscribe_wait ((receiver_new 0)\<lparr>closing := 1\<rparr>) [\<lparr>poisoned = True, inner = (receiver_new 0)\<lparr>closing := 1\<rparr>\<rparr>] =
     Some ((receiver_new 0)\<lparr>closing := 1\<rparr>) \<and>
   subscribe_wait ((receiver_new 0)\<lparr>closing := 1\<rparr>) [\<lparr>poisoned = False, inner = receiver_new 0\<rparr>] = Some (receiver_new 0) \<and>
   closing (receiver_new 0) = 0"
proof -
  let ?m = "(receiver_new 0)\<lparr>closing := 1\<rparr>" and ?k = "\<lparr>poisoned = False, inner = receiver_new 0\<rparr>"
  have c: "closing (receiver_new 0) = 0" by (simp add: receiver_new_def)
  have "std_wait_while (\<lambda>s. (0 < closing s, s)) ?m [?k] = Some (Inr (receiver_new 0))"
    using c by (simp add: std_wait_while.simps std_lock_def)
  then have w: "subscribe_wait ?m [?k] = Some (receiver_new 0)" by (simp add: subscribe_wait_def sync_wait_while_def)
  show ?thesis
    using subscribe_waits_unless_poisoned [of ?m "[]" _ ?m] subscribe_waits_unless_poisoned [of ?m "[?k]" "receiver_new 0"] w
    by simp
qed

end
