(* ===== verification/CPool.thy ===== *)
theory CPool
  imports CspclError
begin

text \<open>
  The pool of outbound connections of the C core (\<open>src/cspcl.c\<close>): lookup with ageing, LRU
  eviction, creation, invalidation, adding a connection, initialization and cleanup. libcsp and
  the operating system are an environment: functions on a state of the outside world. The build
  is the one for POSIX (not \<open>FREERTOS\<close>), and pointer arguments other than connections are
  non-null.
\<close>

section \<open>Slots that own connections\<close>

text \<open>A connection handle is a number, a null pointer \<open>None\<close>.\<close>

type_synonym conn = nat

definition slot_set :: "conn option list \<Rightarrow> conn set" where
  "slot_set cs = {h. Some h \<in> set cs}"

text \<open>No connection is in two slots.\<close>

definition slots_distinct :: "conn option list \<Rightarrow> bool" where
  "slots_distinct cs \<longleftrightarrow>
     (\<forall>i j h. i < length cs \<longrightarrow> j < length cs \<longrightarrow> cs ! i = Some h \<longrightarrow> cs ! j = Some h \<longrightarrow> i = j)"

lemma slot_setI: "i < length cs \<Longrightarrow> cs ! i = Some h \<Longrightarrow> h \<in> slot_set cs"
  by (metis mem_Collect_eq nth_mem slot_set_def)

lemma in_slot_set: "h \<in> slot_set cs \<longleftrightarrow> (\<exists>i < length cs. cs ! i = Some h)"
  by (auto simp: slot_set_def in_set_conv_nth)

text \<open>The connections of the other slots, and of the slot itself.\<close>

definition other_slots :: "nat \<Rightarrow> conn option list \<Rightarrow> conn set" where
  "other_slots i cs = {h. \<exists>k < length cs. k \<noteq> i \<and> cs ! k = Some h}"

lemma slot_set_split: "i < length cs \<Longrightarrow> slot_set cs = other_slots i cs \<union> set_option (cs ! i)"
  unfolding set_eq_iff in_slot_set other_slots_def by (auto simp: in_slot_set)

lemma slot_set_update: "i < length cs \<Longrightarrow> slot_set (cs[i := v]) = other_slots i cs \<union> set_option v"
  by (subst slot_set_split [of i]) (auto simp: other_slots_def)

lemma other_slots_distinct:
  assumes "slots_distinct cs" and "i < length cs"
  shows "other_slots i cs \<inter> set_option (cs ! i) = {}"
  using assms by (auto simp: slots_distinct_def other_slots_def)

lemma slots_distinct_update:
  assumes "slots_distinct cs" and "other_slots i cs \<inter> set_option v = {}"
  shows "slots_distinct (cs[i := v])"
  unfolding slots_distinct_def
proof (intro allI impI)
  fix j k h
  assume "j < length (cs[i := v])" "k < length (cs[i := v])" "cs[i := v] ! j = Some h" "cs[i := v] ! k = Some h"
  with assms show "j = k"
    by (cases "j = i"; cases "k = i") (auto simp: slots_distinct_def other_slots_def)
qed

lemma slot_clear:
  assumes "slots_distinct cs" and "i < length cs"
  shows "slots_distinct (cs[i := None])" "slot_set (cs[i := None]) = slot_set cs - set_option (cs ! i)"
  using slots_distinct_update [OF assms(1), of i None] other_slots_distinct [OF assms]
    slot_set_update [OF assms(2), of None] slot_set_split [OF assms(2)]
  by auto

lemma slot_fill:
  assumes "slots_distinct cs" and "i < length cs" and "h \<notin> slot_set cs" and "cs ! i = None"
  shows "slots_distinct (cs[i := Some h])" "slot_set (cs[i := Some h]) = insert h (slot_set cs)"
  using slots_distinct_update [OF assms(1), of i "Some h"] assms(3,4)
    slot_set_update [OF assms(2), of "Some h"] slot_set_split [OF assms(2)]
  by auto

lemma slot_replace:
  assumes "slots_distinct cs" and "i < length cs" and "h \<notin> slot_set cs"
  shows "slots_distinct (cs[i := Some h])"
    "slot_set (cs[i := Some h]) = insert h (slot_set cs - set_option (cs ! i))"
  using slots_distinct_update [OF assms(1), of i "Some h"] assms(3) slot_set_update [OF assms(2), of "Some h"]
    slot_set_split [OF assms(2)] other_slots_distinct [OF assms(1,2)]
  by auto

section \<open>The environment\<close>

text \<open>
  \<open>csp_connect\<close> (with its constant priority, timeout and options), \<open>csp_close\<close>, \<open>time\<close>, and the
  mutex of the pool, whose operations may fail.
\<close>

record 'w conn_env =
  csp_connect :: "u8 \<Rightarrow> u8 \<Rightarrow> 'w \<Rightarrow> conn option \<times> 'w"
  csp_close :: "conn \<Rightarrow> 'w \<Rightarrow> 'w"
  time_now :: "'w \<Rightarrow> int \<times> 'w"
  mutex_init :: "'w \<Rightarrow> bool \<times> 'w"
  mutex_lock :: "'w \<Rightarrow> bool \<times> 'w"
  mutex_unlock :: "'w \<Rightarrow> bool \<times> 'w"
  mutex_destroy :: "'w \<Rightarrow> 'w"

text \<open>
  What the pool relies on, \<open>opens\<close> being the connections that are open: connecting opens a new
  one or none, closing closes the given one, nothing else opens or closes any.
\<close>

definition conn_env_ok :: "('w, 'm) conn_env_scheme \<Rightarrow> ('w \<Rightarrow> conn set) \<Rightarrow> bool" where
  "conn_env_ok env opens \<longleftrightarrow>
     (\<forall>a p w h w'. csp_connect env a p w = (Some h, w') \<longrightarrow> h \<notin> opens w \<and> opens w' = insert h (opens w)) \<and>
     (\<forall>a p w w'. csp_connect env a p w = (None, w') \<longrightarrow> opens w' = opens w) \<and>
     (\<forall>h w. opens (csp_close env h w) = opens w - {h}) \<and>
     (\<forall>w. opens (snd (time_now env w)) = opens w) \<and>
     (\<forall>w. opens (snd (mutex_init env w)) = opens w) \<and>
     (\<forall>w. opens (snd (mutex_lock env w)) = opens w) \<and>
     (\<forall>w. opens (snd (mutex_unlock env w)) = opens w) \<and>
     (\<forall>w. opens (mutex_destroy env w) = opens w)"

lemma conn_envD:
  assumes "conn_env_ok env opens"
  shows "csp_connect env a p w = (Some h, w') \<Longrightarrow> h \<notin> opens w \<and> opens w' = insert h (opens w)"
    "csp_connect env a p w = (None, w') \<Longrightarrow> opens w' = opens w"
    "opens (csp_close env h w) = opens w - {h}"
    "time_now env w = (t, w') \<Longrightarrow> opens w' = opens w"
    "mutex_lock env w = (b, w') \<Longrightarrow> opens w' = opens w"
    "mutex_unlock env w = (b, w') \<Longrightarrow> opens w' = opens w"
    "opens (mutex_destroy env w) = opens w"
  using assms unfolding conn_env_ok_def by (metis snd_conv)+

section \<open>The pool\<close>

definition CSPCL_CONN_POOL_SIZE :: nat where "CSPCL_CONN_POOL_SIZE = 16"

record pool_entry =
  used :: bool
  dest_addr :: u8
  dest_port :: u8
  conn :: "conn option"
  last_used :: u32
  connected_at :: int

record pool_stats =
  hits :: u32
  misses :: u32
  evictions :: u32
  connect_failures :: u32
  invalidations :: u32

record conn_pool =
  pool_initialized :: bool
  entries :: "pool_entry list"
  tick :: u32
  max_conn_age_ms :: u32
  stats :: pool_stats

text \<open>\<open>memset\<close> to zero.\<close>

definition entry_zero :: pool_entry where
  "entry_zero = \<lparr>used = False, dest_addr = 0, dest_port = 0, conn = None, last_used = 0, connected_at = 0\<rparr>"

definition pool_zero :: conn_pool where
  "pool_zero = \<lparr>pool_initialized = False, entries = replicate CSPCL_CONN_POOL_SIZE entry_zero, tick = 0,
     max_conn_age_ms = 0, stats = \<lparr>hits = 0, misses = 0, evictions = 0, connect_failures = 0, invalidations = 0\<rparr>\<rparr>"

definition upd_stats :: "(pool_stats \<Rightarrow> pool_stats) \<Rightarrow> conn_pool \<Rightarrow> conn_pool" where
  "upd_stats f p = p\<lparr>stats := f (stats p)\<rparr>"

definition upd_entry :: "nat \<Rightarrow> (pool_entry \<Rightarrow> pool_entry) \<Rightarrow> conn_pool \<Rightarrow> conn_pool" where
  "upd_entry i f p = p\<lparr>entries := (entries p)[i := f (entries p ! i)]\<rparr>"

text \<open>The first entry that is not used.\<close>

fun find_free :: "nat \<Rightarrow> pool_entry list \<Rightarrow> nat option" where
  "find_free i [] = None"
| "find_free i (e # es) = (if \<not> used e then Some i else find_free (Suc i) es)"

text \<open>The search for the least recently used entry, from entry 1 on.\<close>

fun lru_from :: "nat \<Rightarrow> pool_entry list \<Rightarrow> nat \<Rightarrow> u32 \<Rightarrow> nat" where
  "lru_from i [] lru oldest = lru"
| "lru_from i (e # es) lru oldest =
     (if last_used e < oldest then lru_from (Suc i) es i (last_used e) else lru_from (Suc i) es lru oldest)"

definition pool_lru :: "pool_entry list \<Rightarrow> nat" where
  "pool_lru es = lru_from 1 (tl es) 0 (last_used (hd es))"

text \<open>Closing the connection of an entry and marking it unused.\<close>

definition clear_entry ::
  "('w, 'm) conn_env_scheme \<Rightarrow> nat \<Rightarrow> conn_pool \<Rightarrow> 'w \<Rightarrow> conn_pool \<times> 'w" where
  "clear_entry env i p w =
     (upd_entry i (\<lambda>e. e\<lparr>conn := None, used := False\<rparr>) p,
      case conn (entries p ! i) of Some h \<Rightarrow> csp_close env h w | None \<Rightarrow> w)"

definition pool_evict ::
  "('w, 'm) conn_env_scheme \<Rightarrow> conn_pool \<Rightarrow> 'w \<Rightarrow> nat \<times> conn_pool \<times> 'w" where
  "pool_evict env p w =
     (let lru = pool_lru (entries p);
          (p', w') = clear_entry env lru p w
      in (lru, upd_stats (\<lambda>st. st\<lparr>evictions := evictions st + 1\<rparr>) p', w'))"

text \<open>The slot for a new connection: the free one, if one was found, or the one evicted.\<close>

definition pool_slot ::
  "('w, 'm) conn_env_scheme \<Rightarrow> nat option \<Rightarrow> conn_pool \<Rightarrow> 'w \<Rightarrow> nat \<times> conn_pool \<times> 'w" where
  "pool_slot env free p w =
     (case free of
        Some i \<Rightarrow> (i, p, w)
      | None \<Rightarrow> pool_evict env p w)"

definition find_free_or_evict ::
  "('w, 'm) conn_env_scheme \<Rightarrow> conn_pool \<Rightarrow> 'w \<Rightarrow> nat \<times> conn_pool \<times> 'w" where
  "find_free_or_evict env p w = pool_slot env (find_free 0 (entries p)) p w"

definition conn_pool_add ::
  "('w, 'm) conn_env_scheme \<Rightarrow> conn_pool \<Rightarrow> u8 \<Rightarrow> u8 \<Rightarrow> conn option \<Rightarrow> 'w \<Rightarrow>
   cspcl_error_t \<times> conn_pool \<times> 'w" where
  "conn_pool_add env p da dp c w =
     (case c of
        None \<Rightarrow> (CSPCL_ERR_INVALID_PARAM, p, w)
      | Some h \<Rightarrow>
          if \<not> pool_initialized p then (CSPCL_ERR_NOT_INITIALIZED, p, w)
          else
            let (locked, w1) = mutex_lock env w
            in if \<not> locked then (CSPCL_ERR_CONNECTION, p, w1)
               else
                 let p1 = p\<lparr>tick := tick p + 1\<rparr>;
                     (slot, p2, w2) = find_free_or_evict env p1 w1;
                     (now, w3) = time_now env w2;
                     p3 = upd_entry slot (\<lambda>_. \<lparr>used = True, dest_addr = da, dest_port = dp, conn = Some h,
                            last_used = tick p2, connected_at = now\<rparr>) p2
                 in (CSPCL_OK, p3, snd (mutex_unlock env w3)))"

text \<open>
  The loop of \<open>cspcl_pool_get_or_create_locked\<close>: the entry connected to the destination, and
  the first unused entry before it (before the end, if there is none).
\<close>

fun pool_scan :: "u8 \<Rightarrow> u8 \<Rightarrow> nat \<Rightarrow> pool_entry list \<Rightarrow> nat option \<Rightarrow> nat option \<times> nat option" where
  "pool_scan da dp i [] free = (None, free)"
| "pool_scan da dp i (e # es) free =
     (if \<not> used e then pool_scan da dp (Suc i) es (if free = None then Some i else free)
      else if dest_addr e = da \<and> dest_port e = dp \<and> conn e \<noteq> None then (Some i, free)
      else pool_scan da dp (Suc i) es free)"

text \<open>The age check; the clock is read only if there is a maximum age.\<close>

definition pool_aged ::
  "('w, 'm) conn_env_scheme \<Rightarrow> conn_pool \<Rightarrow> pool_entry \<Rightarrow> 'w \<Rightarrow> bool \<times> 'w" where
  "pool_aged env p e w =
     (if 0 < max_conn_age_ms p
      then let (now, w') = time_now env w; age_s = of_int (now - connected_at e) :: u32
           in (max_conn_age_ms p div 1000 < age_s, w')
      else (False, w))"

text \<open>The part after the loop, with the free slot found if there is one.\<close>

definition pool_create ::
  "('w, 'm) conn_env_scheme \<Rightarrow> u8 \<Rightarrow> u8 \<Rightarrow> nat option \<Rightarrow> conn_pool \<Rightarrow> 'w \<Rightarrow>
   conn option \<times> conn_pool \<times> 'w" where
  "pool_create env da dp free p w =
     (let (slot, p1, w1) = pool_slot env free p w;
          (c, w2) = csp_connect env da dp w1
      in case c of
           None \<Rightarrow> (None, upd_stats (\<lambda>st. st\<lparr>connect_failures := connect_failures st + 1\<rparr>) p1, w2)
         | Some h \<Rightarrow>
             let (now, w3) = time_now env w2;
                 p2 = upd_entry slot (\<lambda>_. \<lparr>used = True, dest_addr = da, dest_port = dp, conn = Some h,
                        last_used = tick p1, connected_at = now\<rparr>) p1
             in (Some h, upd_stats (\<lambda>st. st\<lparr>misses := misses st + 1\<rparr>) p2, w3))"

definition pool_get_or_create ::
  "('w, 'm) conn_env_scheme \<Rightarrow> u8 \<Rightarrow> u8 \<Rightarrow> conn_pool \<Rightarrow> 'w \<Rightarrow> conn option \<times> conn_pool \<times> 'w" where
  "pool_get_or_create env da dp p0 w =
     (let p = p0\<lparr>tick := tick p0 + 1\<rparr>;
          (found, free) = pool_scan da dp 0 (entries p) None
      in case found of
           None \<Rightarrow> pool_create env da dp free p w
         | Some i \<Rightarrow>
             let (aged, w1) = pool_aged env p (entries p ! i) w
             in if aged
                then let (p1, w2) = clear_entry env i p w1;
                         p2 = upd_stats (\<lambda>st. st\<lparr>invalidations := invalidations st + 1\<rparr>) p1
                     in pool_create env da dp (case free of None \<Rightarrow> Some i | Some j \<Rightarrow> Some j) p2 w2
                else (conn (entries p ! i),
                      upd_stats (\<lambda>st. st\<lparr>hits := hits st + 1\<rparr>)
                        (upd_entry i (\<lambda>e. e\<lparr>last_used := tick p\<rparr>) p), w1))"

text \<open>\<open>cspcl_pool_invalidate_locked\<close>: the first used entry of the destination.\<close>

fun find_dest :: "u8 \<Rightarrow> u8 \<Rightarrow> nat \<Rightarrow> pool_entry list \<Rightarrow> nat option" where
  "find_dest da dp i [] = None"
| "find_dest da dp i (e # es) =
     (if used e \<and> dest_addr e = da \<and> dest_port e = dp then Some i else find_dest da dp (Suc i) es)"

definition pool_invalidate ::
  "('w, 'm) conn_env_scheme \<Rightarrow> u8 \<Rightarrow> u8 \<Rightarrow> conn_pool \<Rightarrow> 'w \<Rightarrow> conn_pool \<times> 'w" where
  "pool_invalidate env da dp p w =
     (case find_dest da dp 0 (entries p) of
        None \<Rightarrow> (p, w)
      | Some i \<Rightarrow>
          let (p', w') = clear_entry env i p w
          in (upd_stats (\<lambda>st. st\<lparr>invalidations := invalidations st + 1\<rparr>) p', w'))"

text \<open>
  \<open>cspcl_conn_pool_init\<close>; \<open>max_age\<close> is the value of \<open>CSPCL_MAX_CONN_AGE_MS\<close> as \<open>strtol\<close> reads it, if
  the variable is set and read to its end.
\<close>

definition conn_pool_init ::
  "('w, 'm) conn_env_scheme \<Rightarrow> int option \<Rightarrow> 'w \<Rightarrow> cspcl_error_t \<times> conn_pool \<times> 'w" where
  "conn_pool_init env max_age w =
     (let (ok, w1) = mutex_init env w
      in if \<not> ok then (CSPCL_ERR_NO_MEMORY, pool_zero, w1)
         else (CSPCL_OK,
               pool_zero\<lparr>max_conn_age_ms :=
                   (case max_age of
                      Some v \<Rightarrow> if 0 \<le> v \<and> v \<le> uint (- 1 :: u32) then of_int v else 0
                    | None \<Rightarrow> 0),
                 pool_initialized := True\<rparr>, w1))"

text \<open>The loop of \<open>cspcl_conn_pool_cleanup\<close> over the entries.\<close>

fun cleanup_entries ::
  "('w, 'm) conn_env_scheme \<Rightarrow> pool_entry list \<Rightarrow> 'w \<Rightarrow> pool_entry list \<times> 'w" where
  "cleanup_entries env [] w = ([], w)"
| "cleanup_entries env (e # es) w =
     (let w1 = (if used e then case conn e of Some h \<Rightarrow> csp_close env h w | None \<Rightarrow> w else w);
          (es', w2) = cleanup_entries env es w1
      in (e\<lparr>used := False, conn := None\<rparr> # es', w2))"

definition conn_pool_cleanup ::
  "('w, 'm) conn_env_scheme \<Rightarrow> conn_pool \<Rightarrow> 'w \<Rightarrow> conn_pool \<times> 'w" where
  "conn_pool_cleanup env p w =
     (if \<not> pool_initialized p then (p, w)
      else
        let (locked, w1) = mutex_lock env w
        in if \<not> locked then (p, w1)
           else
             let (es, w2) = cleanup_entries env (entries p) w1
             in (p\<lparr>entries := es, pool_initialized := False\<rparr>, mutex_destroy env (snd (mutex_unlock env w2))))"

section \<open>Ownership\<close>

definition entry_slot :: "pool_entry \<Rightarrow> conn option" where
  "entry_slot e = (if used e then conn e else None)"

definition pool_slots :: "conn_pool \<Rightarrow> conn option list" where
  "pool_slots p = map entry_slot (entries p)"

definition pool_conns :: "conn_pool \<Rightarrow> conn set" where
  "pool_conns p = slot_set (pool_slots p)"

text \<open>An entry is used exactly if it has a connection, and no two have the same.\<close>

definition pool_inv :: "conn_pool \<Rightarrow> bool" where
  "pool_inv p \<longleftrightarrow> length (entries p) = CSPCL_CONN_POOL_SIZE \<and>
     (\<forall>i < CSPCL_CONN_POOL_SIZE. used (entries p ! i) \<longleftrightarrow> conn (entries p ! i) \<noteq> None) \<and>
     slots_distinct (pool_slots p)"

text \<open>
  A change of the pool and the world keeps the ownership: the pool's connections are open, and
  the open connections that are not the pool's stay the same ones. So no connection of the pool
  is ever lost while open, closed twice, or kept after it was closed.
\<close>

definition pool_owns :: "('w \<Rightarrow> conn set) \<Rightarrow> conn_pool \<Rightarrow> 'w \<Rightarrow> bool" where
  "pool_owns opens p w \<longleftrightarrow> pool_inv p \<and> pool_conns p \<subseteq> opens w"

definition foreign :: "('w \<Rightarrow> conn set) \<Rightarrow> conn_pool \<Rightarrow> 'w \<Rightarrow> conn set" where
  "foreign opens p w = opens w - pool_conns p"

lemma pool_invD:
  assumes "pool_inv p"
  shows "length (entries p) = CSPCL_CONN_POOL_SIZE" "slots_distinct (pool_slots p)"
    "length (pool_slots p) = CSPCL_CONN_POOL_SIZE"
    "i < CSPCL_CONN_POOL_SIZE \<Longrightarrow> pool_slots p ! i = conn (entries p ! i)"
    "i < CSPCL_CONN_POOL_SIZE \<Longrightarrow> used (entries p ! i) \<longleftrightarrow> conn (entries p ! i) \<noteq> None"
  using assms by (auto simp: pool_inv_def pool_slots_def entry_slot_def)

lemma upd_stats_sel [simp]:
  "entries (upd_stats f p) = entries p" "tick (upd_stats f p) = tick p"
  "pool_initialized (upd_stats f p) = pool_initialized p" "max_conn_age_ms (upd_stats f p) = max_conn_age_ms p"
  by (simp_all add: upd_stats_def)

lemma upd_entry_sel [simp]:
  "entries (upd_entry i f p) = (entries p)[i := f (entries p ! i)]" "tick (upd_entry i f p) = tick p"
  "pool_initialized (upd_entry i f p) = pool_initialized p" "max_conn_age_ms (upd_entry i f p) = max_conn_age_ms p"
  by (simp_all add: upd_entry_def)

lemma pool_same_entries:
  "entries p = entries q \<Longrightarrow> pool_inv p = pool_inv q \<and> pool_conns p = pool_conns q"
  by (simp add: pool_inv_def pool_conns_def pool_slots_def)

lemma pool_upd_stats [simp]: "pool_inv (upd_stats f p) = pool_inv p" "pool_conns (upd_stats f p) = pool_conns p"
  "pool_inv (p\<lparr>tick := t\<rparr>) = pool_inv p" "pool_conns (p\<lparr>tick := t\<rparr>) = pool_conns p"
  using pool_same_entries [of "upd_stats f p" p] pool_same_entries [of "p\<lparr>tick := t\<rparr>" p] by simp_all

lemma pool_slots_upd: "i < length (entries p) \<Longrightarrow>
    pool_slots (upd_entry i f p) = (pool_slots p)[i := entry_slot (f (entries p ! i))]"
  by (simp add: pool_slots_def map_update)

text \<open>The three ways an entry changes: it is touched, cleared or filled.\<close>

lemma pool_touch:
  assumes "pool_inv p" and "i < CSPCL_CONN_POOL_SIZE"
  shows "pool_inv (upd_entry i (\<lambda>e. e\<lparr>last_used := t\<rparr>) p)"
    "pool_conns (upd_entry i (\<lambda>e. e\<lparr>last_used := t\<rparr>) p) = pool_conns p"
proof -
  have sl: "pool_slots (upd_entry i (\<lambda>e. e\<lparr>last_used := t\<rparr>) p) = pool_slots p"
    using assms by (simp add: pool_slots_def pool_inv_def map_update entry_slot_def list_update_same_conv)
  show "pool_conns (upd_entry i (\<lambda>e. e\<lparr>last_used := t\<rparr>) p) = pool_conns p"
    by (simp add: pool_conns_def sl)
  show "pool_inv (upd_entry i (\<lambda>e. e\<lparr>last_used := t\<rparr>) p)"
    using assms by (simp add: pool_inv_def sl nth_list_update)
qed

lemma pool_clear:
  assumes "pool_inv p" and "i < CSPCL_CONN_POOL_SIZE"
  shows "pool_inv (upd_entry i (\<lambda>e. e\<lparr>conn := None, used := False\<rparr>) p)"
    "pool_conns (upd_entry i (\<lambda>e. e\<lparr>conn := None, used := False\<rparr>) p) =
       pool_conns p - set_option (conn (entries p ! i))"
proof -
  note d = pool_invD [OF assms(1)]
  let ?p = "upd_entry i (\<lambda>e. e\<lparr>conn := None, used := False\<rparr>) p"
  have sl: "pool_slots ?p = (pool_slots p)[i := None]"
    using assms(2) d(1) by (simp add: pool_slots_upd entry_slot_def)
  have i: "i < length (pool_slots p)" using assms(2) d(3) by simp
  show "pool_conns ?p = pool_conns p - set_option (conn (entries p ! i))"
    using slot_clear(2) [OF d(2) i] d(4) [OF assms(2)] by (simp add: pool_conns_def sl)
  show "pool_inv ?p"
    using assms slot_clear(1) [OF d(2) i] unfolding pool_inv_def sl by (simp add: nth_list_update)
qed

lemma pool_fill:
  assumes "pool_inv p" and "i < CSPCL_CONN_POOL_SIZE" and "\<not> used (entries p ! i)" and "h \<notin> pool_conns p"
    and "used e" and "conn e = Some h"
  shows "pool_inv (upd_entry i (\<lambda>_. e) p)" "pool_conns (upd_entry i (\<lambda>_. e) p) = insert h (pool_conns p)"
proof -
  note d = pool_invD [OF assms(1)]
  have sl: "pool_slots (upd_entry i (\<lambda>_. e) p) = (pool_slots p)[i := Some h]"
    using assms(2,5,6) d(1) by (simp add: pool_slots_upd entry_slot_def)
  have i: "i < length (pool_slots p)" and no: "pool_slots p ! i = None"
    using assms(2,3) d(3) d(4) [OF assms(2)] d(5) [OF assms(2)] by simp_all
  note f = slot_fill [OF d(2) i _ no, of h, folded pool_conns_def, OF assms(4)]
  show "pool_conns (upd_entry i (\<lambda>_. e) p) = insert h (pool_conns p)"
    using f(2) by (simp add: pool_conns_def sl)
  show "pool_inv (upd_entry i (\<lambda>_. e) p)"
    using assms(1,2,5,6) f(1) unfolding pool_inv_def sl by (simp add: nth_list_update)
qed

lemma clear_entry_owns:
  assumes env: "conn_env_ok env opens" and p: "pool_owns opens p w" and i: "i < CSPCL_CONN_POOL_SIZE"
    and c: "clear_entry env i p w = (p', w')"
  shows "pool_owns opens p' w'" "foreign opens p' w' = foreign opens p w"
    "p' = upd_entry i (\<lambda>e. e\<lparr>conn := None, used := False\<rparr>) p"
    "opens w' = opens w - set_option (conn (entries p ! i))"
proof -
  have inv: "pool_inv p" and sub: "pool_conns p \<subseteq> opens w" using p by (auto simp: pool_owns_def)
  note cl = pool_clear [OF inv i] and d = pool_invD [OF inv]
  show p': "p' = upd_entry i (\<lambda>e. e\<lparr>conn := None, used := False\<rparr>) p"
    and w': "opens w' = opens w - set_option (conn (entries p ! i))"
    using c conn_envD(3) [OF env] by (auto simp: clear_entry_def split: option.splits)
  have "set_option (conn (entries p ! i)) \<subseteq> pool_conns p"
    using d(3) d(4) [OF i] i by (auto simp: pool_conns_def in_slot_set)
  then show "foreign opens p' w' = foreign opens p w"
    unfolding foreign_def p' cl(2) w' by blast
  show "pool_owns opens p' w'"
    using cl(1) sub unfolding pool_owns_def p' cl(2) w' by blast
qed

section \<open>Search\<close>

lemma lru_from_bounds:
  assumes "lru < i" and "last_used (es ! lru) = oldest" and "\<forall>k < i. oldest \<le> last_used (es ! k)" and "i \<le> length es"
  shows "lru_from i (drop i es) lru oldest < length es \<and>
    (\<forall>k < length es. last_used (es ! lru_from i (drop i es) lru oldest) \<le> last_used (es ! k))"
  using assms
proof (induction "length es - i" arbitrary: i lru oldest)
  case 0
  then show ?case by auto
next
  case (Suc n)
  then have i: "i < length es" by simp
  then have dr: "drop i es = es ! i # drop (Suc i) es" by (simp add: Cons_nth_drop_Suc)
  show ?case
  proof (cases "last_used (es ! i) < oldest")
    case True
    have "\<forall>k < Suc i. last_used (es ! i) \<le> last_used (es ! k)"
      using True Suc.prems(3) by (metis less_Suc_eq order.refl order.strict_implies_order order.trans)
    then show ?thesis
      using Suc.hyps(1) [of "Suc i" i "last_used (es ! i)"] Suc.hyps(2) i True by (simp add: dr)
  next
    case False
    have "\<forall>k < Suc i. oldest \<le> last_used (es ! k)"
      using False Suc.prems(3) by (metis less_Suc_eq not_less)
    then show ?thesis
      using Suc.hyps(1) [of "Suc i" lru oldest] Suc.hyps(2) i False Suc.prems by (simp add: dr)
  qed
qed

text \<open>The entry evicted is a least recently used one.\<close>

lemma pool_lru_least:
  assumes "es \<noteq> []"
  shows "pool_lru es < length es" "k < length es \<Longrightarrow> last_used (es ! pool_lru es) \<le> last_used (es ! k)"
proof -
  have "pool_lru es = lru_from 1 (drop 1 es) 0 (last_used (es ! 0))"
    using assms by (simp add: pool_lru_def drop_Suc hd_conv_nth)
  moreover have "1 \<le> length es" using assms by (cases es) auto
  ultimately show "pool_lru es < length es" "k < length es \<Longrightarrow> last_used (es ! pool_lru es) \<le> last_used (es ! k)"
    using lru_from_bounds [of 0 1 es "last_used (es ! 0)"] by simp_all
qed

lemma find_free_drop:
  assumes "i \<le> length es" and "\<forall>k < i. used (es ! k)"
  shows "case find_free i (drop i es) of
      Some j \<Rightarrow> j < length es \<and> \<not> used (es ! j)
    | None \<Rightarrow> \<forall>k < length es. used (es ! k)"
  using assms
proof (induction "length es - i" arbitrary: i)
  case (Suc n)
  then have i: "i < length es" by simp
  then have "drop i es = es ! i # drop (Suc i) es" by (simp add: Cons_nth_drop_Suc)
  then show ?case using Suc i by (auto simp: less_Suc_eq)
qed simp

definition to_dest :: "u8 \<Rightarrow> u8 \<Rightarrow> pool_entry \<Rightarrow> bool" where
  "to_dest da dp e \<longleftrightarrow> used e \<and> dest_addr e = da \<and> dest_port e = dp"

lemma find_dest_drop:
  assumes "i \<le> length es" and "\<forall>k < i. \<not> to_dest da dp (es ! k)"
  shows "case find_dest da dp i (drop i es) of
      Some j \<Rightarrow> j < length es \<and> to_dest da dp (es ! j) \<and> (\<forall>k < j. \<not> to_dest da dp (es ! k))
    | None \<Rightarrow> \<forall>k < length es. \<not> to_dest da dp (es ! k)"
  using assms
proof (induction "length es - i" arbitrary: i)
  case (Suc n)
  then have i: "i < length es" by simp
  then have dr: "drop i es = es ! i # drop (Suc i) es" by (simp add: Cons_nth_drop_Suc)
  show ?case
  proof (cases "to_dest da dp (es ! i)")
    case True
    then have "find_dest da dp i (drop i es) = Some i" by (simp add: dr to_dest_def)
    with True i Suc.prems show ?thesis by simp
  next
    case False
    then have "find_dest da dp i (drop i es) = find_dest da dp (Suc i) (drop (Suc i) es)"
      by (auto simp: dr to_dest_def)
    moreover have "\<forall>k < Suc i. \<not> to_dest da dp (es ! k)" using False Suc.prems by (simp add: less_Suc_eq)
    ultimately show ?thesis using Suc.hyps(1) [of "Suc i"] Suc.hyps(2) i by simp
  qed
qed simp

lemma pool_scan_drop:
  assumes "i \<le> length es" and "\<forall>e \<in> set es. used e \<longrightarrow> conn e \<noteq> None"
    and "\<forall>k < i. \<not> to_dest da dp (es ! k)"
    and "case free of Some j \<Rightarrow> j < length es \<and> \<not> used (es ! j) | None \<Rightarrow> \<forall>k < i. used (es ! k)"
    and "pool_scan da dp i (drop i es) free = (found, fr)"
  shows "found = find_dest da dp i (drop i es) \<and>
    (case fr of Some j \<Rightarrow> j < length es \<and> \<not> used (es ! j)
     | None \<Rightarrow> found = None \<longrightarrow> (\<forall>k < length es. used (es ! k)))"
  using assms
proof (induction "length es - i" arbitrary: i free)
  case (Suc n)
  then have i: "i < length es" by simp
  then have dr: "drop i es = es ! i # drop (Suc i) es" by (simp add: Cons_nth_drop_Suc)
  have conn: "used (es ! i) \<Longrightarrow> conn (es ! i) \<noteq> None" using Suc.prems(2) i by simp
  show ?case
  proof (cases "to_dest da dp (es ! i)")
    case True
    with Suc.prems(4,5) conn show ?thesis by (auto simp: dr to_dest_def split: option.splits)
  next
    case False
    let ?free = "if used (es ! i) then free else if free = None then Some i else free"
    have "pool_scan da dp (Suc i) (drop (Suc i) es) ?free = (found, fr)"
      using Suc.prems(5) False conn by (auto simp: dr to_dest_def split: if_splits)
    moreover have "\<forall>k < Suc i. \<not> to_dest da dp (es ! k)" using False Suc.prems(3) by (simp add: less_Suc_eq)
    moreover have "case ?free of Some j \<Rightarrow> j < length es \<and> \<not> used (es ! j) | None \<Rightarrow> \<forall>k < Suc i. used (es ! k)"
      using Suc.prems(4) i by (auto simp: less_Suc_eq split: option.splits)
    moreover have "find_dest da dp i (drop i es) = find_dest da dp (Suc i) (drop (Suc i) es)"
      using False by (auto simp: dr to_dest_def)
    ultimately show ?thesis using Suc.hyps(1) [of "Suc i" ?free] Suc.hyps(2) Suc.prems(2) i by simp
  qed
next
  case 0
  then show ?case by (auto split: option.splits)
qed

lemma pool_inv_used_conn: "pool_inv p \<Longrightarrow> \<forall>e \<in> set (entries p). used e \<longrightarrow> conn e \<noteq> None"
  by (metis in_set_conv_nth pool_invD(1,5))

text \<open>What the searches return on a pool.\<close>

lemma pool_search:
  assumes "pool_inv p"
  shows "case find_free 0 (entries p) of
      Some j \<Rightarrow> j < CSPCL_CONN_POOL_SIZE \<and> \<not> used (entries p ! j)
    | None \<Rightarrow> \<forall>k < CSPCL_CONN_POOL_SIZE. used (entries p ! k)"
    and "case find_dest da dp 0 (entries p) of
      Some j \<Rightarrow> j < CSPCL_CONN_POOL_SIZE \<and> to_dest da dp (entries p ! j) \<and> (\<forall>k < j. \<not> to_dest da dp (entries p ! k))
    | None \<Rightarrow> \<forall>k < CSPCL_CONN_POOL_SIZE. \<not> to_dest da dp (entries p ! k)"
    and "pool_scan da dp 0 (entries p) None = (found, fr) \<Longrightarrow>
      found = find_dest da dp 0 (entries p) \<and>
      (case fr of Some j \<Rightarrow> j < CSPCL_CONN_POOL_SIZE \<and> \<not> used (entries p ! j)
       | None \<Rightarrow> found = None \<longrightarrow> (\<forall>k < CSPCL_CONN_POOL_SIZE. used (entries p ! k)))"
  using find_free_drop [of 0 "entries p"] find_dest_drop [of 0 "entries p" da dp]
    pool_scan_drop [of 0 "entries p" da dp None found fr] pool_inv_used_conn [OF assms]
  unfolding pool_invD(1) [OF assms, symmetric] by simp_all

lemma pool_lru_bound: "pool_inv p \<Longrightarrow> pool_lru (entries p) < CSPCL_CONN_POOL_SIZE"
  using pool_lru_least(1) [of "entries p"] pool_invD(1) [of p] by (fastforce simp: CSPCL_CONN_POOL_SIZE_def)

section \<open>The operations keep the ownership\<close>

definition keeps :: "('w \<Rightarrow> conn set) \<Rightarrow> conn_pool \<Rightarrow> 'w \<Rightarrow> conn_pool \<Rightarrow> 'w \<Rightarrow> bool" where
  "keeps opens p w p' w' \<longleftrightarrow> pool_owns opens p' w' \<and> foreign opens p' w' = foreign opens p w"

lemma keeps_trans: "keeps opens p w p' w' \<Longrightarrow> keeps opens p' w' p'' w'' \<Longrightarrow> keeps opens p w p'' w''"
  by (simp add: keeps_def)

lemma keeps_same:
  assumes "pool_owns opens p w" and "pool_inv p'" and "pool_conns p' = pool_conns p" and "opens w' = opens w"
  shows "keeps opens p w p' w'"
  using assms by (simp add: keeps_def pool_owns_def foreign_def)

lemma keeps_fill:
  assumes p: "pool_owns opens p w" and i: "i < CSPCL_CONN_POOL_SIZE" "\<not> used (entries p ! i)"
    and h: "h \<notin> opens w" "opens w' = insert h (opens w)" and e: "used e" "conn e = Some h"
  shows "keeps opens p w (upd_entry i (\<lambda>_. e) p) w'"
proof -
  have inv: "pool_inv p" and "h \<notin> pool_conns p" using p h by (auto simp: pool_owns_def)
  note f = pool_fill [OF inv i this(2) e]
  show ?thesis using p f h unfolding keeps_def pool_owns_def foreign_def by auto
qed

lemma pool_evict_keeps:
  assumes "conn_env_ok env opens" and "pool_owns opens p w" and "pool_evict env p w = (i, p', w')"
  shows "keeps opens p w p' w'" "i = pool_lru (entries p)" "i < CSPCL_CONN_POOL_SIZE"
    "entries p' = (entries p)[i := (entries p ! i)\<lparr>conn := None, used := False\<rparr>]" "tick p' = tick p"
proof -
  have inv: "pool_inv p" using assms(2) by (simp add: pool_owns_def)
  obtain q v where cl: "clear_entry env (pool_lru (entries p)) p w = (q, v)" by fastforce
  with assms(3) have i: "i = pool_lru (entries p)" and p': "p' = upd_stats (\<lambda>st. st\<lparr>evictions := evictions st + 1\<rparr>) q"
    and w': "w' = v" by (auto simp: pool_evict_def Let_def)
  note c = clear_entry_owns [OF assms(1,2) pool_lru_bound [OF inv] cl]
  show "i = pool_lru (entries p)" "i < CSPCL_CONN_POOL_SIZE" using i pool_lru_bound [OF inv] by simp_all
  show "keeps opens p w p' w'" using c(1,2) by (simp add: keeps_def pool_owns_def foreign_def p' w')
  show "entries p' = (entries p)[i := (entries p ! i)\<lparr>conn := None, used := False\<rparr>]" "tick p' = tick p"
    by (simp_all add: p' c(3) i)
qed

lemma pool_slot_keeps:
  assumes env: "conn_env_ok env opens" and p: "pool_owns opens p w"
    and free: "\<And>i. free = Some i \<Longrightarrow> i < CSPCL_CONN_POOL_SIZE \<and> \<not> used (entries p ! i)"
    and s: "pool_slot env free p w = (i, q, v)"
  shows "keeps opens p w q v" "i < CSPCL_CONN_POOL_SIZE" "\<not> used (entries q ! i)" "tick q = tick p"
    "k < CSPCL_CONN_POOL_SIZE \<Longrightarrow> k \<noteq> i \<Longrightarrow> entries q ! k = entries p ! k"
proof -
  have inv: "pool_inv p" using p by (simp add: pool_owns_def)
  have "keeps opens p w q v \<and> i < CSPCL_CONN_POOL_SIZE \<and> \<not> used (entries q ! i) \<and> tick q = tick p \<and>
      (k < CSPCL_CONN_POOL_SIZE \<longrightarrow> k \<noteq> i \<longrightarrow> entries q ! k = entries p ! k)"
  proof (cases free)
    case (Some j)
    with s free show ?thesis using keeps_same [OF p inv refl refl] by (auto simp: pool_slot_def)
  next
    case None
    with s have e: "pool_evict env p w = (i, q, v)" by (simp add: pool_slot_def)
    note ev = pool_evict_keeps [OF env p e]
    show ?thesis using ev pool_invD(1) [OF inv] by simp
  qed
  then show "keeps opens p w q v" "i < CSPCL_CONN_POOL_SIZE" "\<not> used (entries q ! i)" "tick q = tick p"
    "k < CSPCL_CONN_POOL_SIZE \<Longrightarrow> k \<noteq> i \<Longrightarrow> entries q ! k = entries p ! k"
    by blast+
qed

lemma pool_create_cases:
  assumes "pool_create env da dp free p w = (c, p', w')"
  obtains (failed) i q v where "pool_slot env free p w = (i, q, v)" "csp_connect env da dp v = (None, w')" "c = None"
      "p' = upd_stats (\<lambda>st. st\<lparr>connect_failures := connect_failures st + 1\<rparr>) q"
  | (new) i q v h u now where "pool_slot env free p w = (i, q, v)" "csp_connect env da dp v = (Some h, u)"
      "time_now env u = (now, w')" "c = Some h"
      "p' = upd_stats (\<lambda>st. st\<lparr>misses := misses st + 1\<rparr>)
         (upd_entry i (\<lambda>_. \<lparr>used = True, dest_addr = da, dest_port = dp, conn = Some h,
            last_used = tick q, connected_at = now\<rparr>) q)"
  using assms unfolding pool_create_def by (auto split: prod.splits option.splits)

section \<open>The world between two calls\<close>

text \<open>
  What every call of the environment that the pool makes keeps of the world, its lookups and
  invalidations keep.
\<close>

locale conn_calls =
  fixes env :: "('w, 'm) conn_env_scheme"
    and R :: "'w \<Rightarrow> 'w \<Rightarrow> bool"
  assumes R_refl: "R w w"
    and R_trans: "R w w' \<Longrightarrow> R w' w'' \<Longrightarrow> R w w''"
    and R_connect: "csp_connect env a p w = (c, w') \<Longrightarrow> R w w'"
    and R_close: "R w (csp_close env h w)"
    and R_time: "time_now env w = (t, w') \<Longrightarrow> R w w'"
begin

lemma R_clear: "clear_entry env i p w = (p', w') \<Longrightarrow> R w w'"
  using R_close R_refl by (auto simp: clear_entry_def split: option.splits)

lemma R_slot: "pool_slot env free p w = (i, q, v) \<Longrightarrow> R w v"
  using R_clear R_refl by (auto simp: pool_slot_def pool_evict_def Let_def split: option.splits prod.splits)

lemma R_create:
  assumes "pool_create env da dp free p w = (c, p', w')"
  shows "R w w'"
  using assms by (cases rule: pool_create_cases) (blast intro: R_slot R_connect R_time R_trans)+

lemma R_aged: "pool_aged env p e w = (b, v) \<Longrightarrow> R w v"
  using R_time R_refl by (auto simp: pool_aged_def split: if_splits prod.splits)

lemma R_get_or_create: "pool_get_or_create env da dp p w = (c, p', w') \<Longrightarrow> R w w'"
  unfolding pool_get_or_create_def Let_def
  by (auto split: prod.splits option.splits if_splits intro: R_aged R_create)
    (blast intro: R_aged R_clear R_create R_trans)+

lemma R_invalidate: "pool_invalidate env da dp p w = (p', w') \<Longrightarrow> R w w'"
  using R_clear R_refl by (auto simp: pool_invalidate_def split: option.splits prod.splits)

end

section \<open>Creation and lookup\<close>

text \<open>Creating a connection in a free slot, or in the one of the least recently used connection.\<close>

lemma pool_create_keeps:
  assumes env: "conn_env_ok env opens" and p: "pool_owns opens p w"
    and free: "\<And>i. free = Some i \<Longrightarrow> i < CSPCL_CONN_POOL_SIZE \<and> \<not> used (entries p ! i)"
    and r: "pool_create env da dp free p w = (c, p', w')"
  shows "keeps opens p w p' w' \<and> tick p' = tick p \<and>
    (\<exists>i < CSPCL_CONN_POOL_SIZE. (\<forall>k < CSPCL_CONN_POOL_SIZE. k \<noteq> i \<longrightarrow> entries p' ! k = entries p ! k) \<and>
       (case c of None \<Rightarrow> \<not> used (entries p' ! i)
        | Some h \<Rightarrow> to_dest da dp (entries p' ! i) \<and> conn (entries p' ! i) = Some h))"
  using r
proof (cases rule: pool_create_cases)
  case (failed i q v)
  note s = pool_slot_keeps [OF env p free failed(1)]
  have "keeps opens q v p' w'"
    using s(1) conn_envD(2) [OF env failed(2)] by (intro keeps_same) (simp_all add: failed keeps_def pool_owns_def)
  moreover have "\<not> used (entries p' ! i) \<and> (\<forall>k < CSPCL_CONN_POOL_SIZE. k \<noteq> i \<longrightarrow> entries p' ! k = entries p ! k)"
    using s(3,5) by (simp add: failed)
  ultimately show ?thesis using s(1,2,4) failed by (auto intro: keeps_trans)
next
  case (new i q v h u now)
  note s = pool_slot_keeps [OF env p free new(1)]
  let ?e = "\<lparr>used = True, dest_addr = da, dest_port = dp, conn = Some h, last_used = tick q, connected_at = now\<rparr>"
  have q: "pool_owns opens q v" using s(1) by (simp add: keeps_def)
  then have len: "length (entries q) = CSPCL_CONN_POOL_SIZE" using pool_invD(1) by (simp add: pool_owns_def)
  have "keeps opens q v (upd_entry i (\<lambda>_. ?e) q) w'"
    using conn_envD(1) [OF env new(2)] conn_envD(4) [OF env new(3)] by (intro keeps_fill [OF q s(2,3)]) simp_all
  then have "keeps opens q v p' w'" by (simp add: keeps_def pool_owns_def foreign_def new)
  moreover have "to_dest da dp (entries p' ! i) \<and> conn (entries p' ! i) = Some h \<and>
      (\<forall>k < CSPCL_CONN_POOL_SIZE. k \<noteq> i \<longrightarrow> entries p' ! k = entries p ! k)"
    using s(2,5) len by (simp add: new to_dest_def)
  ultimately show ?thesis using s(1,2,4) new by (auto intro: keeps_trans)
qed

text \<open>At most one connection per destination.\<close>

definition unique_dest :: "conn_pool \<Rightarrow> bool" where
  "unique_dest p \<longleftrightarrow>
     (\<forall>i < CSPCL_CONN_POOL_SIZE. \<forall>j < CSPCL_CONN_POOL_SIZE. used (entries p ! i) \<longrightarrow> used (entries p ! j) \<longrightarrow>
        dest_addr (entries p ! i) = dest_addr (entries p ! j) \<longrightarrow>
        dest_port (entries p ! i) = dest_port (entries p ! j) \<longrightarrow> i = j)"

lemma unique_dest_same:
  assumes "unique_dest p"
    and "\<forall>k < CSPCL_CONN_POOL_SIZE. used (entries q ! k) \<longrightarrow> used (entries p ! k) \<and>
           dest_addr (entries q ! k) = dest_addr (entries p ! k) \<and> dest_port (entries q ! k) = dest_port (entries p ! k)"
  shows "unique_dest q"
  using assms unfolding unique_dest_def by metis

lemma unique_dest_new:
  assumes "unique_dest p" and "\<forall>k < CSPCL_CONN_POOL_SIZE. \<not> to_dest da dp (entries p ! k)"
    and "\<forall>k < CSPCL_CONN_POOL_SIZE. k \<noteq> i \<longrightarrow> entries q ! k = entries p ! k" and "to_dest da dp (entries q ! i)"
  shows "unique_dest q"
  unfolding unique_dest_def
proof (intro allI impI)
  fix j k
  assume *: "j < CSPCL_CONN_POOL_SIZE" "k < CSPCL_CONN_POOL_SIZE" "used (entries q ! j)" "used (entries q ! k)"
    "dest_addr (entries q ! j) = dest_addr (entries q ! k)" "dest_port (entries q ! j) = dest_port (entries q ! k)"
  with assms show "j = k"
    by (cases "j = i"; cases "k = i") (auto simp: unique_dest_def to_dest_def)
qed

lemma pool_aged_opens:
  assumes "conn_env_ok env opens" and "pool_aged env p e w = (aged, w')"
  shows "opens w' = opens w"
  using assms(2) conn_envD(4) [OF assms(1), of w]
  by (cases "time_now env w") (auto simp: pool_aged_def Let_def split: if_splits)

text \<open>Clearing an entry and counting it.\<close>

lemma clear_entry_keeps:
  assumes env: "conn_env_ok env opens" and p: "pool_owns opens p w" and i: "i < CSPCL_CONN_POOL_SIZE"
    and c: "clear_entry env i p w = (q, v)"
  shows "keeps opens p w (upd_stats f q) v" "\<not> used (entries q ! i)" "tick q = tick p"
    "\<And>k. k \<noteq> i \<Longrightarrow> entries q ! k = entries p ! k" "opens v = opens w - set_option (conn (entries p ! i))"
proof -
  note cl = clear_entry_owns [OF env p i c]
  show "keeps opens p w (upd_stats f q) v" using cl(1,2) by (simp add: keeps_def pool_owns_def foreign_def)
  have "length (entries p) = CSPCL_CONN_POOL_SIZE" using p pool_invD(1) by (simp add: pool_owns_def)
  then show "\<not> used (entries q ! i)" "tick q = tick p" "\<And>k. k \<noteq> i \<Longrightarrow> entries q ! k = entries p ! k"
    using i by (simp_all add: cl(3))
  show "opens v = opens w - set_option (conn (entries p ! i))" by (rule cl(4))
qed

lemma unique_dest_cleared:
  assumes "unique_dest p" and "to_dest da dp (entries p ! i)" and "i < CSPCL_CONN_POOL_SIZE"
    and "\<not> used (entries q ! i)" and "\<And>k. k \<noteq> i \<Longrightarrow> entries q ! k = entries p ! k"
  shows "\<forall>k < CSPCL_CONN_POOL_SIZE. \<not> to_dest da dp (entries q ! k)"
  using assms unfolding unique_dest_def to_dest_def by metis

text \<open>
  A lookup either finds the connection or creates one, in a pool with no connection to the
  destination if there was at most one.
\<close>

lemma pool_get_or_create_cases:
  assumes env: "conn_env_ok env opens" and p: "pool_owns opens p w"
    and r: "pool_get_or_create env da dp p w = (c, p', w')"
  obtains (hit) i where "find_dest da dp 0 (entries p) = Some i" "c = conn (entries p ! i)" "opens w' = opens w"
      "p' = upd_stats (\<lambda>st. st\<lparr>hits := hits st + 1\<rparr>)
         (upd_entry i (\<lambda>e. e\<lparr>last_used := tick p + 1\<rparr>) (p\<lparr>tick := tick p + 1\<rparr>))"
  | (create) free q v where "pool_create env da dp free q v = (c, p', w')" "keeps opens p w q v" "tick q = tick p + 1"
      "\<And>i. free = Some i \<Longrightarrow> i < CSPCL_CONN_POOL_SIZE \<and> \<not> used (entries q ! i)"
      "\<forall>k < CSPCL_CONN_POOL_SIZE. used (entries q ! k) \<longrightarrow> entries q ! k = entries p ! k"
      "unique_dest p \<Longrightarrow> \<forall>k < CSPCL_CONN_POOL_SIZE. \<not> to_dest da dp (entries q ! k)"
      "\<forall>k < CSPCL_CONN_POOL_SIZE. \<not> to_dest da dp (entries p ! k) \<longrightarrow> entries q ! k = entries p ! k"
      "free = None \<Longrightarrow> \<forall>k < CSPCL_CONN_POOL_SIZE. used (entries q ! k)"
      "0 < max_conn_age_ms p \<or> find_dest da dp 0 (entries p) = None" "max_conn_age_ms q = max_conn_age_ms p"
proof -
  let ?p = "p\<lparr>tick := tick p + 1\<rparr>"
  have inv: "pool_inv p" and kp: "keeps opens p w ?p w" using p by (simp_all add: pool_owns_def keeps_def foreign_def)
  obtain found fr where sc: "pool_scan da dp 0 (entries p) None = (found, fr)" by fastforce
  note scan = pool_search(3) [OF inv sc] and dest = pool_search(2) [OF inv, of da dp]
  show thesis
  proof (cases found)
    case None
    show thesis
    proof (rule create [of fr ?p w])
      show "pool_create env da dp fr ?p w = (c, p', w')" using r None sc by (simp add: pool_get_or_create_def)
      show "\<forall>k < CSPCL_CONN_POOL_SIZE. \<not> to_dest da dp (entries ?p ! k)" using scan dest None by simp
    qed (use kp scan None in auto)
  next
    case (Some i)
    with scan dest have i: "i < CSPCL_CONN_POOL_SIZE" and di: "find_dest da dp 0 (entries p) = Some i"
      and td: "to_dest da dp (entries p ! i)" by (auto split: option.splits)
    obtain aged w1 where ag: "pool_aged env ?p (entries p ! i) w = (aged, w1)" by fastforce
    note op = pool_aged_opens [OF env ag]
    then have p1: "pool_owns opens ?p w1" "keeps opens p w ?p w1" using kp by (simp_all add: pool_owns_def keeps_def foreign_def)
    obtain q v where cl: "clear_entry env i ?p w1 = (q, v)" by fastforce
    let ?f = "\<lambda>st. st\<lparr>invalidations := invalidations st + 1\<rparr>" and ?fr = "case fr of None \<Rightarrow> Some i | Some j \<Rightarrow> Some j"
    note c = clear_entry_keeps [OF env p1(1) i cl]
    show thesis
    proof (cases aged)
      case False
      with r Some sc ag op di show thesis by (intro hit) (auto simp: pool_get_or_create_def)
    next
      case True
      show thesis
      proof (rule create [of ?fr "upd_stats ?f q" v])
        show "pool_create env da dp ?fr (upd_stats ?f q) v = (c, p', w')"
          using r Some sc ag cl True by (simp add: pool_get_or_create_def)
        show "j < CSPCL_CONN_POOL_SIZE \<and> \<not> used (entries (upd_stats ?f q) ! j)" if "?fr = Some j" for j
          using scan i c(2,4) that by (auto split: option.splits) (metis select_convs(2))
        show "\<forall>k < CSPCL_CONN_POOL_SIZE. \<not> to_dest da dp (entries p ! k) \<longrightarrow> entries (upd_stats ?f q) ! k = entries p ! k"
          "\<forall>k < CSPCL_CONN_POOL_SIZE. used (entries (upd_stats ?f q) ! k) \<longrightarrow> entries (upd_stats ?f q) ! k = entries p ! k"
          using c(2,4) td by (simp_all, metis+)
        show "0 < max_conn_age_ms p \<or> find_dest da dp 0 (entries p) = None"
          using ag True by (auto simp: pool_aged_def split: if_splits)
        show "max_conn_age_ms (upd_stats ?f q) = max_conn_age_ms p" using cl by (auto simp: clear_entry_def)
      qed (use keeps_trans [OF p1(2) c(1) [of ?f]] c(2-4) unique_dest_cleared [OF _ td i, of q] in
          \<open>simp_all split: option.splits\<close>)
    qed
  qed
qed

lemma unique_dest_create:
  assumes p: "unique_dest q" "\<forall>k < CSPCL_CONN_POOL_SIZE. \<not> to_dest da dp (entries q ! k)"
    and s: "\<forall>k < CSPCL_CONN_POOL_SIZE. k \<noteq> i \<longrightarrow> entries p' ! k = entries q ! k"
    and c: "case c of None \<Rightarrow> \<not> used (entries p' ! i) | Some h \<Rightarrow> to_dest da dp (entries p' ! i) \<and> P h"
  shows "unique_dest p'"
proof (cases c)
  case None
  have "\<forall>k < CSPCL_CONN_POOL_SIZE. used (entries p' ! k) \<longrightarrow> entries p' ! k = entries q ! k" using c s None by auto
  then show ?thesis by (rule_tac unique_dest_same [OF p(1)]) (metis (no_types, lifting))
next
  case (Some h)
  then show ?thesis using unique_dest_new [OF p s] c by simp
qed

definition pool_has :: "u8 \<Rightarrow> u8 \<Rightarrow> conn \<Rightarrow> conn_pool \<Rightarrow> bool" where
  "pool_has da dp h p \<longleftrightarrow> (\<exists>i < CSPCL_CONN_POOL_SIZE. to_dest da dp (entries p ! i) \<and> conn (entries p ! i) = Some h)"

text \<open>
  A lookup keeps the ownership and at most one connection per destination; a connection it
  returns is the pool's one to the destination.
\<close>

lemma pool_get_or_create_keeps:
  assumes env: "conn_env_ok env opens" and p: "pool_owns opens p w"
    and r: "pool_get_or_create env da dp p w = (c, p', w')"
  shows "keeps opens p w p' w'" "unique_dest p \<Longrightarrow> unique_dest p'" "c = Some h \<Longrightarrow> pool_has da dp h p'"
    "unique_dest p \<Longrightarrow> c = None \<Longrightarrow> \<forall>k < CSPCL_CONN_POOL_SIZE. \<not> to_dest da dp (entries p' ! k)"
proof -
  have inv: "pool_inv p" using p by (simp add: pool_owns_def)
  have "keeps opens p w p' w' \<and> (unique_dest p \<longrightarrow> unique_dest p') \<and> (\<forall>h. c = Some h \<longrightarrow> pool_has da dp h p') \<and>
    (unique_dest p \<longrightarrow> c = None \<longrightarrow> (\<forall>k < CSPCL_CONN_POOL_SIZE. \<not> to_dest da dp (entries p' ! k)))"
  proof (cases rule: pool_get_or_create_cases [OF env p r, case_names hit create])
    case (hit i)
    let ?p = "p\<lparr>tick := tick p + 1\<rparr>"
    have i: "i < CSPCL_CONN_POOL_SIZE" "to_dest da dp (entries p ! i)"
      using pool_search(2) [OF inv, of da dp] hit(1) by simp_all
    have len: "length (entries p) = CSPCL_CONN_POOL_SIZE" using pool_invD(1) [OF inv] .
    have "pool_inv ?p" using inv by simp
    note t = pool_touch [OF this i(1), of "tick p + 1"]
    have "keeps opens p w p' w'" using p t hit(3) by (intro keeps_same) (simp_all add: hit(4))
    moreover have "unique_dest p'" if "unique_dest p"
      using i(1) len by (rule_tac unique_dest_same [OF that]) (simp add: hit(4) nth_list_update)
    moreover have "\<forall>h. c = Some h \<longrightarrow> pool_has da dp h p'"
      using i len unfolding pool_has_def hit(2,4) by (auto simp: to_dest_def intro!: exI [of _ i])
    moreover have "c \<noteq> None" using pool_invD(5) [OF inv i(1)] i(2) by (simp add: hit(2) to_dest_def)
    ultimately show ?thesis by blast
  next
    case (create free q v)
    have q: "pool_owns opens q v" using create(2) by (simp add: keeps_def)
    obtain i where i: "i < CSPCL_CONN_POOL_SIZE" and k: "keeps opens q v p' w'"
      and s: "\<forall>k < CSPCL_CONN_POOL_SIZE. k \<noteq> i \<longrightarrow> entries p' ! k = entries q ! k"
      and c: "case c of None \<Rightarrow> \<not> used (entries p' ! i)
              | Some h \<Rightarrow> to_dest da dp (entries p' ! i) \<and> conn (entries p' ! i) = Some h"
      using pool_create_keeps [OF env q create(4,1)] by auto
    have "unique_dest p'" if u: "unique_dest p"
    proof -
      have "unique_dest q" using create(5) by (rule_tac unique_dest_same [OF u]) simp
      then show ?thesis by (rule unique_dest_create [OF _ create(6) [OF u] s c])
    qed
    moreover have "\<forall>k < CSPCL_CONN_POOL_SIZE. \<not> to_dest da dp (entries p' ! k)" if "unique_dest p" "c = None"
      using create(6) [OF that(1)] s c that(2) unfolding to_dest_def by (metis option.simps(4))
    ultimately show ?thesis using keeps_trans [OF create(2) k] c i by (auto simp: pool_has_def)
  qed
  then show "keeps opens p w p' w'" "unique_dest p \<Longrightarrow> unique_dest p'" "c = Some h \<Longrightarrow> pool_has da dp h p'"
    "unique_dest p \<Longrightarrow> c = None \<Longrightarrow> \<forall>k < CSPCL_CONN_POOL_SIZE. \<not> to_dest da dp (entries p' ! k)"
    by blast+
qed

lemma pool_has_unique:
  assumes "unique_dest p" and "pool_has da dp h p" and "i < CSPCL_CONN_POOL_SIZE" and "to_dest da dp (entries p ! i)"
  shows "conn (entries p ! i) = Some h"
  using assms unfolding pool_has_def unique_dest_def to_dest_def by metis

text \<open>Invalidation closes at most a connection of the pool.\<close>

lemma pool_invalidate_owns:
  assumes env: "conn_env_ok env opens" and p: "pool_owns opens p w" and r: "pool_invalidate env da dp p w = (p', w')"
  shows "keeps opens p w p' w'"
proof (cases "find_dest da dp 0 (entries p)")
  case None
  with r p show ?thesis by (simp add: pool_invalidate_def keeps_def)
next
  case (Some i)
  then have i: "i < CSPCL_CONN_POOL_SIZE" using p pool_search(2) [of p da dp] by (simp add: pool_owns_def)
  obtain q v where "clear_entry env i p w = (q, v)" by fastforce
  with clear_entry_keeps(1) [OF env p i this] r Some show ?thesis by (auto simp: pool_invalidate_def)
qed

text \<open>Invalidation closes and forgets the connection to the destination, if there is at most one.\<close>

lemma pool_invalidate_keeps:
  assumes env: "conn_env_ok env opens" and p: "pool_owns opens p w" and u: "unique_dest p"
    and r: "pool_invalidate env da dp p w = (p', w')"
  shows "keeps opens p w p' w'" "unique_dest p'" "\<forall>k < CSPCL_CONN_POOL_SIZE. \<not> to_dest da dp (entries p' ! k)"
    "pool_has da dp h p \<Longrightarrow> opens w' = opens w - {h}"
proof -
  have inv: "pool_inv p" using p by (simp add: pool_owns_def)
  note dest = pool_search(2) [OF inv, of da dp]
  have "keeps opens p w p' w' \<and> unique_dest p' \<and> (\<forall>k < CSPCL_CONN_POOL_SIZE. \<not> to_dest da dp (entries p' ! k)) \<and>
    (pool_has da dp h p \<longrightarrow> opens w' = opens w - {h})"
  proof (cases "find_dest da dp 0 (entries p)")
    case None
    with r dest u p show ?thesis by (auto simp: pool_invalidate_def keeps_def pool_has_def)
  next
    case (Some i)
    with dest have i: "i < CSPCL_CONN_POOL_SIZE" "to_dest da dp (entries p ! i)" by simp_all
    obtain q v where cl: "clear_entry env i p w = (q, v)" by fastforce
    note c = clear_entry_keeps [OF env p i(1) cl]
    have p': "p' = upd_stats (\<lambda>st. st\<lparr>invalidations := invalidations st + 1\<rparr>) q" "w' = v"
      using r Some cl by (simp_all add: pool_invalidate_def)
    have "\<forall>k < CSPCL_CONN_POOL_SIZE. used (entries q ! k) \<longrightarrow> entries q ! k = entries p ! k" using c(2,4) by metis
    then have "unique_dest p'" by (rule_tac unique_dest_same [OF u]) (simp add: p')
    moreover have "\<forall>k < CSPCL_CONN_POOL_SIZE. \<not> to_dest da dp (entries p' ! k)"
      using unique_dest_cleared [OF u i(2,1) c(2,4)] by (simp add: p')
    moreover have "pool_has da dp h p \<longrightarrow> opens w' = opens w - {h}"
      using pool_has_unique [OF u _ i] c(5) by (auto simp: p')
    ultimately show ?thesis using c(1) by (simp add: p')
  qed
  then show "keeps opens p w p' w'" "unique_dest p'" "\<forall>k < CSPCL_CONN_POOL_SIZE. \<not> to_dest da dp (entries p' ! k)"
    "pool_has da dp h p \<Longrightarrow> opens w' = opens w - {h}"
    by blast+
qed

text \<open>Adding an open connection that the pool does not have makes it the pool's.\<close>

lemma conn_pool_add_owns:
  assumes env: "conn_env_ok env opens" and p: "pool_owns opens p w"
    and h: "h \<in> foreign opens p w" and r: "conn_pool_add env p da dp (Some h) w = (CSPCL_OK, p', w')"
  shows "pool_owns opens p' w' \<and> foreign opens p' w' = foreign opens p w - {h} \<and> pool_has da dp h p'"
proof -
  let ?p = "p\<lparr>tick := tick p + 1\<rparr>"
  obtain w1 where l: "mutex_lock env w = (True, w1)"
    using r by (cases "mutex_lock env w") (auto simp: conn_pool_add_def split: if_splits)
  obtain slot q w2 where f: "pool_slot env (find_free 0 (entries p)) ?p w1 = (slot, q, w2)" by (metis prod_cases3)
  obtain now w3 b w4 where t: "time_now env w2 = (now, w3)" and u: "mutex_unlock env w3 = (b, w4)" by (metis surj_pair)
  let ?e = "\<lparr>used = True, dest_addr = da, dest_port = dp, conn = Some h, last_used = tick q, connected_at = now\<rparr>"
  have p': "p' = upd_entry slot (\<lambda>_. ?e) q" "w' = w4"
    using r l f t u by (auto simp: conn_pool_add_def find_free_or_evict_def split: if_splits)
  have inv: "pool_inv p" using p by (simp add: pool_owns_def)
  have p1: "pool_owns opens ?p w1" "foreign opens ?p w1 = foreign opens p w"
    using p conn_envD(5) [OF env l] by (simp_all add: pool_owns_def foreign_def)
  have "i < CSPCL_CONN_POOL_SIZE \<and> \<not> used (entries ?p ! i)" if "find_free 0 (entries p) = Some i" for i
    using pool_search(1) [OF inv] that by simp
  note s = pool_slot_keeps [OF env p1(1) this f]
  have q: "pool_inv q" "pool_conns q \<subseteq> opens w2" "opens w2 - pool_conns q = foreign opens p w"
    using s(1) p1(2) by (simp_all add: keeps_def pool_owns_def foreign_def)
  have op: "opens w4 = opens w2" using conn_envD(4) [OF env t] conn_envD(6) [OF env u] by simp
  have "h \<notin> pool_conns q" "h \<in> opens w2" using h q(3) by blast+
  moreover from this(1) have "pool_inv p'" "pool_conns p' = insert h (pool_conns q)"
    using pool_fill [OF q(1) s(2,3), of h ?e] by (simp_all add: p')
  moreover have "pool_has da dp h p'"
    using s(2) pool_invD(1) [OF q(1)] unfolding pool_has_def by (auto simp: p' to_dest_def intro!: exI [of _ slot])
  ultimately show ?thesis using q op unfolding pool_owns_def foreign_def p'(2) by auto
qed

lemma cleanup_entries_result:
  assumes "conn_env_ok env opens"
  shows "cleanup_entries env es w = (es', w') \<Longrightarrow>
    es' = map (\<lambda>e. e\<lparr>used := False, conn := None\<rparr>) es \<and> opens w' = opens w - slot_set (map entry_slot es)"
proof (induction es arbitrary: w es' w')
  case Nil
  then show ?case by (simp add: slot_set_def)
next
  case (Cons e es)
  let ?w = "if used e then case conn e of Some h \<Rightarrow> csp_close env h w | None \<Rightarrow> w else w"
  obtain fs v where r: "cleanup_entries env es ?w = (fs, v)" by fastforce
  have "opens ?w = opens w - set_option (entry_slot e)"
    using conn_envD(3) [OF assms] by (auto simp: entry_slot_def split: option.splits)
  moreover have "slot_set (map entry_slot (e # es)) = set_option (entry_slot e) \<union> slot_set (map entry_slot es)"
    by (auto simp: slot_set_def)
  ultimately show ?case using Cons.IH [OF r] Cons.prems r by (auto simp: Let_def split: prod.splits)
qed

text \<open>Cleaning up closes exactly the connections of the pool and leaves it empty.\<close>

lemma conn_pool_cleanup_closes:
  assumes env: "conn_env_ok env opens" and p: "pool_owns opens p w" "pool_initialized p"
    and l: "fst (mutex_lock env w)" and r: "conn_pool_cleanup env p w = (p', w')"
  shows "opens w' = foreign opens p w \<and> pool_owns opens p' w' \<and> pool_conns p' = {} \<and> \<not> pool_initialized p'"
proof -
  obtain w1 where w1: "mutex_lock env w = (True, w1)" using l by (cases "mutex_lock env w") auto
  obtain es w2 where c: "cleanup_entries env (entries p) w1 = (es, w2)" by fastforce
  obtain b w3 where u: "mutex_unlock env w2 = (b, w3)" by fastforce
  note ce = cleanup_entries_result [OF env c]
  have p': "p' = p\<lparr>entries := es, pool_initialized := False\<rparr>" "w' = mutex_destroy env w3"
    using r p(2) w1 c u by (auto simp: conn_pool_cleanup_def)
  have sl: "pool_slots p' = map (\<lambda>_. None) (entries p)"
    using ce by (simp add: p' pool_slots_def entry_slot_def comp_def)
  then have "pool_conns p' = {}" by (simp add: pool_conns_def slot_set_def image_def)
  moreover have "pool_inv p'"
    using p(1) ce unfolding pool_owns_def pool_inv_def sl by (simp add: p' slots_distinct_def)
  moreover have "opens w' = foreign opens p w"
    using ce conn_envD(5) [OF env w1] conn_envD(6) [OF env u] conn_envD(7) [OF env]
    by (simp add: p' foreign_def pool_conns_def pool_slots_def)
  ultimately show ?thesis by (simp add: pool_owns_def p')
qed

text \<open>A pool just initialized owns nothing.\<close>

lemma fresh_pool:
  assumes "entries p = replicate CSPCL_CONN_POOL_SIZE entry_zero"
  shows "pool_owns opens p w \<and> pool_conns p = {} \<and> unique_dest p"
proof -
  have sl: "pool_slots p = replicate CSPCL_CONN_POOL_SIZE None"
    by (simp add: assms pool_slots_def entry_zero_def entry_slot_def)
  show ?thesis
    using assms unfolding pool_owns_def pool_inv_def pool_conns_def sl unique_dest_def
    by (auto simp: slot_set_def slots_distinct_def entry_zero_def)
qed

lemma conn_pool_init_entries:
  assumes "conn_pool_init env max_age w = (code, p, w')"
  shows "entries p = replicate CSPCL_CONN_POOL_SIZE entry_zero" "pool_initialized p \<longleftrightarrow> code = CSPCL_OK"
    "w' = snd (mutex_init env w)"
  using assms by (auto simp: conn_pool_init_def pool_zero_def split: prod.splits if_splits)

lemma conn_pool_init_owns:
  assumes "conn_env_ok env opens" and "conn_pool_init env max_age w = (CSPCL_OK, p, w')"
  shows "pool_owns opens p w' \<and> pool_conns p = {} \<and> unique_dest p \<and> pool_initialized p"
  using fresh_pool conn_pool_init_entries [OF assms(2)] by simp

end
