(* ===== verification/SysTypes.thy ===== *)
theory SysTypes
  imports CspclError
begin

text \<open>
  The crate \<open>cspcl-sys\<close> (\<open>rust-bindings/cspcl-sys/src/types.rs\<close> and \<open>primitive.rs\<close>):
  the configuration types, the C instance that \<open>configure\<close> fills in, and the wrappers that
  turn C return codes and out-parameters into results. The C functions are arguments: each one
  takes the state of the C world and returns its code, its out-parameters and the next state.
\<close>

section \<open>Configuration\<close>

datatype interface_config = Zmq rstr | Can rstr | Loopback

definition interface_config_default :: interface_config where
  "interface_config_default = Loopback"

definition zmq :: "rstr \<Rightarrow> interface_config" where "zmq interface_name = Zmq interface_name"
definition can :: "rstr \<Rightarrow> interface_config" where "can interface_name = Can interface_name"
definition loopback :: interface_config where "loopback = Loopback"

record cspcl_config =
  cfg_local_addr :: u8
  cfg_csp_port :: u8
  cfg_interface :: interface_config

text \<open>
  The fields of the C \<open>cspcl_t\<close> that Rust code sets or reads. The char arrays have
  \<open>CSP_IFACE_PARAM_MAX\<close> elements; an \<open>i8\<close> is its bit pattern.
\<close>

definition CSP_IFACE_PARAM_MAX :: nat where "CSP_IFACE_PARAM_MAX = 64"

abbreviation CSP_IFACE_ZMQHUB :: u32 where "CSP_IFACE_ZMQHUB \<equiv> 0"
abbreviation CSP_IFACE_CAN :: u32 where "CSP_IFACE_CAN \<equiv> 1"
abbreviation CSP_IFACE_LOOPBACK :: u32 where "CSP_IFACE_LOOPBACK \<equiv> 2"

record cspcl_t =
  c_initialized :: bool
  c_local_addr :: u8
  c_rx_socket :: bool
  c_csp_port :: u8
  c_iface_type :: u32
  c_zmqhub_addr :: "u8 list"
  c_can_iface :: "u8 list"

text \<open>\<open>cspcl_t::default()\<close>: bindgen zeroes the structure.\<close>

definition cspcl_t_default :: cspcl_t where
  "cspcl_t_default =
     \<lparr>c_initialized = False, c_local_addr = 0, c_rx_socket = False, c_csp_port = 0,
      c_iface_type = 0, c_zmqhub_addr = replicate CSP_IFACE_PARAM_MAX 0,
      c_can_iface = replicate CSP_IFACE_PARAM_MAX 0\<rparr>"

text \<open>\<open>str::bytes\<close>.\<close>

definition str_bytes :: "rstr \<Rightarrow> u8 list" where
  "str_bytes s = map of_char s"

text \<open>The loop of \<open>copy_c_string\<close>, which a zero byte ends.\<close>

fun copy_c_loop :: "nat \<Rightarrow> u8 list \<Rightarrow> u8 list \<Rightarrow> u8 list" where
  "copy_c_loop idx dest [] = dest"
| "copy_c_loop idx dest (byte # bytes) =
     (if byte = 0 then dest else copy_c_loop (Suc idx) (dest[idx := byte]) bytes)"

definition copy_c_string :: "nat \<Rightarrow> rstr \<Rightarrow> u8 list" where
  "copy_c_string n src = copy_c_loop 0 (replicate n 0) (take (n - 1) (str_bytes src))"

definition configure :: "cspcl_config \<Rightarrow> cspcl_t" where
  "configure config =
     (let cspcl = cspcl_t_default\<lparr>c_local_addr := cfg_local_addr config, c_csp_port := cfg_csp_port config\<rparr>
      in case cfg_interface config of
           Zmq interface_name \<Rightarrow>
             cspcl\<lparr>c_iface_type := CSP_IFACE_ZMQHUB,
                   c_zmqhub_addr := copy_c_string CSP_IFACE_PARAM_MAX interface_name\<rparr>
         | Can interface_name \<Rightarrow>
             cspcl\<lparr>c_iface_type := CSP_IFACE_CAN,
                   c_can_iface := copy_c_string CSP_IFACE_PARAM_MAX interface_name\<rparr>
         | Loopback \<Rightarrow> cspcl\<lparr>c_iface_type := CSP_IFACE_LOOPBACK\<rparr>)"

section \<open>Return codes\<close>

definition ok_or_err :: "cspcl_error_t \<Rightarrow> (cspcl_error_t, unit) rresult" where
  "ok_or_err code = (if code = CSPCL_OK then Inr () else Inl code)"

section \<open>Calls of the C functions\<close>

text \<open>
  The functions of \<open>primitive.rs\<close>. A C function gets its arguments with the initial values of its
  out-parameters, and the state of the C world; it returns its code, the out-parameters as it
  leaves them, and the next state. A pointer to a connection is null or a handle. A buffer is
  passed with its length.
\<close>

type_synonym 'h ptr = "'h option"

type_synonym 'w c_init = "cspcl_t \<Rightarrow> 'w \<Rightarrow> cspcl_error_t \<times> cspcl_t \<times> 'w"
type_synonym 'w c_send = "u8 list \<Rightarrow> nat \<Rightarrow> u8 \<Rightarrow> u8 \<Rightarrow> 'w \<Rightarrow> cspcl_error_t \<times> 'w"
type_synonym ('h, 'w) c_accept =
  "'h ptr \<Rightarrow> u8 \<Rightarrow> u8 \<Rightarrow> u32 \<Rightarrow> 'w \<Rightarrow> cspcl_error_t \<times> 'h ptr \<times> u8 \<times> u8 \<times> 'w"
type_synonym 'w c_recv =
  "u8 list \<Rightarrow> nat \<Rightarrow> u8 \<Rightarrow> u8 \<Rightarrow> u32 \<Rightarrow> 'w \<Rightarrow> cspcl_error_t \<times> u8 list \<times> nat \<times> u8 \<times> u8 \<times> 'w"
type_synonym ('h, 'w) c_recv_from_conn =
  "'h ptr \<Rightarrow> u8 list \<Rightarrow> nat \<Rightarrow> u8 \<Rightarrow> u8 \<Rightarrow> u8 \<Rightarrow> u8 \<Rightarrow> 'w \<Rightarrow>
   cspcl_error_t \<times> u8 list \<times> nat \<times> u8 \<times> u8 \<times> 'w"

definition prim_init :: "'w c_init \<Rightarrow> cspcl_t \<Rightarrow> 'w \<Rightarrow> cspcl_error_t \<times> cspcl_t \<times> 'w" where
  "prim_init cspcl_init cspcl w = cspcl_init cspcl w"

definition prim_send_bundle_raw ::
  "'w c_send \<Rightarrow> u8 list \<Rightarrow> u8 \<Rightarrow> u8 \<Rightarrow> 'w \<Rightarrow> cspcl_error_t \<times> 'w" where
  "prim_send_bundle_raw cspcl_send_bundle bundle dest_addr dest_port w =
     cspcl_send_bundle bundle (length bundle) dest_addr dest_port w"

definition prim_recv_bundle ::
  "'w c_recv \<Rightarrow> u8 list \<Rightarrow> u32 \<Rightarrow> 'w \<Rightarrow> (cspcl_error_t \<times> nat \<times> u8 \<times> u8) \<times> u8 list \<times> 'w" where
  "prim_recv_bundle cspcl_recv_bundle buffer timeout_ms w =
     (let (code, buffer', len, src_addr, src_port, w') =
        cspcl_recv_bundle buffer (length buffer) 0 0 timeout_ms w
      in ((code, len, src_addr, src_port), buffer', w'))"

definition prim_accept_conn_raw ::
  "('h, 'w) c_accept \<Rightarrow> u32 \<Rightarrow> 'w \<Rightarrow> (cspcl_error_t \<times> 'h ptr \<times> u8 \<times> u8) \<times> 'w" where
  "prim_accept_conn_raw cspcl_accept_conn timeout_ms w =
     (let (code, conn, src_addr, src_port, w') = cspcl_accept_conn None 0 0 timeout_ms w
      in ((code, conn, src_addr, src_port), w'))"

definition prim_recv_bundle_from_conn ::
  "('h, 'w) c_recv_from_conn \<Rightarrow> 'h ptr \<Rightarrow> u8 list \<Rightarrow> u8 \<Rightarrow> u8 \<Rightarrow> 'w \<Rightarrow>
   (cspcl_error_t \<times> nat \<times> u8 \<times> u8) \<times> u8 list \<times> 'w" where
  "prim_recv_bundle_from_conn c_recv conn buffer pkt_src_addr pkt_src_port w =
     (let (code, buffer', len, src_addr, src_port, w') =
        c_recv conn buffer (length buffer) 0 0 pkt_src_addr pkt_src_port w
      in ((code, len, src_addr, src_port), buffer', w'))"

definition prim_conn_pool_add ::
  "('p \<Rightarrow> u8 \<Rightarrow> u8 \<Rightarrow> 'h ptr \<Rightarrow> 'w \<Rightarrow> cspcl_error_t \<times> 'p \<times> 'w) \<Rightarrow> 'p \<Rightarrow> u8 \<Rightarrow> u8 \<Rightarrow> 'h ptr \<Rightarrow> 'w \<Rightarrow>
   cspcl_error_t \<times> 'p \<times> 'w" where
  "prim_conn_pool_add cspcl_conn_pool_add pool dest_addr dest_port conn w =
     cspcl_conn_pool_add pool dest_addr dest_port conn w"

text \<open>
  The calls that return nothing: on the instance, which they change, and \<open>csp_close\<close>. The safe functions
  pass the call on to the ones on pointers.
\<close>

definition prim_cleanup :: "('c \<Rightarrow> 'w \<Rightarrow> 'c \<times> 'w) \<Rightarrow> 'c \<Rightarrow> 'w \<Rightarrow> 'c \<times> 'w" where
  "prim_cleanup cspcl_cleanup cspcl w = cspcl_cleanup cspcl w"

definition prim_close_rx_socket_raw :: "('c \<Rightarrow> 'c) \<Rightarrow> 'c \<Rightarrow> 'c" where
  "prim_close_rx_socket_raw cspcl_close_rx_socket cspcl = cspcl_close_rx_socket cspcl"

definition prim_close_rx_socket :: "('c \<Rightarrow> 'c) \<Rightarrow> 'c \<Rightarrow> 'c" where
  "prim_close_rx_socket cspcl_close_rx_socket cspcl = prim_close_rx_socket_raw cspcl_close_rx_socket cspcl"

definition prim_send_bundle :: "'w c_send \<Rightarrow> u8 list \<Rightarrow> u8 \<Rightarrow> u8 \<Rightarrow> 'w \<Rightarrow> cspcl_error_t \<times> 'w" where
  "prim_send_bundle cspcl_send_bundle bundle dest_addr dest_port w =
     prim_send_bundle_raw cspcl_send_bundle bundle dest_addr dest_port w"

definition prim_accept_conn ::
  "('h, 'w) c_accept \<Rightarrow> u32 \<Rightarrow> 'w \<Rightarrow> (cspcl_error_t \<times> 'h ptr \<times> u8 \<times> u8) \<times> 'w" where
  "prim_accept_conn cspcl_accept_conn timeout_ms w = prim_accept_conn_raw cspcl_accept_conn timeout_ms w"

definition prim_close_conn :: "('h ptr \<Rightarrow> 'w \<Rightarrow> 'w) \<Rightarrow> 'h ptr \<Rightarrow> 'w \<Rightarrow> 'w" where
  "prim_close_conn csp_close conn w = csp_close conn w"

text \<open>What C reads from a char array: the bytes up to the first zero.\<close>

definition c_string :: "u8 list \<Rightarrow> u8 list" where
  "c_string arr = takeWhile (\<lambda>b. b \<noteq> 0) arr"

text \<open>\<open>primitive::error_message\<close>; \<open>is_utf8\<close> decides \<open>CStr::to_str\<close>.\<close>

definition prim_error_message ::
  "(cspcl_error_t \<Rightarrow> u8 list) \<Rightarrow> (u8 list \<Rightarrow> bool) \<Rightarrow> cspcl_error_t \<Rightarrow> u8 list" where
  "prim_error_message cspcl_strerror is_utf8 code =
     (let s = c_string (cspcl_strerror code) in if is_utf8 s then s else str_bytes ''Unknown error'')"

section \<open>Wrappers\<close>

text \<open>The functions of \<open>types.rs\<close>.\<close>

definition sys_init_instance :: "'w c_init \<Rightarrow> cspcl_t \<Rightarrow> 'w \<Rightarrow> (cspcl_error_t, unit) rresult \<times> cspcl_t \<times> 'w" where
  "sys_init_instance cspcl_init cspcl w =
     (let (code, cspcl', w') = prim_init cspcl_init cspcl w in (ok_or_err code, cspcl', w'))"

definition init_from_config ::
  "'w c_init \<Rightarrow> cspcl_config \<Rightarrow> 'w \<Rightarrow> (cspcl_error_t, cspcl_t) rresult \<times> 'w" where
  "init_from_config cspcl_init config w =
     (let (r, cspcl, w') = sys_init_instance cspcl_init (configure config) w
      in (map_ok (\<lambda>_. cspcl) r, w'))"

definition send_bundle_raw ::
  "'w c_send \<Rightarrow> u8 list \<Rightarrow> u8 \<Rightarrow> u8 \<Rightarrow> 'w \<Rightarrow> (cspcl_error_t, unit) rresult \<times> 'w" where
  "send_bundle_raw cspcl_send_bundle bundle dest_addr dest_port w =
     (let (code, w') = prim_send_bundle_raw cspcl_send_bundle bundle dest_addr dest_port w
      in (ok_or_err code, w'))"

definition sys_conn_pool_add ::
  "('p \<Rightarrow> u8 \<Rightarrow> u8 \<Rightarrow> 'h ptr \<Rightarrow> 'w \<Rightarrow> cspcl_error_t \<times> 'p \<times> 'w) \<Rightarrow> 'p \<Rightarrow> u8 \<Rightarrow> u8 \<Rightarrow> 'h ptr \<Rightarrow> 'w \<Rightarrow>
   (cspcl_error_t, unit) rresult \<times> 'p \<times> 'w" where
  "sys_conn_pool_add cspcl_conn_pool_add pool dest_addr dest_port conn w =
     (let (code, pool', w') = prim_conn_pool_add cspcl_conn_pool_add pool dest_addr dest_port conn w
      in (ok_or_err code, pool', w'))"

definition sys_cleanup :: "('c \<Rightarrow> 'w \<Rightarrow> 'c \<times> 'w) \<Rightarrow> 'c \<Rightarrow> 'w \<Rightarrow> 'c \<times> 'w" where
  "sys_cleanup cspcl_cleanup cspcl w = prim_cleanup cspcl_cleanup cspcl w"

definition sys_close_rx_socket :: "('c \<Rightarrow> 'c) \<Rightarrow> 'c \<Rightarrow> 'c" where
  "sys_close_rx_socket cspcl_close_rx_socket cspcl = prim_close_rx_socket cspcl_close_rx_socket cspcl"

definition sys_close_rx_socket_raw :: "('c \<Rightarrow> 'c) \<Rightarrow> 'c \<Rightarrow> 'c" where
  "sys_close_rx_socket_raw cspcl_close_rx_socket cspcl = prim_close_rx_socket_raw cspcl_close_rx_socket cspcl"

definition sys_send_bundle ::
  "'w c_send \<Rightarrow> u8 list \<Rightarrow> u8 \<Rightarrow> u8 \<Rightarrow> 'w \<Rightarrow> (cspcl_error_t, unit) rresult \<times> 'w" where
  "sys_send_bundle cspcl_send_bundle bundle dest_addr dest_port w =
     (let (code, w') = prim_send_bundle cspcl_send_bundle bundle dest_addr dest_port w
      in (ok_or_err code, w'))"

text \<open>An accepted connection: the C handle with the peer's address and source port.\<close>

record 'h accepted_conn =
  ac_conn :: "'h ptr"
  ac_src_addr :: u8
  ac_src_port :: u8

text \<open>\<open>AcceptedConn::into_raw\<close> gives the handle away; dropping the value closes it.\<close>

definition into_raw :: "'h accepted_conn \<Rightarrow> 'h ptr" where
  "into_raw accepted = ac_conn accepted"

definition accepted_conn_drop :: "('h ptr \<Rightarrow> 'w \<Rightarrow> 'w) \<Rightarrow> 'h accepted_conn \<Rightarrow> 'w \<Rightarrow> 'w" where
  "accepted_conn_drop csp_close accepted w = prim_close_conn csp_close (ac_conn accepted) w"

definition accept_conn_raw ::
  "('h, 'w) c_accept \<Rightarrow> u32 \<Rightarrow> 'w \<Rightarrow> (cspcl_error_t, 'h accepted_conn) rresult \<times> 'w" where
  "accept_conn_raw cspcl_accept_conn timeout_ms w =
     (let ((code, conn, src_addr, src_port), w') = prim_accept_conn_raw cspcl_accept_conn timeout_ms w
      in (map_ok (\<lambda>_. \<lparr>ac_conn = conn, ac_src_addr = src_addr, ac_src_port = src_port\<rparr>) (ok_or_err code), w'))"

definition recv_bundle_from_conn_into ::
  "('h, 'w) c_recv_from_conn \<Rightarrow> 'h accepted_conn \<Rightarrow> u8 list \<Rightarrow> 'w \<Rightarrow>
   (cspcl_error_t, nat) rresult \<times> u8 list \<times> 'w" where
  "recv_bundle_from_conn_into c_recv accepted buffer w =
     (let ((code, len, _, _), buffer', w') =
        prim_recv_bundle_from_conn c_recv (ac_conn accepted) buffer (ac_src_addr accepted)
          (ac_src_port accepted) w
      in (map_ok (\<lambda>_. len) (ok_or_err code), buffer', w'))"

definition accept_conn ::
  "('h, 'w) c_accept \<Rightarrow> u32 \<Rightarrow> 'w \<Rightarrow> (cspcl_error_t, 'h accepted_conn) rresult \<times> 'w" where
  "accept_conn cspcl_accept_conn timeout_ms w = accept_conn_raw cspcl_accept_conn timeout_ms w"

record received_bundle =
  rb_buffer :: "u8 list"
  rb_len :: nat
  rb_src_addr :: u8
  rb_src_port :: u8

text \<open>\<open>recv_bundle\<close> returns a copy of the whole buffer.\<close>

definition recv_bundle ::
  "'w c_recv \<Rightarrow> u8 list \<Rightarrow> u32 \<Rightarrow> 'w \<Rightarrow> (cspcl_error_t, received_bundle) rresult \<times> u8 list \<times> 'w" where
  "recv_bundle cspcl_recv_bundle buffer timeout_ms w =
     (let ((code, len, src_addr, src_port), buffer', w') = prim_recv_bundle cspcl_recv_bundle buffer timeout_ms w
      in (map_ok (\<lambda>_. \<lparr>rb_buffer = buffer', rb_len = len, rb_src_addr = src_addr,
            rb_src_port = src_port\<rparr>) (ok_or_err code), buffer', w'))"

text \<open>Slicing \<open>buffer[..len]\<close> panics out of range.\<close>

datatype 'a outcome = Returns 'a | Panics

definition slice_to :: "'a list \<Rightarrow> nat \<Rightarrow> 'a list outcome" where
  "slice_to xs n = (if n \<le> length xs then Returns (take n xs) else Panics)"

definition received_bundle_data :: "received_bundle \<Rightarrow> u8 list outcome" where
  "received_bundle_data b = slice_to (rb_buffer b) (rb_len b)"

definition CSPCL_MAX_BUNDLE_SIZE :: nat where "CSPCL_MAX_BUNDLE_SIZE = 65535"

text \<open>\<open>types::recv_bundle_from_conn\<close>: a fresh buffer, truncated to the bundle.\<close>

definition sys_recv_bundle_from_conn ::
  "('h, 'w) c_recv_from_conn \<Rightarrow> 'h accepted_conn \<Rightarrow> 'w \<Rightarrow> (cspcl_error_t, received_bundle) rresult \<times> 'w" where
  "sys_recv_bundle_from_conn c_recv accepted w =
     (let (r, buffer, w') = recv_bundle_from_conn_into c_recv accepted (replicate CSPCL_MAX_BUNDLE_SIZE 0) w
      in (map_ok (\<lambda>len. \<lparr>rb_buffer = take len buffer, rb_len = len, rb_src_addr = ac_src_addr accepted,
            rb_src_port = ac_src_port accepted\<rparr>) r, w'))"

text \<open>
  \<open>rdp_conn_timeout_ms\<close>: \<open>csp_rdp_get_opt\<close> writes the one output it is given, here a variable that
  starts at 0.
\<close>

definition rdp_conn_timeout_ms :: "(u32 \<Rightarrow> 'w \<Rightarrow> u32 \<times> 'w) \<Rightarrow> 'w \<Rightarrow> u32 \<times> 'w" where
  "rdp_conn_timeout_ms csp_rdp_get_opt w = csp_rdp_get_opt 0 w"

section \<open>Lemmas\<close>

lemmas prim_defs = prim_init_def prim_send_bundle_raw_def prim_recv_bundle_def prim_accept_conn_raw_def
  prim_recv_bundle_from_conn_def prim_conn_pool_add_def prim_cleanup_def prim_close_rx_socket_raw_def
  prim_close_rx_socket_def prim_send_bundle_def prim_accept_conn_def prim_close_conn_def

lemma copy_c_loop_eq:
  "idx + length bytes \<le> length dest \<Longrightarrow>
   copy_c_loop idx dest bytes =
     take idx dest @ takeWhile (\<lambda>b. b \<noteq> 0) bytes @ drop (idx + length (takeWhile (\<lambda>b. b \<noteq> 0) bytes)) dest"
proof (induction bytes arbitrary: idx dest)
  case (Cons b bytes)
  then show ?case
    by (simp add: take_Suc_conv_app_nth take_update_swap drop_update_swap list_update_append)
qed simp

lemma copy_c_string_eq:
  "copy_c_string n src =
     takeWhile (\<lambda>b. b \<noteq> 0) (take (n - 1) (str_bytes src)) @
     replicate (n - length (takeWhile (\<lambda>b. b \<noteq> 0) (take (n - 1) (str_bytes src)))) 0"
  by (simp add: copy_c_string_def copy_c_loop_eq)

lemma takeWhile_zeros: "takeWhile (\<lambda>b. b \<noteq> 0) (takeWhile (\<lambda>b. b \<noteq> 0) xs @ replicate k 0) =
    takeWhile (\<lambda>b. b \<noteq> (0 :: u8)) xs"
proof (induction xs)
  case Nil
  show ?case by (cases k) simp_all
qed simp

lemma c_string_copy:
  assumes "length name \<le> 63" and "0 \<notin> set (str_bytes name)"
  shows "c_string (copy_c_string CSP_IFACE_PARAM_MAX name) = str_bytes name"
proof -
  have "takeWhile (\<lambda>b. b \<noteq> 0) (take 63 (str_bytes name)) = str_bytes name"
    using assms by (auto simp: str_bytes_def takeWhile_eq_all_conv)
  then show ?thesis
    unfolding c_string_def copy_c_string_eq takeWhile_zeros by (simp add: CSP_IFACE_PARAM_MAX_def)
qed

lemma length_takeWhile_take: "length (takeWhile P (take k xs)) \<le> k"
  by (rule le_trans [OF length_takeWhile_le]) simp

text \<open>
  The copied interface name always fits the C array and ends with a zero byte inside it,
  and what C reads from it is the name up to its first zero byte, cut to one byte less than
  the array.
\<close>

theorem copy_c_string_terminated:
  assumes "0 < n"
  shows "length (copy_c_string n src) = n \<and> last (copy_c_string n src) = 0 \<and>
    c_string (copy_c_string n src) = takeWhile (\<lambda>b. b \<noteq> 0) (take (n - 1) (str_bytes src))"
proof -
  let ?w = "takeWhile (\<lambda>b. b \<noteq> 0) (take (n - 1) (str_bytes src))"
  have "length ?w \<le> n - 1" by (rule length_takeWhile_take)
  then have less: "length ?w < n" using assms by simp
  then show ?thesis
    unfolding c_string_def copy_c_string_eq takeWhile_zeros by (simp add: last_append)
qed

theorem copy_c_string_terminated_witness:
  "c_string (copy_c_string 4 ''vcan0'') = [118, 99, 97]"
  using copy_c_string_terminated [of 4 "''vcan0''"] by (simp add: str_bytes_def)

text \<open>
  An interface name of at most 63 bytes without a zero byte reaches C unchanged, in the
  field that belongs to its interface type, with the configured address and port; the instance
  is not initialized yet and has no receive socket.
\<close>

theorem configure_passes_name:
  assumes "length name \<le> 63" and "0 \<notin> set (str_bytes name)"
    and "cfg_interface config = Zmq name \<or> cfg_interface config = Can name"
  shows "c_local_addr (configure config) = cfg_local_addr config \<and>
    c_csp_port (configure config) = cfg_csp_port config \<and>
    \<not> c_initialized (configure config) \<and> \<not> c_rx_socket (configure config) \<and>
    (case cfg_interface config of
       Zmq _ \<Rightarrow> c_iface_type (configure config) = CSP_IFACE_ZMQHUB \<and>
         c_string (c_zmqhub_addr (configure config)) = str_bytes name
     | Can _ \<Rightarrow> c_iface_type (configure config) = CSP_IFACE_CAN \<and>
         c_string (c_can_iface (configure config)) = str_bytes name
     | Loopback \<Rightarrow> False)"
  using c_string_copy [OF assms(1,2)] assms(3)
  by (auto simp: configure_def cspcl_t_default_def Let_def)

theorem configure_passes_name_witness:
  "c_string (c_can_iface (configure \<lparr>cfg_local_addr = 1, cfg_csp_port = 10, cfg_interface = Can ''vcan0''\<rparr>))
     = [118, 99, 97, 110, 48]"
  using configure_passes_name [of "''vcan0''"
    "\<lparr>cfg_local_addr = 1, cfg_csp_port = 10, cfg_interface = Can ''vcan0''\<rparr>"]
  by (simp add: str_bytes_def)

end
