(* ===== verification/CSend.thy ===== *)
theory CSend
  imports CPool SysTypes
begin

text \<open>
  Sending a bundle in the C core (\<open>cspcl_send_bundle\<close> of \<open>src/cspcl.c\<close>): transmission with SFP, the
  wait for the peer's acknowledgement, and one retry on a fresh connection.
\<close>

section \<open>The environment of a send\<close>

text \<open>
  libcsp's \<open>csp_sfp_send\<close>, \<open>csp_read\<close> and \<open>csp_buffer_free\<close>, and the two codes the core compares
  with. A packet is its data.
\<close>

record 'w send_env = "'w conn_env" +
  csp_sfp_send :: "conn \<Rightarrow> u8 list \<Rightarrow> u32 \<Rightarrow> u32 \<Rightarrow> u32 \<Rightarrow> 'w \<Rightarrow> int \<times> 'w"
  csp_read :: "conn \<Rightarrow> u32 \<Rightarrow> 'w \<Rightarrow> u8 list option \<times> 'w"
  csp_buffer_free :: "u8 list \<Rightarrow> 'w \<Rightarrow> 'w"
  csp_err_none :: int
  csp_err_timedout :: int

section \<open>The operations\<close>

definition CSPCL_CSP_TIMEOUT_MS :: u32 where "CSPCL_CSP_TIMEOUT_MS = 1000"
definition CSPCL_ACK_TIMEOUT_MS :: u32 where "CSPCL_ACK_TIMEOUT_MS = 5000"
definition CSPCL_MAX_PAYLOAD :: u32 where "CSPCL_MAX_PAYLOAD = 256 - 8 - 5"

definition wait_ack :: "('w, 'm) send_env_scheme \<Rightarrow> conn \<Rightarrow> u32 \<Rightarrow> 'w \<Rightarrow> int \<times> 'w" where
  "wait_ack env h timeout_ms w =
     (let (packet, w1) = csp_read env h timeout_ms w
      in case packet of
           None \<Rightarrow> (csp_err_timedout env, w1)
         | Some pk \<Rightarrow> (csp_err_none env, csp_buffer_free env pk w1))"

definition send_and_confirm ::
  "('w, 'm) send_env_scheme \<Rightarrow> conn \<Rightarrow> u8 list \<Rightarrow> nat \<Rightarrow> 'w \<Rightarrow> int \<times> 'w" where
  "send_and_confirm env h bundle len w =
     (let (ret, w1) = csp_sfp_send env h bundle (of_nat len) CSPCL_MAX_PAYLOAD CSPCL_CSP_TIMEOUT_MS w
      in if ret \<noteq> csp_err_none env then (ret, w1)
         else wait_ack env h CSPCL_ACK_TIMEOUT_MS w1)"

text \<open>
  The loop of \<open>cspcl_send_bundle\<close>, from a given attempt on; it returns \<open>conn_failed\<close> and \<open>ret\<close>
  with the pool.
\<close>

function send_attempts ::
  "('w, 'm) send_env_scheme \<Rightarrow> u8 list \<Rightarrow> nat \<Rightarrow> u8 \<Rightarrow> u8 \<Rightarrow> nat \<Rightarrow> int \<Rightarrow> conn_pool \<Rightarrow> 'w \<Rightarrow>
   bool \<times> int \<times> conn_pool \<times> 'w" where
  "send_attempts env bundle len da dp attempt ret p w =
     (if attempt < 2 then
        let (c, p1, w1) = pool_get_or_create env da dp p w
        in case c of
             None \<Rightarrow> (attempt = 0, ret, p1, w1)
           | Some h \<Rightarrow>
               let (ret', w2) = send_and_confirm env h bundle len w1
               in if ret' = csp_err_none env then (False, ret', p1, w2)
                  else let (p2, w3) = pool_invalidate env da dp p1 w2
                       in send_attempts env bundle len da dp (attempt + 1) ret' p2 w3
      else (False, ret, p, w))"
  by pat_completeness auto
termination
  by (relation "measure (\<lambda>(env, bundle, len, da, dp, attempt, ret, p, w). 2 - attempt)") auto

declare send_attempts.simps [simp del]

text \<open>
  The fields of \<open>cspcl_t\<close> that a send uses. A null bundle is \<open>None\<close>; otherwise it is a buffer of at
  least \<open>len\<close> bytes.
\<close>

record send_state =
  initialized :: bool
  pool :: conn_pool

definition c_send_bundle ::
  "('w, 'm) send_env_scheme \<Rightarrow> u8 list option \<Rightarrow> nat \<Rightarrow> u8 \<Rightarrow> u8 \<Rightarrow> send_state \<times> 'w \<Rightarrow>
   cspcl_error_t \<times> send_state \<times> 'w" where
  "c_send_bundle env bundle_ptr len da dp = (\<lambda>(s, w).
     case bundle_ptr of
       None \<Rightarrow> (CSPCL_ERR_INVALID_PARAM, s, w)
     | Some bundle \<Rightarrow>
       if len = 0 then (CSPCL_ERR_INVALID_PARAM, s, w)
       else if \<not> initialized s then (CSPCL_ERR_NOT_INITIALIZED, s, w)
       else if CSPCL_MAX_BUNDLE_SIZE < len then (CSPCL_ERR_BUNDLE_TOO_LARGE, s, w)
       else if \<not> pool_initialized (pool s) then (CSPCL_ERR_NOT_INITIALIZED, s, w)
       else
         let (locked, w1) = mutex_lock env w
         in if \<not> locked then (CSPCL_ERR_CONNECTION, s, w1)
            else
              let (conn_failed, ret, p', w2) =
                    send_attempts env bundle len da dp 0 (csp_err_timedout env) (pool s) w1;
                  w3 = snd (mutex_unlock env w2);
                  code = (if conn_failed then CSPCL_ERR_CONNECTION
                          else if ret = csp_err_timedout env then CSPCL_ERR_TIMEOUT
                          else if ret \<noteq> csp_err_none env then CSPCL_ERR_CSP_SEND
                          else CSPCL_OK)
              in (code, s\<lparr>pool := p'\<rparr>, w3))"

section \<open>What a send relies on\<close>

text \<open>
  \<open>sent w h\<close> are the bundles transmitted on a connection, \<open>acked w h\<close> the number of packets read
  from it, \<open>delivered w h\<close> the number of its bundles that the peer has received. A transmission
  that succeeds adds its bundle, a read that returns a packet counts one, a new connection has
  neither, and nothing else changes them on a connection that stays open. Bundles arrive in
  order, and the peer sends one packet per bundle, after it has received it.
\<close>

record 'w link =
  opens :: "'w \<Rightarrow> conn set"
  sent :: "'w \<Rightarrow> conn \<Rightarrow> u8 list list"
  acked :: "'w \<Rightarrow> conn \<Rightarrow> nat"
  delivered :: "'w \<Rightarrow> conn \<Rightarrow> nat"

definition same_traffic :: "'w link \<Rightarrow> conn set \<Rightarrow> 'w \<Rightarrow> 'w \<Rightarrow> bool" where
  "same_traffic L hs w w' \<longleftrightarrow> (\<forall>h \<in> hs. sent L w' h = sent L w h \<and> acked L w' h = acked L w h)"

definition calls_ok :: "('w, 'm) send_env_scheme \<Rightarrow> 'w link \<Rightarrow> bool" where
  "calls_ok env L \<longleftrightarrow>
     (\<forall>a p w h w'. csp_connect env a p w = (Some h, w') \<longrightarrow>
        sent L w' h = [] \<and> acked L w' h = 0 \<and> same_traffic L (opens L w) w w') \<and>
     (\<forall>a p w w'. csp_connect env a p w = (None, w') \<longrightarrow> same_traffic L (opens L w) w w') \<and>
     (\<forall>h w. same_traffic L (opens L w - {h}) w (csp_close env h w)) \<and>
     (\<forall>w. same_traffic L (opens L w) w (snd (time_now env w))) \<and>
     (\<forall>w. same_traffic L (opens L w) w (snd (mutex_lock env w))) \<and>
     (\<forall>w. same_traffic L (opens L w) w (snd (mutex_unlock env w)))"

definition transfer_ok :: "('w, 'm) send_env_scheme \<Rightarrow> 'w link \<Rightarrow> bool" where
  "transfer_ok env L \<longleftrightarrow>
     (\<forall>h b n m t w r w'. csp_sfp_send env h b n m t w = (r, w') \<longrightarrow>
        opens L w' = opens L w \<and> same_traffic L (opens L w - {h}) w w' \<and>
        (r = csp_err_none env \<longrightarrow> sent L w' h = sent L w h @ [take (unat n) b] \<and> acked L w' h = acked L w h)) \<and>
     (\<forall>h t w r w'. csp_read env h t w = (r, w') \<longrightarrow>
        opens L w' = opens L w \<and> same_traffic L (opens L w - {h}) w w' \<and> sent L w' h = sent L w h \<and>
        acked L w' h = (if r = None then acked L w h else acked L w h + 1)) \<and>
     (\<forall>pk w. opens L (csp_buffer_free env pk w) = opens L w \<and>
        same_traffic L (opens L w) w (csp_buffer_free env pk w))"

definition send_env_ok :: "('w, 'm) send_env_scheme \<Rightarrow> 'w link \<Rightarrow> bool" where
  "send_env_ok env L \<longleftrightarrow> csp_err_none env \<noteq> csp_err_timedout env \<and>
     conn_env_ok env (opens L) \<and> calls_ok env L \<and> transfer_ok env L"

text \<open>The peer acknowledges what it has received: its part of the protocol.\<close>

definition peer_ok :: "'w link \<Rightarrow> bool" where
  "peer_ok L \<longleftrightarrow> (\<forall>w. \<forall>h \<in> opens L w. acked L w h \<le> delivered L w h \<and> delivered L w h \<le> length (sent L w h))"

section \<open>Traffic on the pool's connections\<close>

text \<open>A connection is quiet if every bundle sent on it has been acknowledged.\<close>

definition quiet :: "'w link \<Rightarrow> 'w \<Rightarrow> conn \<Rightarrow> bool" where
  "quiet L w h \<longleftrightarrow> acked L w h = length (sent L w h)"

text \<open>A change keeps the quiet connections quiet, and opens only quiet ones.\<close>

definition calm :: "'w link \<Rightarrow> 'w \<Rightarrow> 'w \<Rightarrow> bool" where
  "calm L w w' \<longleftrightarrow> (\<forall>h \<in> opens L w'. (h \<in> opens L w \<longrightarrow> quiet L w h) \<longrightarrow> quiet L w' h)"

lemma calm_refl [simp]: "calm L w w"
  by (simp add: calm_def)

lemma calm_trans: "calm L w w' \<Longrightarrow> calm L w' w'' \<Longrightarrow> calm L w w''"
  unfolding calm_def by blast

lemma calm_same: "same_traffic L (opens L w') w w' \<Longrightarrow> opens L w' \<subseteq> opens L w \<Longrightarrow> calm L w w'"
  by (auto simp: calm_def same_traffic_def quiet_def)

text \<open>The calls the pool makes are calm.\<close>

lemma calm_calls:
  assumes "send_env_ok env L"
  shows "csp_connect env a p w = (c, w') \<Longrightarrow> calm L w w'" "calm L w (csp_close env h w)"
    "time_now env w = (t, w') \<Longrightarrow> calm L w w'" "mutex_lock env w = (b, w') \<Longrightarrow> calm L w w'"
    "mutex_unlock env w = (b, w') \<Longrightarrow> calm L w w'"
proof -
  have e: "conn_env_ok env (opens L)" and c: "calls_ok env L" using assms by (simp_all add: send_env_ok_def)
  show "calm L w w'" if r: "csp_connect env a p w = (c, w')"
  proof (cases c)
    case None
    have "same_traffic L (opens L w) w w'" using c r None by (simp add: calls_ok_def)
    with conn_envD(2) [OF e] r None show ?thesis by (intro calm_same) auto
  next
    case (Some h)
    have "sent L w' h = [] \<and> acked L w' h = 0 \<and> same_traffic L (opens L w) w w'"
      using c r Some unfolding calls_ok_def by blast
    moreover have "opens L w' = insert h (opens L w)" using conn_envD(1) [OF e] r Some by blast
    ultimately show ?thesis by (auto simp: calm_def same_traffic_def quiet_def)
  qed
  show "calm L w (csp_close env h w)"
    using c conn_envD(3) [OF e] by (intro calm_same) (auto simp: calls_ok_def)
  have "same_traffic L (opens L w) w (snd (time_now env w))" "same_traffic L (opens L w) w (snd (mutex_lock env w))"
    "same_traffic L (opens L w) w (snd (mutex_unlock env w))" using c by (simp_all add: calls_ok_def)
  then show "time_now env w = (t, w') \<Longrightarrow> calm L w w'" "mutex_lock env w = (b, w') \<Longrightarrow> calm L w w'"
    "mutex_unlock env w = (b, w') \<Longrightarrow> calm L w w'"
    using conn_envD(4-6) [OF e, of w] by (auto intro!: calm_same)
qed

interpretation calm: conn_calls env "\<lambda>w w'. send_env_ok env L \<longrightarrow> calm L w w'" for env L
  by unfold_locales (auto intro: calm_trans calm_calls)

section \<open>The invariant of sends\<close>

text \<open>
  The pool owns its connections, at most one per destination, and every bundle sent on one of
  them has been acknowledged.
\<close>

definition sender_ok :: "'w link \<Rightarrow> conn_pool \<Rightarrow> 'w \<Rightarrow> bool" where
  "sender_ok L p w \<longleftrightarrow> pool_owns (opens L) p w \<and> unique_dest p \<and> (\<forall>h \<in> pool_conns p. quiet L w h)"

definition no_conn_to :: "u8 \<Rightarrow> u8 \<Rightarrow> conn_pool \<Rightarrow> bool" where
  "no_conn_to da dp p \<longleftrightarrow> (\<forall>k < CSPCL_CONN_POOL_SIZE. \<not> to_dest da dp (entries p ! k))"

lemma calm_quiet:
  assumes k: "keeps (opens L) p w p' w'" and p: "pool_owns (opens L) p w" and c: "calm L w w'"
    and q: "\<forall>h \<in> pool_conns p - X. quiet L w h" and x: "pool_conns p' \<inter> X = {}"
  shows "\<forall>h \<in> pool_conns p'. quiet L w' h"
proof
  fix h
  assume h: "h \<in> pool_conns p'"
  with k have "h \<in> opens L w'" by (auto simp: keeps_def pool_owns_def)
  moreover have "h \<in> pool_conns p - X" if "h \<in> opens L w"
    using k h that x by (auto simp: keeps_def foreign_def)
  ultimately show "quiet L w' h" using c q by (simp add: calm_def)
qed

lemma pool_has_pool: "pool_owns ops p w \<Longrightarrow> pool_has da dp h p \<Longrightarrow> h \<in> pool_conns p"
  unfolding pool_owns_def pool_has_def pool_conns_def
  by (metis pool_invD(3,4) slot_setI)

lemma get_or_create_inv:
  assumes env: "send_env_ok env L" and i: "sender_ok L p w" and r: "pool_get_or_create env da dp p w = (c, p', w')"
  shows "sender_ok L p' w'" "foreign (opens L) p' w' = foreign (opens L) p w"
proof -
  have e: "conn_env_ok env (opens L)" and p: "pool_owns (opens L) p w" and u: "unique_dest p"
    using env i by (simp_all add: send_env_ok_def sender_ok_def)
  note k = pool_get_or_create_keeps [OF e p r]
  have "\<forall>h \<in> pool_conns p'. quiet L w' h"
    using i by (intro calm_quiet [OF k(1) p calm.R_get_or_create [OF r, rule_format, OF env], of "{}"]) (simp_all add: sender_ok_def)
  with k(1,2) u show "sender_ok L p' w'" "foreign (opens L) p' w' = foreign (opens L) p w"
    by (simp_all add: keeps_def sender_ok_def)
qed

text \<open>Invalidation removes the connection to the destination, whatever happened on it.\<close>

lemma invalidate_inv:
  assumes env: "send_env_ok env L" and p: "pool_owns (opens L) p w" "unique_dest p"
    and q: "\<forall>g \<in> pool_conns p - {h}. quiet L w g" and h: "pool_has da dp h p"
    and r: "pool_invalidate env da dp p w = (p', w')"
  shows "sender_ok L p' w'" "foreign (opens L) p' w' = foreign (opens L) p w" "no_conn_to da dp p'"
proof -
  have e: "conn_env_ok env (opens L)" using env by (simp add: send_env_ok_def)
  note k = pool_invalidate_keeps [OF e p r]
  have "pool_conns p' \<inter> {h} = {}" using k(1) k(4) [OF h] by (auto simp: keeps_def pool_owns_def)
  then have "\<forall>g \<in> pool_conns p'. quiet L w' g" by (rule calm_quiet [OF k(1) p(1) calm.R_invalidate [OF r, rule_format, OF env] q])
  with k(1-3) show "sender_ok L p' w'" "foreign (opens L) p' w' = foreign (opens L) p w" "no_conn_to da dp p'"
    by (simp_all add: keeps_def sender_ok_def no_conn_to_def)
qed

text \<open>One transmission with its acknowledgement changes nothing on the other connections.\<close>

lemma send_and_confirm_result:
  assumes env: "send_env_ok env L" and r: "send_and_confirm env h bundle len w = (ret, w')"
  shows "opens L w' = opens L w" "g \<in> opens L w \<Longrightarrow> g \<noteq> h \<Longrightarrow> quiet L w' g = quiet L w g"
    "h \<in> opens L w \<Longrightarrow> ret = csp_err_none env \<Longrightarrow>
       sent L w' h = sent L w h @ [take (unat (of_nat len :: u32)) bundle] \<and> acked L w' h = acked L w h + 1"
proof -
  have t: "transfer_ok env L" and ne: "csp_err_none env \<noteq> csp_err_timedout env"
    using env by (simp_all add: send_env_ok_def)
  obtain r1 w1 where s: "csp_sfp_send env h bundle (of_nat len) CSPCL_MAX_PAYLOAD CSPCL_CSP_TIMEOUT_MS w = (r1, w1)"
    by fastforce
  obtain pk w2 where rd: "csp_read env h CSPCL_ACK_TIMEOUT_MS w1 = (pk, w2)" by fastforce
  have s': "opens L w1 = opens L w" "same_traffic L (opens L w - {h}) w w1"
    "r1 = csp_err_none env \<Longrightarrow>
       sent L w1 h = sent L w h @ [take (unat (of_nat len :: u32)) bundle] \<and> acked L w1 h = acked L w h"
    using t s unfolding transfer_ok_def by blast+
  have rd': "opens L w2 = opens L w1" "same_traffic L (opens L w1 - {h}) w1 w2" "sent L w2 h = sent L w1 h"
    "acked L w2 h = (if pk = None then acked L w1 h else acked L w1 h + 1)"
    using t rd unfolding transfer_ok_def by blast+
  have f: "opens L (csp_buffer_free env d w2) = opens L w2" "same_traffic L (opens L w2) w2 (csp_buffer_free env d w2)" for d
    using t unfolding transfer_ok_def by blast+
  consider "r1 \<noteq> csp_err_none env" "ret = r1" "w' = w1"
    | "r1 = csp_err_none env" "pk = None" "ret = csp_err_timedout env" "w' = w2"
    | d where "r1 = csp_err_none env" "pk = Some d" "ret = csp_err_none env" "w' = csp_buffer_free env d w2"
    using r s rd by (auto simp: send_and_confirm_def wait_ack_def split: if_splits option.splits)
  note outcomes = this
  show "opens L w' = opens L w" using s' rd' f by (cases rule: outcomes) auto
  show "quiet L w' g = quiet L w g" if "g \<in> opens L w" "g \<noteq> h"
    using that s' rd' f by (cases rule: outcomes) (auto simp: same_traffic_def quiet_def)
  show "sent L w' h = sent L w h @ [take (unat (of_nat len :: u32)) bundle] \<and> acked L w' h = acked L w h + 1"
    if "h \<in> opens L w" "ret = csp_err_none env"
    using that s' rd' f ne by (cases rule: outcomes) (auto simp: same_traffic_def)
qed

text \<open>
  The outcome of the attempts: either the bundle was acknowledged on the pool's connection to the
  destination, or the pool has no connection to it.
\<close>

definition confirmed :: "'w link \<Rightarrow> u8 \<Rightarrow> u8 \<Rightarrow> u8 list \<Rightarrow> conn_pool \<Rightarrow> 'w \<Rightarrow> bool" where
  "confirmed L da dp bundle p w \<longleftrightarrow> (\<exists>h bs. pool_has da dp h p \<and> sent L w h = bs @ [bundle])"

lemma confirmed_inv:
  assumes env: "send_env_ok env L" and i: "sender_ok L p w" and h: "pool_has da dp h p"
    and r: "send_and_confirm env h bundle len w = (csp_err_none env, w')"
  shows "sender_ok L p w'" "foreign (opens L) p w' = foreign (opens L) p w"
    "confirmed L da dp (take (unat (of_nat len :: u32)) bundle) p w'"
proof -
  note s = send_and_confirm_result [OF env r]
  have p: "pool_owns (opens L) p w" and q: "\<And>g. g \<in> pool_conns p \<Longrightarrow> g \<in> opens L w \<and> quiet L w g"
    using i by (auto simp: sender_ok_def pool_owns_def)
  have hp: "h \<in> pool_conns p" using pool_has_pool [OF p h] .
  note sh = s(3) [OF conjunct1 [OF q [OF hp]] refl]
  have "quiet L w' g" if "g \<in> pool_conns p" for g
    using s(2) [of g] sh q [OF that] by (cases "g = h") (auto simp: quiet_def)
  then show "sender_ok L p w'" using i s(1) by (simp add: sender_ok_def pool_owns_def)
  show "foreign (opens L) p w' = foreign (opens L) p w" by (simp add: foreign_def s(1))
  show "confirmed L da dp (take (unat (of_nat len :: u32)) bundle) p w'"
    using sh h unfolding confirmed_def by blast
qed

lemma send_attempts_result:
  assumes env: "send_env_ok env L"
  shows "send_attempts env bundle len da dp attempt ret p w = (conn_failed, ret', p', w') \<Longrightarrow> sender_ok L p w \<Longrightarrow>
    ret \<noteq> csp_err_none env \<Longrightarrow> attempt = 0 \<or> no_conn_to da dp p \<Longrightarrow>
    sender_ok L p' w' \<and> foreign (opens L) p' w' = foreign (opens L) p w \<and>
    (if \<not> conn_failed \<and> ret' = csp_err_none env
     then confirmed L da dp (take (unat (of_nat len :: u32)) bundle) p' w' else no_conn_to da dp p')"
proof (induction "2 - attempt" arbitrary: attempt ret p w)
  case 0
  then show ?case by (simp add: send_attempts.simps [of env "bundle" len da dp attempt])
next
  case (Suc n)
  obtain c p1 w1 where g: "pool_get_or_create env da dp p w = (c, p1, w1)" by (metis prod_cases3)
  have e: "conn_env_ok env (opens L)" and p: "pool_owns (opens L) p w" and u: "unique_dest p"
    using env Suc.prems(2) by (simp_all add: send_env_ok_def sender_ok_def)
  note k = pool_get_or_create_keeps [OF e p g] and i1 = get_or_create_inv [OF env Suc.prems(2) g]
  have att: "attempt < 2" using Suc.hyps(2) by simp
  show ?case
  proof (cases c)
    case None
    with Suc.prems(1,3) att g have "ret' = ret" "p' = p1" "w' = w1"
      by (simp_all add: send_attempts.simps [of env "bundle" len da dp attempt])
    with i1 k(4) [OF u None] Suc.prems(3) show ?thesis by (simp add: no_conn_to_def)
  next
    case (Some h)
    note hc = k(3) [OF Some]
    obtain r w2 where s: "send_and_confirm env h bundle len w1 = (r, w2)" by fastforce
    show ?thesis
    proof (cases "r = csp_err_none env")
      case True
      with Suc.prems(1) att g Some s have "\<not> conn_failed" "ret' = csp_err_none env" "p' = p1" "w' = w2"
        by (simp_all add: send_attempts.simps [of env "bundle" len da dp attempt])
      with confirmed_inv [OF env i1(1) hc] s True i1(2) show ?thesis by simp
    next
      case False
      obtain p2 w3 where iv: "pool_invalidate env da dp p1 w2 = (p2, w3)" by fastforce
      note sr = send_and_confirm_result [OF env s]
      have p1: "pool_owns (opens L) p1 w2" "unique_dest p1" "foreign (opens L) p1 w2 = foreign (opens L) p1 w1"
        and q: "\<forall>g \<in> pool_conns p1 - {h}. quiet L w2 g"
        using i1(1) sr(1,2) by (auto simp: sender_ok_def pool_owns_def foreign_def)
      note ii = invalidate_inv [OF env p1(1,2) q hc iv]
      have next_att: "send_attempts env bundle len da dp (attempt + 1) r p2 w3 = (conn_failed, ret', p', w')"
        using Suc.prems(1) att g Some s False iv by (simp add: send_attempts.simps [of env "bundle" len da dp attempt])
      show ?thesis
        using Suc.hyps(1) [OF _ next_att ii(1) False] Suc.hyps(2) ii(2,3) i1(2) p1(3) by simp
    qed
  qed
qed

section \<open>Results of a send\<close>

lemma same_traffic_inv:
  assumes i: "sender_ok L p w" and o: "opens L w' = opens L w" and s: "same_traffic L (opens L w) w w'"
  shows "sender_ok L p w'" "foreign (opens L) p w' = foreign (opens L) p w"
    "confirmed L da dp bun p w \<Longrightarrow> confirmed L da dp bun p w'"
proof -
  have sub: "pool_conns p \<subseteq> opens L w" and p: "pool_owns (opens L) p w" using i by (auto simp: sender_ok_def pool_owns_def)
  have q: "quiet L w' h = quiet L w h \<and> sent L w' h = sent L w h" if "h \<in> pool_conns p" for h
    using s sub that by (auto simp: same_traffic_def quiet_def)
  then show "sender_ok L p w'" using i o by (simp add: sender_ok_def pool_owns_def)
  show "foreign (opens L) p w' = foreign (opens L) p w" by (simp add: foreign_def o)
  show "confirmed L da dp bun p w'" if "confirmed L da dp bun p w"
    using that q pool_has_pool [OF p] unfolding confirmed_def by metis
qed

lemma mutex_same:
  assumes "send_env_ok env L"
  shows "opens L (snd (mutex_lock env w)) = opens L w" "same_traffic L (opens L w) w (snd (mutex_lock env w))"
    "opens L (snd (mutex_unlock env w)) = opens L w" "same_traffic L (opens L w) w (snd (mutex_unlock env w))"
  using assms unfolding send_env_ok_def conn_env_ok_def calls_ok_def by blast+

text \<open>The codes after the attempts; a send that ends before them changes nothing.\<close>

lemma c_send_bundle_cases:
  assumes "c_send_bundle env b len da dp (s, w) = (code, s', w')"
  obtains (early) "code \<in> {CSPCL_ERR_INVALID_PARAM, CSPCL_ERR_NOT_INITIALIZED, CSPCL_ERR_BUNDLE_TOO_LARGE}" "s' = s" "w' = w"
  | (unlocked) "code = CSPCL_ERR_CONNECTION" "s' = s" "w' = snd (mutex_lock env w)"
  | (attempts) bun failed ret p' w2 where "b = Some bun" "0 < len" "len \<le> CSPCL_MAX_BUNDLE_SIZE"
      "send_attempts env bun len da dp 0 (csp_err_timedout env) (pool s) (snd (mutex_lock env w)) = (failed, ret, p', w2)"
      "s' = s\<lparr>pool := p'\<rparr>" "w' = snd (mutex_unlock env w2)"
      "code = (if failed then CSPCL_ERR_CONNECTION else if ret = csp_err_timedout env then CSPCL_ERR_TIMEOUT
         else if ret \<noteq> csp_err_none env then CSPCL_ERR_CSP_SEND else CSPCL_OK)"
proof -
  obtain locked w1 where l: "mutex_lock env w = (locked, w1)" by fastforce
  obtain failed ret p' w2 where a:
    "send_attempts env (the b) len da dp 0 (csp_err_timedout env) (pool s) w1 = (failed, ret, p', w2)"
    by (metis prod_cases4)
  consider "b = None \<or> len = 0 \<or> \<not> initialized s \<or> CSPCL_MAX_BUNDLE_SIZE < len \<or> \<not> pool_initialized (pool s)"
    | bun where "b = Some bun" "0 < len" "initialized s" "len \<le> CSPCL_MAX_BUNDLE_SIZE" "pool_initialized (pool s)"
    by force
  then show thesis
  proof cases
    case 1
    have "code \<in> {CSPCL_ERR_INVALID_PARAM, CSPCL_ERR_NOT_INITIALIZED, CSPCL_ERR_BUNDLE_TOO_LARGE} \<and> s' = s \<and> w' = w"
      using assms 1 by (cases b) (auto simp: c_send_bundle_def split: if_splits)
    with early show thesis by blast
  next
    case (2 bun)
    show thesis
    proof (cases locked)
      case True
      then have *: "code = (if failed then CSPCL_ERR_CONNECTION else if ret = csp_err_timedout env then CSPCL_ERR_TIMEOUT
          else if ret \<noteq> csp_err_none env then CSPCL_ERR_CSP_SEND else CSPCL_OK) \<and>
          s' = s\<lparr>pool := p'\<rparr> \<and> w' = snd (mutex_unlock env w2)"
        using assms l a 2 by (simp add: c_send_bundle_def)
      show thesis by (rule attempts [of bun failed ret p' w2]) (use * l a 2 in simp_all)
    next
      case False
      show thesis by (rule unlocked) (use assms l 2 False in \<open>simp_all add: c_send_bundle_def\<close>)
    qed
  qed
qed

lemma c_send_bundle_result:
  assumes env: "send_env_ok env L" and i: "sender_ok L (pool s) w"
    and r: "c_send_bundle env b len da dp (s, w) = (code, s', w')"
  shows "sender_ok L (pool s') w'" "foreign (opens L) (pool s') w' = foreign (opens L) (pool s) w"
    "code = CSPCL_OK \<Longrightarrow> \<exists>bun. b = Some bun \<and> confirmed L da dp (take len bun) (pool s') w'"
    "code = CSPCL_ERR_TIMEOUT \<or> code = CSPCL_ERR_CSP_SEND \<Longrightarrow> no_conn_to da dp (pool s')"
proof -
  note m = mutex_same [OF env]
  note l = same_traffic_inv [OF i m(1,2)]
  have "sender_ok L (pool s') w' \<and> foreign (opens L) (pool s') w' = foreign (opens L) (pool s) w \<and>
    (code = CSPCL_OK \<longrightarrow> (\<exists>bun. b = Some bun \<and> confirmed L da dp (take len bun) (pool s') w')) \<and>
    (code = CSPCL_ERR_TIMEOUT \<or> code = CSPCL_ERR_CSP_SEND \<longrightarrow> no_conn_to da dp (pool s'))"
    using r
  proof (cases rule: c_send_bundle_cases)
    case early
    with i show ?thesis by auto
  next
    case unlocked
    with l show ?thesis by simp
  next
    case (attempts bun failed ret p' w2)
    have ne: "csp_err_timedout env \<noteq> csp_err_none env" using env by (auto simp: send_env_ok_def)
    note a = send_attempts_result [OF env attempts(4) l(1) ne]
    have ai: "sender_ok L p' w2" "foreign (opens L) p' w2 = foreign (opens L) (pool s) w" using a l(2) by simp_all
    note u = same_traffic_inv [OF ai(1) m(3,4)]
    have len: "unat (of_nat len :: u32) = len" using attempts(3)
      by (simp add: CSPCL_MAX_BUNDLE_SIZE_def unat_of_nat)
    show ?thesis
      using a u ai(2) attempts(1) ne unfolding attempts(5-7) by (auto simp: len split: if_splits)
  qed
  then show "sender_ok L (pool s') w'" "foreign (opens L) (pool s') w' = foreign (opens L) (pool s) w"
    "code = CSPCL_OK \<Longrightarrow> \<exists>bun. b = Some bun \<and> confirmed L da dp (take len bun) (pool s') w'"
    "code = CSPCL_ERR_TIMEOUT \<or> code = CSPCL_ERR_CSP_SEND \<Longrightarrow> no_conn_to da dp (pool s')"
    by blast+
qed

end
