(* ===== verification/CRecv.thy ===== *)
theory CRecv
  imports CSend
begin

text \<open>
  Receiving in the C core (\<open>src/cspcl.c\<close>): the receive socket of the process, accepting a
  connection, and reading a bundle from a connection with its acknowledgement.
\<close>

section \<open>The environment of a receive\<close>

text \<open>
  \<open>csp_sfp_recv\<close> returns its code and the data it allocated (null or a buffer) with its size;
  \<open>csp_send\<close> whether the packet was sent. A socket is a handle like a connection.
\<close>

type_synonym socket = nat

record 'w recv_env = "'w send_env" +
  csp_sfp_recv :: "conn \<Rightarrow> u32 \<Rightarrow> 'w \<Rightarrow> (int \<times> u8 list option \<times> int) \<times> 'w"
  csp_free :: "u8 list \<Rightarrow> 'w \<Rightarrow> 'w"
  csp_buffer_get :: "nat \<Rightarrow> 'w \<Rightarrow> u8 list option \<times> 'w"
  csp_send :: "conn \<Rightarrow> u8 list \<Rightarrow> u32 \<Rightarrow> 'w \<Rightarrow> bool \<times> 'w"
  csp_socket :: "'w \<Rightarrow> socket option \<times> 'w"
  csp_bind :: "socket \<Rightarrow> u8 \<Rightarrow> 'w \<Rightarrow> int \<times> 'w"
  csp_listen :: "socket \<Rightarrow> nat \<Rightarrow> 'w \<Rightarrow> int \<times> 'w"
  csp_accept :: "socket \<Rightarrow> u32 \<Rightarrow> 'w \<Rightarrow> conn option \<times> 'w"
  csp_conn_src :: "conn \<Rightarrow> 'w \<Rightarrow> u8"
  csp_conn_sport :: "conn \<Rightarrow> 'w \<Rightarrow> u8"
  csp_err_nomem :: int

section \<open>Reading a bundle\<close>

definition CSPCL_ACK_MAGIC :: u8 where "CSPCL_ACK_MAGIC = 0xCA"
definition C_SFP_TIMEOUT_MS :: u32 where "C_SFP_TIMEOUT_MS = 5000"

definition send_ack :: "('w, 'm) recv_env_scheme \<Rightarrow> conn \<Rightarrow> 'w \<Rightarrow> int \<times> 'w" where
  "send_ack env h w =
     (case csp_buffer_get env 1 w of
        (None, w1) \<Rightarrow> (csp_err_nomem env, w1)
      | (Some packet, w1) \<Rightarrow>
          let packet' = [CSPCL_ACK_MAGIC];
              (ok, w2) = csp_send env h packet' CSPCL_CSP_TIMEOUT_MS w1
          in if \<not> ok then (csp_err_timedout env, csp_buffer_free env packet' w2)
             else (csp_err_none env, w2))"

text \<open>
  The buffer, its capacity and the two out-parameters for the source are non-null, as Rust passes
  them; the capacity is at most the length of the buffer.
\<close>

definition recv_from_conn_timeout ::
  "('w, 'm) recv_env_scheme \<Rightarrow> conn ptr \<Rightarrow> u8 list \<Rightarrow> nat \<Rightarrow> u8 \<Rightarrow> u8 \<Rightarrow> u8 \<Rightarrow> u8 \<Rightarrow> u32 \<Rightarrow> 'w \<Rightarrow>
   cspcl_error_t \<times> u8 list \<times> nat \<times> u8 \<times> u8 \<times> 'w" where
  "recv_from_conn_timeout env conn_ptr buf len sa sp pkt_src_addr pkt_src_port timeout_ms w =
     (case conn_ptr of
        None \<Rightarrow> (CSPCL_ERR_INVALID_PARAM, buf, len, sa, sp, w)
      | Some h \<Rightarrow>
          let max_len = len;
              ((ret, d, datasize), w1) = csp_sfp_recv env h timeout_ms w
          in if ret \<noteq> csp_err_none env then
               (if ret = csp_err_timedout env then CSPCL_ERR_TIMEOUT else CSPCL_ERR_SFP, buf, 0, sa, sp,
                case d of Some bytes \<Rightarrow> csp_free env bytes w1 | None \<Rightarrow> w1)
             else
               (case d of
                  None \<Rightarrow> (CSPCL_ERR_CSP_RECV, buf, 0, sa, sp, w1)
                | Some bytes \<Rightarrow>
                    if datasize \<le> 0 then (CSPCL_ERR_CSP_RECV, buf, 0, sa, sp, w1)
                    else if max_len < nat datasize then (CSPCL_ERR_NO_MEMORY, buf, 0, sa, sp, csp_free env bytes w1)
                    else
                      let buf' = take (nat datasize) bytes @ drop (nat datasize) buf;
                          w2 = csp_free env bytes w1;
                          (_, w3) = send_ack env h w2
                      in (CSPCL_OK, buf', nat datasize, pkt_src_addr, pkt_src_port, w3)))"

definition c_recv_bundle_from_conn :: "('w, 'm) recv_env_scheme \<Rightarrow> (conn, 'w) c_recv_from_conn" where
  "c_recv_bundle_from_conn env conn_ptr buf len sa sp pkt_src_addr pkt_src_port w =
     recv_from_conn_timeout env conn_ptr buf len sa sp pkt_src_addr pkt_src_port C_SFP_TIMEOUT_MS w"

section \<open>The receive socket\<close>

text \<open>
  The fields of \<open>cspcl_t\<close> that receiving uses, and the socket that the process keeps
  (\<open>g_cspcl_global_rx_socket\<close>, \<open>g_cspcl_global_rx_port\<close>).
\<close>

record rx_state =
  rx_initialized :: bool
  rx_csp_port :: u8
  rx_socket :: "socket option"

record rx_global =
  global_rx_socket :: "socket option"
  global_rx_port :: u8

definition open_rx_socket ::
  "('w, 'm) recv_env_scheme \<Rightarrow> rx_state \<Rightarrow> rx_global \<Rightarrow> 'w \<Rightarrow> cspcl_error_t \<times> rx_state \<times> rx_global \<times> 'w" where
  "open_rx_socket env s g w =
     (if \<not> rx_initialized s then (CSPCL_ERR_INVALID_PARAM, s, g, w)
      else if rx_socket s \<noteq> None then (CSPCL_OK, s, g, w)
      else if global_rx_socket g \<noteq> None \<and> global_rx_port g = rx_csp_port s
      then (CSPCL_OK, s\<lparr>rx_socket := global_rx_socket g\<rparr>, g, w)
      else
        case csp_socket env w of
          (None, w1) \<Rightarrow> (CSPCL_ERR_NO_MEMORY, s, g, w1)
        | (Some sock, w1) \<Rightarrow>
            let (bind_result, w2) = csp_bind env sock (rx_csp_port s) w1
            in if bind_result \<noteq> csp_err_none env then (CSPCL_ERR_CSP_RECV, s, g, csp_close env sock w2)
               else
                 let (listen_result, w3) = csp_listen env sock 5 w2
                 in if listen_result \<noteq> csp_err_none env then (CSPCL_ERR_CSP_RECV, s, g, csp_close env sock w3)
                    else (CSPCL_OK, s\<lparr>rx_socket := Some sock\<rparr>,
                          \<lparr>global_rx_socket = Some sock, global_rx_port = rx_csp_port s\<rparr>, w3))"

definition c_close_rx_socket :: "rx_state \<Rightarrow> rx_state" where
  "c_close_rx_socket s = s\<lparr>rx_socket := None\<rparr>"

text \<open>The out-parameters are non-null; they keep their values on an error.\<close>

definition c_accept_conn ::
  "('w, 'm) recv_env_scheme \<Rightarrow> (conn, rx_state \<times> rx_global \<times> 'w) c_accept" where
  "c_accept_conn env conn_ptr sa sp timeout_ms = (\<lambda>(s, g, w).
     if \<not> rx_initialized s then (CSPCL_ERR_NOT_INITIALIZED, conn_ptr, sa, sp, s, g, w)
     else
       let (err, s1, g1, w1) = (if rx_socket s = None then open_rx_socket env s g w else (CSPCL_OK, s, g, w))
       in if err \<noteq> CSPCL_OK then (err, conn_ptr, sa, sp, s1, g1, w1)
          else
            let (c, w2) = csp_accept env (the (rx_socket s1))
                  (if 0 < timeout_ms then timeout_ms else CSPCL_CSP_TIMEOUT_MS) w1
            in case c of
                 None \<Rightarrow> (CSPCL_ERR_TIMEOUT, conn_ptr, sa, sp, s1, g1, w2)
               | Some h \<Rightarrow> (CSPCL_OK, Some h, csp_conn_src env h w2, csp_conn_sport env h w2, s1, g1, w2))"

section \<open>Acknowledgements\<close>

text \<open>
  \<open>acks w h\<close> counts the packets sent on a connection: only a \<open>csp_send\<close> that succeeds adds one. The
  data of \<open>csp_sfp_recv\<close> has the size it reports.
\<close>

definition recv_env_ok :: "('w, 'm) recv_env_scheme \<Rightarrow> ('w \<Rightarrow> conn \<Rightarrow> nat) \<Rightarrow> bool" where
  "recv_env_ok env acks \<longleftrightarrow>
     (\<forall>h t w ret d n w'. csp_sfp_recv env h t w = ((ret, d, n), w') \<longrightarrow>
        acks w' = acks w \<and> (\<forall>bytes. d = Some bytes \<longrightarrow> n \<le> int (length bytes))) \<and>
     (\<forall>bytes w. acks (csp_free env bytes w) = acks w) \<and>
     (\<forall>n w r w'. csp_buffer_get env n w = (r, w') \<longrightarrow> acks w' = acks w) \<and>
     (\<forall>pk w. acks (csp_buffer_free env pk w) = acks w) \<and>
     (\<forall>h pk t w ok w'. csp_send env h pk t w = (ok, w') \<longrightarrow>
        acks w' = (if ok then (acks w)(h := acks w h + 1) else acks w))"

lemma recv_envD:
  assumes "recv_env_ok env acks"
  shows "csp_sfp_recv env h t w = ((ret, d, n), w') \<Longrightarrow> acks w' = acks w"
    "csp_sfp_recv env h t w = ((ret, Some bytes, n), w') \<Longrightarrow> n \<le> int (length bytes)"
    "acks (csp_free env bytes w) = acks w" "csp_buffer_get env k w = (b, w') \<Longrightarrow> acks w' = acks w"
    "acks (csp_buffer_free env bytes w) = acks w"
    "csp_send env h bytes t w = (ok, w') \<Longrightarrow> acks w' = (if ok then (acks w)(h := acks w h + 1) else acks w)"
  using assms unfolding recv_env_ok_def by metis+

lemma send_ack_acks:
  assumes env: "recv_env_ok env acks" and r: "send_ack env h w = (ret, w')"
  shows "acks w' = acks w \<or> acks w' = (acks w)(h := acks w h + 1)"
proof -
  obtain b w1 where b: "csp_buffer_get env 1 w = (b, w1)" by fastforce
  obtain ok w2 where s: "csp_send env h [CSPCL_ACK_MAGIC] CSPCL_CSP_TIMEOUT_MS w1 = (ok, w2)" by fastforce
  show ?thesis
    using recv_envD(4) [OF env b] recv_envD(6) [OF env s] recv_envD(5) [OF env] r b s
    by (cases b) (auto simp: send_ack_def split: if_splits)
qed

text \<open>
  Reading a bundle: success means that SFP reassembled one that fits the buffer, and that the buffer
  starts with it; it is acknowledged at most once, and nothing else is.
\<close>

lemma recv_from_conn_result:
  assumes env: "recv_env_ok env acks"
    and r: "recv_from_conn_timeout env conn_ptr buf len sa sp pa pp t w = (code, buf', len', sa', sp', w')"
  shows "if code = CSPCL_OK
    then \<exists>h bytes n w1. conn_ptr = Some h \<and> csp_sfp_recv env h t w = ((csp_err_none env, Some bytes, n), w1) \<and>
      0 < n \<and> nat n \<le> len \<and> nat n \<le> length bytes \<and> len' = nat n \<and> buf' = take (nat n) bytes @ drop (nat n) buf \<and>
      (acks w' = acks w \<or> acks w' = (acks w)(h := acks w h + 1))
    else acks w' = acks w"
proof (cases conn_ptr)
  case None
  with r show ?thesis by (auto simp: recv_from_conn_timeout_def)
next
  case (Some h)
  obtain ret d n w1 where f: "csp_sfp_recv env h t w = ((ret, d, n), w1)" by (metis surj_pair)
  note a1 = recv_envD(1) [OF env f] and fr = recv_envD(3) [OF env]
  show ?thesis
  proof (cases "ret = csp_err_none env \<and> (\<exists>bytes. d = Some bytes) \<and> 0 < n \<and> nat n \<le> len")
    case True
    then obtain bytes where d: "d = Some bytes" by blast
    obtain ret' w3 where s: "send_ack env h (csp_free env bytes w1) = (ret', w3)" by fastforce
    have "n \<le> int (length bytes)" using recv_envD(2) [OF env] f d by blast
    with send_ack_acks [OF env s] r Some f True d s a1 fr show ?thesis by (auto simp: recv_from_conn_timeout_def)
  next
    case False
    with r Some f a1 fr show ?thesis
      by (auto simp: recv_from_conn_timeout_def Let_def split: option.splits if_splits prod.splits)
  qed
qed

section \<open>Reopening the receive socket\<close>

text \<open>libcsp binds a port once and keeps it bound.\<close>

definition ports_kept :: "('w, 'm) recv_env_scheme \<Rightarrow> ('w \<Rightarrow> u8 set) \<Rightarrow> bool" where
  "ports_kept env bound \<longleftrightarrow>
     (\<forall>sock p w r w'. csp_bind env sock p w = (r, w') \<longrightarrow>
        (if r = csp_err_none env then p \<notin> bound w \<and> bound w' = insert p (bound w) else bound w' = bound w)) \<and>
     (\<forall>w r w'. csp_socket env w = (r, w') \<longrightarrow> bound w' = bound w) \<and>
     (\<forall>sock n w r w'. csp_listen env sock n w = (r, w') \<longrightarrow> bound w' = bound w) \<and>
     (\<forall>sock w. bound (csp_close env sock w) = bound w)"

lemma ports_keptD:
  assumes "ports_kept env bound"
  shows "csp_bind env sock p w = (csp_err_none env, w') \<Longrightarrow> p \<notin> bound w \<and> bound w' = insert p (bound w)"
    "csp_bind env sock p w = (r, w') \<Longrightarrow> r \<noteq> csp_err_none env \<Longrightarrow> bound w' = bound w"
    "csp_socket env w = (c, w') \<Longrightarrow> bound w' = bound w" "csp_listen env sock n w = (r, w') \<Longrightarrow> bound w' = bound w"
    "bound (csp_close env sock w) = bound w"
  using assms unfolding ports_kept_def by metis+

text \<open>Creating a socket, as far as it goes.\<close>

lemma open_rx_socket_new:
  assumes e: "ports_kept env bound" and i: "rx_initialized s" "rx_socket s = None"
    and g: "global_rx_socket g = None \<or> global_rx_port g \<noteq> rx_csp_port s"
    and o: "open_rx_socket env s g w = (code, s', g', w')"
  shows "bound w \<subseteq> bound w'"
    "if code = CSPCL_OK
     then rx_csp_port s \<notin> bound w \<and> rx_csp_port s \<in> bound w' \<and> rx_socket s' \<noteq> None \<and> global_rx_port g' = rx_csp_port s \<and>
       global_rx_socket g' = rx_socket s' \<and> rx_csp_port s' = rx_csp_port s \<and> rx_initialized s'
     else s' = s \<and> g' = g"
proof -
  obtain c w1 where c: "csp_socket env w = (c, w1)" by fastforce
  obtain br w2 where br: "csp_bind env (the c) (rx_csp_port s) w1 = (br, w2)" by fastforce
  obtain lr w3 where lr: "csp_listen env (the c) 5 w2 = (lr, w3)" by fastforce
  note k = ports_keptD [OF e]
  have b: "bound w1 = bound w" "bound w3 = bound w2"
    "if br = csp_err_none env then rx_csp_port s \<notin> bound w1 \<and> bound w2 = insert (rx_csp_port s) (bound w1)
     else bound w2 = bound w1"
    using k(3) [OF c] k(4) [OF lr] k(1) [of "the c" "rx_csp_port s" w1 w2] k(2) [OF br] br by auto
  have ng: "\<not> (global_rx_socket g \<noteq> None \<and> global_rx_port g = rx_csp_port s)" using g by auto
  have "bound w \<subseteq> bound w' \<and> (if code = CSPCL_OK
     then rx_csp_port s \<notin> bound w \<and> rx_csp_port s \<in> bound w' \<and> rx_socket s' \<noteq> None \<and> global_rx_port g' = rx_csp_port s \<and>
       global_rx_socket g' = rx_socket s' \<and> rx_csp_port s' = rx_csp_port s \<and> rx_initialized s'
     else s' = s \<and> g' = g)"
  proof (cases c)
    case None
    with o i ng c b show ?thesis by (auto simp: open_rx_socket_def)
  next
    case (Some sock)
    with o i ng c br lr b k(5) show ?thesis
      by (cases "br = csp_err_none env"; cases "lr = csp_err_none env") (auto simp: open_rx_socket_def)
  qed
  then show "bound w \<subseteq> bound w'" "if code = CSPCL_OK
     then rx_csp_port s \<notin> bound w \<and> rx_csp_port s \<in> bound w' \<and> rx_socket s' \<noteq> None \<and> global_rx_port g' = rx_csp_port s \<and>
       global_rx_socket g' = rx_socket s' \<and> rx_csp_port s' = rx_csp_port s \<and> rx_initialized s'
     else s' = s \<and> g' = g"
    by blast+
qed

text \<open>
  What the process may do later: any instance opens its receive socket, or anything else happens that
  unbinds no port (closing a socket, sends, receives, stopping instances).
\<close>

inductive rx_later ::
  "('w, 'm) recv_env_scheme \<Rightarrow> ('w \<Rightarrow> u8 set) \<Rightarrow> rx_global \<times> 'w \<Rightarrow> rx_global \<times> 'w \<Rightarrow> bool" for env bound where
  later_open: "open_rx_socket env s g w = (code, s', g', w') \<Longrightarrow> rx_later env bound (g, w) (g', w')"
| later_other: "bound w \<subseteq> bound w' \<Longrightarrow> rx_later env bound (g, w) (g, w')"

text \<open>A port that is bound while the kept socket is not its own stays so.\<close>

definition port_lost :: "('w \<Rightarrow> u8 set) \<Rightarrow> u8 \<Rightarrow> rx_global \<times> 'w \<Rightarrow> bool" where
  "port_lost bound p = (\<lambda>(g, w). p \<in> bound w \<and> (global_rx_socket g = None \<or> global_rx_port g \<noteq> p))"

lemma port_lost_open:
  assumes e: "ports_kept env bound" and l: "port_lost bound p (g, w)" and o: "open_rx_socket env s g w = (code, s', g', w')"
  shows "port_lost bound p (g', w')" "rx_csp_port s = p \<Longrightarrow> rx_socket s = None \<Longrightarrow> code \<noteq> CSPCL_OK"
proof -
  consider "\<not> rx_initialized s" | "rx_initialized s" "rx_socket s \<noteq> None"
    | "rx_initialized s" "rx_socket s = None" "global_rx_socket g \<noteq> None \<and> global_rx_port g = rx_csp_port s"
    | "rx_initialized s" "rx_socket s = None" "global_rx_socket g = None \<or> global_rx_port g \<noteq> rx_csp_port s" by metis
  then have "port_lost bound p (g', w') \<and> (rx_csp_port s = p \<longrightarrow> rx_socket s = None \<longrightarrow> code \<noteq> CSPCL_OK)"
  proof cases
    case 4
    from open_rx_socket_new [OF e 4 o] l show ?thesis by (auto simp: port_lost_def split: if_splits)
  qed (use l o in \<open>auto simp: open_rx_socket_def port_lost_def\<close>)
  then show "port_lost bound p (g', w')" "rx_csp_port s = p \<Longrightarrow> rx_socket s = None \<Longrightarrow> code \<noteq> CSPCL_OK" by blast+
qed

lemma port_lost_later:
  assumes e: "ports_kept env bound" and r: "(rx_later env bound)\<^sup>*\<^sup>* x y" and l: "port_lost bound p x"
  shows "port_lost bound p y"
  using r l
proof (induction rule: rtranclp_induct)
  case (step y z)
  from step.hyps(2) step.IH [OF step.prems] show ?case
  proof cases
    case (later_open s g w code s' g' w')
    then show ?thesis using port_lost_open(1) [OF e] step.IH [OF step.prems] by blast
  next
    case (later_other w w' g)
    then show ?thesis using step.IH [OF step.prems] by (auto simp: port_lost_def)
  qed
qed

text \<open>
  C37: the process keeps a single receive socket, so that of two ports only the one opened last can be
  reopened. Once instances on two ports have opened their sockets, in every later state of the
  process, whatever is opened and done in between, an instance on the port opened first that has no socket fails
  to open one: the instance itself after closing its own, or a new one. The port stays bound to the socket that
  the process forgot.
\<close>

theorem earlier_port_never_reopens:
  assumes "ports_kept env bound" and "rx_csp_port a \<noteq> rx_csp_port b"
    and "rx_initialized a" "rx_socket a = None" "global_rx_socket g = None"
    and "rx_initialized b" "rx_socket b = None"
    and "open_rx_socket env a g w = (CSPCL_OK, a1, g1, w1)"
    and "open_rx_socket env b g1 w1 = (CSPCL_OK, b1, g2, w2)"
    and "(rx_later env bound)\<^sup>*\<^sup>* (g2, w2) (g3, w3)"
    and "rx_csp_port c = rx_csp_port a" "rx_socket c = None"
  shows "fst (open_rx_socket env c g3 w3) \<noteq> CSPCL_OK"
proof -
  note a = open_rx_socket_new [OF assms(1,3,4) disjI1 [OF assms(5)] assms(8)]
  have g1: "global_rx_socket g1 = None \<or> global_rx_port g1 \<noteq> rx_csp_port b" using a(2) assms(2) by simp
  note b = open_rx_socket_new [OF assms(1,6,7) g1 assms(9)]
  have "port_lost bound (rx_csp_port a) (g2, w2)" using a(2) b assms(2) by (auto simp: port_lost_def)
  from port_lost_later [OF assms(1,10) this] have "port_lost bound (rx_csp_port a) (g3, w3)" .
  from port_lost_open(2) [OF assms(1) this _ assms(11,12)] show ?thesis by (metis prod_cases4 fst_conv)
qed

text \<open>A network stack with nothing but its bound ports, which are the sockets too.\<close>

definition ports_env :: "u8 set recv_env" where
  "ports_env = \<lparr>csp_connect = (\<lambda>_ _ w. (None, w)), csp_close = (\<lambda>_ w. w), time_now = (\<lambda>w. (0, w)),
     mutex_init = (\<lambda>w. (True, w)), mutex_lock = (\<lambda>w. (True, w)), mutex_unlock = (\<lambda>w. (True, w)), mutex_destroy = (\<lambda>w. w),
     csp_sfp_send = (\<lambda>_ _ _ _ _ w. (-1, w)), csp_read = (\<lambda>_ _ w. (None, w)), csp_buffer_free = (\<lambda>_ w. w),
     csp_err_none = 0, csp_err_timedout = -3,
     csp_sfp_recv = (\<lambda>_ _ w. ((-3, None, 0), w)), csp_free = (\<lambda>_ w. w), csp_buffer_get = (\<lambda>_ w. (Some [], w)),
     csp_send = (\<lambda>_ _ _ w. (True, w)), csp_socket = (\<lambda>w. (Some 0, w)),
     csp_bind = (\<lambda>_ p w. if p \<in> w then (-4, w) else (0, insert p w)), csp_listen = (\<lambda>_ _ w. (0, w)),
     csp_accept = (\<lambda>_ _ w. (None, w)), csp_conn_src = (\<lambda>_ _. 0), csp_conn_sport = (\<lambda>_ _. 0), csp_err_nomem = -1\<rparr>"

definition rx_on :: "u8 \<Rightarrow> rx_state" where
  "rx_on p = \<lparr>rx_initialized = True, rx_csp_port = p, rx_socket = None\<rparr>"

theorem earlier_port_never_reopens_witness:
  "fst (open_rx_socket ports_env (c_close_rx_socket (rx_on 10\<lparr>rx_socket := Some 0\<rparr>))
     \<lparr>global_rx_socket = Some 0, global_rx_port = 12\<rparr> {12, 11, 10}) \<noteq> CSPCL_OK"
proof -
  let ?g = "\<lambda>p. \<lparr>global_rx_socket = Some 0, global_rx_port = p\<rparr>"
  have k: "ports_kept ports_env (\<lambda>w. w)" by (auto simp: ports_kept_def ports_env_def split: if_splits)
  have o: "open_rx_socket ports_env (rx_on 10) \<lparr>global_rx_socket = None, global_rx_port = 0\<rparr> {} =
      (CSPCL_OK, rx_on 10\<lparr>rx_socket := Some 0\<rparr>, ?g 10, {10})"
    "open_rx_socket ports_env (rx_on 11) (?g 10) {10} = (CSPCL_OK, rx_on 11\<lparr>rx_socket := Some 0\<rparr>, ?g 11, {11, 10})"
    "open_rx_socket ports_env (rx_on 12) (?g 11) {11, 10} = (CSPCL_OK, rx_on 12\<lparr>rx_socket := Some 0\<rparr>, ?g 12, {12, 11, 10})"
    by (simp_all add: open_rx_socket_def ports_env_def rx_on_def)
  have l: "(rx_later ports_env (\<lambda>w. w))\<^sup>*\<^sup>* (?g 11, {11, 10}) (?g 12, {12, 11, 10})"
    by (rule r_into_rtranclp, rule later_open [OF o(3)])
  show ?thesis
    by (rule earlier_port_never_reopens [OF k _ _ _ _ _ _ o(1,2) l])
      (simp_all add: rx_on_def c_close_rx_socket_def)
qed

end
