(* ===== verification/CspAddress.thy ===== *)
theory CspAddress
  imports CspclError "HOL-Library.List_Lexorder"
begin

text \<open>
  \<open>rust-bindings/cspcl/src/address.rs\<close>: a CSP address with its port, its derived order, and
  its conversion to and from bytes (the form in which a BPA stores it).
\<close>

datatype csp_address = CspAddress (addr: u8) (port: u8)

text \<open>The derived \<open>Ord\<close>: by the fields in their order of declaration.\<close>

instantiation csp_address :: linorder
begin

definition less_eq_csp_address :: "csp_address \<Rightarrow> csp_address \<Rightarrow> bool" where
  "less_eq_csp_address a b = (addr a < addr b \<or> addr a = addr b \<and> port a \<le> port b)"

definition less_csp_address :: "csp_address \<Rightarrow> csp_address \<Rightarrow> bool" where
  "less_csp_address a b = (addr a < addr b \<or> addr a = addr b \<and> port a < port b)"

instance
  by standard (auto simp: less_eq_csp_address_def less_csp_address_def intro: csp_address.expand)

end

text \<open>\<open>impl TryFrom<Bytes> for CspAddress\<close>: the iterator over the bytes is a list.\<close>

definition iter_next :: "'a list \<Rightarrow> 'a option \<times> 'a list" where
  "iter_next xs = (case xs of [] \<Rightarrow> (None, []) | y # ys \<Rightarrow> (Some y, ys))"

definition try_from_bytes :: "u8 list \<Rightarrow> csp_address cresult" where
  "try_from_bytes raw =
     (if length raw \<noteq> 2 then Inl ParseAddress
      else
        let (a, raw1) = iter_next raw
        in and_then (ok_or a ParseAddress) (\<lambda>a.
             let (p, raw2) = iter_next raw1
             in and_then (ok_or p ParseAddress) (\<lambda>p. Inr (CspAddress a p))))"

text \<open>\<open>impl From<CspAddress> for Bytes\<close>.\<close>

definition bytes_from :: "csp_address \<Rightarrow> u8 list" where
  "bytes_from val = [addr val, port val]"

lemma try_from_bytes_bytes_from [simp]: "try_from_bytes (bytes_from a) = Inr a"
  by (simp add: try_from_bytes_def bytes_from_def iter_next_def)

lemma try_from_bytes_Inr: "try_from_bytes bs = Inr a \<longleftrightarrow> bs = bytes_from a"
proof
  assume ok: "try_from_bytes bs = Inr a"
  then have "length bs = 2" by (simp add: try_from_bytes_def split: if_splits)
  then obtain x y where "bs = [x, y]" by (auto simp: numeral_2_eq_2 length_Suc_conv)
  with ok show "bs = bytes_from a"
    by (auto simp: try_from_bytes_def bytes_from_def iter_next_def)
qed simp

lemma try_from_bytes_Inl: "try_from_bytes bs = Inl e \<longleftrightarrow> length bs \<noteq> 2 \<and> e = ParseAddress"
proof (cases "length bs = 2")
  case True
  then obtain x y where "bs = [x, y]" by (auto simp: numeral_2_eq_2 length_Suc_conv)
  then show ?thesis by (simp add: try_from_bytes_def iter_next_def)
qed (auto simp: try_from_bytes_def)

interpretation address_bytes: codec bytes_from try_from_bytes "\<lambda>_. True"
  by unfold_locales simp_all

text \<open>
  The byte form of an address is exact: it decodes to the address, every byte string that
  decodes is the encoding of the result, two addresses never share an encoding, the encoding
  preserves the order, and every other byte string is refused with \<open>ParseAddress\<close>.
\<close>

theorem address_bytes_exact:
  "(try_from_bytes bs = Inr a \<longleftrightarrow> bs = bytes_from a) \<and>
   (try_from_bytes bs = Inl e \<longleftrightarrow> length bs \<noteq> 2 \<and> e = ParseAddress) \<and>
   (bytes_from a = bytes_from b \<longleftrightarrow> a = b) \<and> (bytes_from a < bytes_from b \<longleftrightarrow> a < b)"
  using try_from_bytes_Inr try_from_bytes_Inl address_bytes.enc_inj
  by (simp add: bytes_from_def less_csp_address_def csp_address.expand)

end
