(* ===== verification/Instance.thy ===== *)
theory Instance
  imports CspAddress SysTypes Receiver
begin

text \<open>
  The instance operations of the \<open>cspcl\<close> crate: \<open>instance.rs\<close> and \<open>bundle.rs\<close>
  (\<open>Cspcl::new\<close>, \<open>poll_connection\<close>, \<open>send_raw\<close>, \<open>send_bundle\<close>,
  \<open>send_bundle_async\<close>, \<open>flatten_join\<close>) and \<open>recv_bundle_from_conn\<close> of
  \<open>inbound.rs\<close>. The sequential functions take the C functions as arguments. The concurrent
  sends of an instance, which share its send lock and can be cancelled by dropping their
  future, are a step relation.
\<close>

section \<open>Sequential operations\<close>

text \<open>\<open>Cspcl::new\<close> up to the wrapping of the C instance (see \<open>sys_init\<close>).\<close>

definition cspcl_new ::
  "'w c_init \<Rightarrow> csp_address \<Rightarrow> interface_config \<Rightarrow> 'w \<Rightarrow>
   cspcl_t cresult \<times> 'w" where
  "cspcl_new cspcl_init local interface w =
     (let config = \<lparr>cfg_local_addr = addr local, cfg_csp_port = port local, cfg_interface = interface\<rparr>;
          (r, w') = init_from_config cspcl_init config w
      in (map_err from_raw r, w'))"

text \<open>\<open>Cspcl::is_initialized\<close>, and \<open>Cspcl::drop\<close>, which runs when no receiver thread is left.\<close>

definition is_initialized :: "cspcl_t \<Rightarrow> bool" where
  "is_initialized cspcl = c_initialized cspcl"

definition cspcl_drop :: "('c \<Rightarrow> 'w \<Rightarrow> 'c \<times> 'w) \<Rightarrow> 'c \<Rightarrow> 'w \<Rightarrow> 'c \<times> 'w" where
  "cspcl_drop cspcl_cleanup cspcl w = sys_cleanup cspcl_cleanup cspcl w"

text \<open>The timeout that \<open>poll_connection\<close> passes to C: clamped to \<open>u32\<close>, at least 1.\<close>

definition poll_timeout_ms :: "duration \<Rightarrow> u32" where
  "poll_timeout_ms timeout =
     max 1 (if as_millis timeout \<le> unat (- 1 :: u32) then of_nat (as_millis timeout) else - 1)"

definition poll_connection ::
  "('h, 'w) c_accept \<Rightarrow> receiver_mem \<Rightarrow> duration \<Rightarrow> 'w \<Rightarrow>
   'h accepted_conn cresult \<times> 'w" where
  "poll_connection cspcl_accept_conn m timeout w =
     (if \<not> is_receiving m then (Inl Timeout, w)
      else
        let (r, w') = accept_conn_raw cspcl_accept_conn (poll_timeout_ms timeout) w
        in (from_sys_result r, w'))"

text \<open>\<open>inbound::recv_bundle_from_conn\<close>.\<close>

definition recv_bundle_from_conn ::
  "('h, 'w) c_recv_from_conn \<Rightarrow> 'h accepted_conn \<Rightarrow> u8 list \<Rightarrow> 'w \<Rightarrow>
   bp_bundle cresult outcome \<times> u8 list \<times> 'w" where
  "recv_bundle_from_conn c_recv conn buffer w =
     (let (r, buffer', w') = recv_bundle_from_conn_into c_recv conn buffer w
      in case map_err from_raw r of
           Inl e \<Rightarrow> (Returns (Inl e), buffer', w')
         | Inr len \<Rightarrow>
             (case slice_to buffer' len of
                Panics \<Rightarrow> (Panics, buffer', w')
              | Returns bytes \<Rightarrow>
                  (Returns (Inr \<lparr>data = bytes, src_addr = ac_src_addr conn, src_port = ac_src_port conn\<rparr>),
                   buffer', w')))"

text \<open>
  \<open>Cspcl::send_raw\<close> once it has the send lock; \<open>cancelled\<close> is the flag it reads then
  (\<open>None\<close> for a send that cannot be cancelled).
\<close>

definition send_raw ::
  "'w c_send \<Rightarrow> u8 list \<Rightarrow> csp_address \<Rightarrow>
   bool option \<Rightarrow> 'w \<Rightarrow> unit cresult \<times> 'w" where
  "send_raw cspcl_send_bundle bundle dest cancelled w =
     (if cancelled = Some True then (Inl Cancelled, w)
      else
        let (r, w') = send_bundle_raw cspcl_send_bundle bundle (addr dest) (port dest) w
        in (map_err from_raw r, w'))"

definition send_bundle_unless_cancelled ::
  "'w c_send \<Rightarrow> u8 list \<Rightarrow> csp_address \<Rightarrow>
   bool option \<Rightarrow> 'w \<Rightarrow> unit cresult \<times> 'w" where
  "send_bundle_unless_cancelled cspcl_send_bundle bundle dest cancelled w =
     (if bundle = [] then (Inl InvalidParam, w)
      else case send_raw cspcl_send_bundle bundle dest cancelled w of
             (Inr _, w') \<Rightarrow> (Inr (), w')
           | (Inl Cancelled, w') \<Rightarrow> (Inl Cancelled, w')
           | (Inl e, w') \<Rightarrow> (Inl e, w'))"

definition send_bundle ::
  "'w c_send \<Rightarrow> u8 list \<Rightarrow> csp_address \<Rightarrow> 'w \<Rightarrow>
   unit cresult \<times> 'w" where
  "send_bundle cspcl_send_bundle bundle dest w =
     send_bundle_unless_cancelled cspcl_send_bundle bundle dest None w"

text \<open>What joining a tokio task gives: its result, its panic, or that it was cancelled.\<close>

datatype 'a joined = JoinOk 'a | JoinPanic | JoinCancelled

definition flatten_join :: "'a cresult joined \<Rightarrow> 'a cresult outcome" where
  "flatten_join joined =
     (case joined of
        JoinOk result \<Rightarrow> Returns result
      | JoinPanic \<Rightarrow> Panics
      | JoinCancelled \<Rightarrow> Returns (Inl Cancelled))"

section \<open>Concurrent sends\<close>

text \<open>
  A send of \<open>send_bundle_async\<close>: queued as a blocking task or for the send lock, holding the
  lock, inside C, finished with a result, or never started because the runtime shut down.
\<close>

datatype send_pc =
    SendNone
  | SendQueued
  | SendLocked
  | SendInC
  | SendDone "unit cresult"
  | SendAborted

record send_sys =
  sends :: "nat \<Rightarrow> send_pc"
  payload :: "nat \<Rightarrow> u8 list"
  cancelled :: "nat \<Rightarrow> bool"
  send_lock :: "nat option"
  entered :: "nat list"

definition send_init :: send_sys where
  "send_init = \<lparr>sends = (\<lambda>_. SendNone), payload = (\<lambda>_. []), cancelled = (\<lambda>_. False),
     send_lock = None, entered = []\<rparr>"

text \<open>\<open>CancelOnDrop::drop\<close>: the future of send \<open>i\<close> is dropped, or has completed.\<close>

definition cancel_on_drop :: "nat \<Rightarrow> send_sys \<Rightarrow> send_sys" where
  "cancel_on_drop i s = s\<lparr>cancelled := (cancelled s)(i := True)\<rparr>"

inductive send_step :: "send_sys \<Rightarrow> send_sys \<Rightarrow> bool" where
  send_submit: "sends s i = SendNone \<Longrightarrow>
    send_step s (s\<lparr>sends := (sends s)(i := SendQueued), payload := (payload s)(i := bundle),
      cancelled := (cancelled s)(i := False)\<rparr>)"
| send_empty: "sends s i = SendQueued \<Longrightarrow> payload s i = [] \<Longrightarrow>
    send_step s (s\<lparr>sends := (sends s)(i := SendDone (Inl InvalidParam))\<rparr>)"
| send_take_lock: "sends s i = SendQueued \<Longrightarrow> payload s i \<noteq> [] \<Longrightarrow> send_lock s = None \<Longrightarrow>
    send_step s (s\<lparr>sends := (sends s)(i := SendLocked), send_lock := Some i\<rparr>)"
| send_skip: "sends s i = SendLocked \<Longrightarrow> cancelled s i \<Longrightarrow>
    send_step s (s\<lparr>sends := (sends s)(i := SendDone (Inl Cancelled)), send_lock := None\<rparr>)"
| send_enter: "sends s i = SendLocked \<Longrightarrow> \<not> cancelled s i \<Longrightarrow>
    send_step s (s\<lparr>sends := (sends s)(i := SendInC), entered := entered s @ [i]\<rparr>)"
| send_return: "sends s i = SendInC \<Longrightarrow>
    send_step s (s\<lparr>sends := (sends s)(i := SendDone (map_err from_raw (ok_or_err code))), send_lock := None\<rparr>)"
| send_drop_future: "sends s i \<noteq> SendNone \<Longrightarrow> send_step s (cancel_on_drop i s)"
| send_abort: "sends s i = SendQueued \<Longrightarrow>
    send_step s (s\<lparr>sends := (sends s)(i := SendAborted)\<rparr>)"

section \<open>Lemmas\<close>

lemma from_raw_not_cancelled [simp]: "from_raw c \<noteq> Cancelled"
  by (simp add: from_raw_def)

lemma send_bundle_unless_cancelled_eq:
  "send_bundle_unless_cancelled c_send bundle dest flag w =
     (if bundle = [] then (Inl InvalidParam, w) else send_raw c_send bundle dest flag w)"
  by (simp add: send_bundle_unless_cancelled_def split: prod.split sum.split error.split)

text \<open>The invariant of the sends: who holds the lock, and which sends entered C.\<close>

fun has_entered :: "send_pc \<Rightarrow> bool" where
  "has_entered SendInC = True"
| "has_entered (SendDone r) = (r \<noteq> Inl Cancelled \<and> r \<noteq> Inl InvalidParam)"
| "has_entered _ = False"

definition send_inv :: "send_sys \<Rightarrow> bool" where
  "send_inv s \<longleftrightarrow>
     (\<forall>i. (sends s i = SendLocked \<or> sends s i = SendInC) \<longleftrightarrow> send_lock s = Some i) \<and>
     distinct (entered s) \<and>
     (\<forall>i \<in> set (entered s). sends s i = SendInC \<or> (\<exists>r. sends s i = SendDone r \<and> r \<noteq> Inl Cancelled)) \<and>
     (\<forall>i. has_entered (sends s i) \<longrightarrow> i \<in> set (entered s)) \<and>
     (\<forall>i. sends s i = SendDone (Inl Cancelled) \<longrightarrow> cancelled s i) \<and>
     (\<forall>i. sends s i = SendNone \<longrightarrow> \<not> cancelled s i)"

lemma send_invI:
  assumes "\<And>i. (sends s i = SendLocked \<or> sends s i = SendInC) \<longleftrightarrow> send_lock s = Some i"
    and "distinct (entered s)"
    and "\<And>i. i \<in> set (entered s) \<Longrightarrow> sends s i = SendInC \<or> (\<exists>r. sends s i = SendDone r \<and> r \<noteq> Inl Cancelled)"
    and "\<And>i. has_entered (sends s i) \<Longrightarrow> i \<in> set (entered s)"
    and "\<And>i. sends s i = SendDone (Inl Cancelled) \<Longrightarrow> cancelled s i"
    and "\<And>i. sends s i = SendNone \<Longrightarrow> \<not> cancelled s i"
  shows "send_inv s"
  unfolding send_inv_def using assms by blast

lemma send_invD:
  assumes "send_inv s"
  shows "(sends s i = SendLocked \<or> sends s i = SendInC) \<longleftrightarrow> send_lock s = Some i"
    and "distinct (entered s)"
    and "i \<in> set (entered s) \<Longrightarrow> sends s i = SendInC \<or> (\<exists>r. sends s i = SendDone r \<and> r \<noteq> Inl Cancelled)"
    and "has_entered (sends s i) \<Longrightarrow> i \<in> set (entered s)"
    and "sends s i = SendDone (Inl Cancelled) \<Longrightarrow> cancelled s i"
    and "sends s i = SendNone \<Longrightarrow> \<not> cancelled s i"
  using assms unfolding send_inv_def by blast+

lemma send_inv_init: "send_inv send_init"
  by (simp add: send_inv_def send_init_def)

lemma send_lock_cases:
  assumes "send_inv s" and "send_lock s = None"
  shows "sends s i \<noteq> SendLocked" "sends s i \<noteq> SendInC"
  using send_invD(1) [OF assms(1), of i] assms(2) by auto

lemma send_inv_step: "send_step s t \<Longrightarrow> send_inv s \<Longrightarrow> send_inv t"
proof (induction rule: send_step.induct)
  case (send_submit s i data)
  note D = send_invD [OF send_submit(2)]
  have new: "i \<notin> set (entered s)" "send_lock s \<noteq> Some i"
    using D(1,3) [of i] send_submit(1) by auto
  show ?case
    by (rule send_invI) (use D new send_submit(1) in \<open>auto split: if_splits\<close>)
next
  case (send_empty s i)
  note D = send_invD [OF send_empty(3)]
  have new: "i \<notin> set (entered s)" "send_lock s \<noteq> Some i"
    using D(1,3) [of i] send_empty(1) by auto
  show ?case
    by (rule send_invI) (use D new send_empty(1) in \<open>auto split: if_splits\<close>)
next
  case (send_take_lock s i)
  note D = send_invD [OF send_take_lock(4)]
  have new: "i \<notin> set (entered s)" using D(3) [of i] send_take_lock(1) by auto
  show ?case
    by (rule send_invI) (use D new send_take_lock(1,3) in \<open>auto split: if_splits\<close>)
next
  case (send_skip s i)
  note D = send_invD [OF send_skip(3)]
  have new: "i \<notin> set (entered s)" and lk: "send_lock s = Some i"
    using D(1,3) [of i] send_skip(1) by auto
  have oth: "sends s j \<noteq> SendLocked" "sends s j \<noteq> SendInC" if "j \<noteq> i" for j
    using D(1) [of j] lk that by auto
  have ent: "\<exists>r. sends s j = SendDone r \<and> r \<noteq> Inl Cancelled" if "j \<in> set (entered s)" "j \<noteq> i" for j
    using D(3) [OF that(1)] oth [OF that(2)] by auto
  show ?case
    by (rule send_invI) (use D(2,4-) oth ent new lk send_skip in \<open>auto split: if_splits\<close>)
next
  case (send_enter s i)
  note D = send_invD [OF send_enter(3)]
  have new: "i \<notin> set (entered s)" and lk: "send_lock s = Some i"
    using D(1,3) [of i] send_enter(1) by auto
  have oth: "sends s j \<noteq> SendLocked" "sends s j \<noteq> SendInC" if "j \<noteq> i" for j
    using D(1) [of j] lk that by auto
  have ent: "\<exists>r. sends s j = SendDone r \<and> r \<noteq> Inl Cancelled" if "j \<in> set (entered s)" "j \<noteq> i" for j
    using D(3) [OF that(1)] oth [OF that(2)] by auto
  show ?case
    by (rule send_invI) (use D(2,4-) oth ent new lk send_enter in \<open>auto split: if_splits\<close>)
next
  case (send_return s i code)
  note D = send_invD [OF send_return(2)]
  have prev: "i \<in> set (entered s)" and lk: "send_lock s = Some i"
    using D(1) [of i] D(4) [of i] send_return(1) by auto
  have nc: "map_err from_raw (ok_or_err code) \<noteq> Inl Cancelled"
    by (simp add: ok_or_err_def)
  have oth: "sends s j \<noteq> SendLocked" "sends s j \<noteq> SendInC" if "j \<noteq> i" for j
    using D(1) [of j] lk that by auto
  have ent: "\<exists>r. sends s j = SendDone r \<and> r \<noteq> Inl Cancelled" if "j \<in> set (entered s)" "j \<noteq> i" for j
    using D(3) [OF that(1)] oth [OF that(2)] by auto
  show ?case
    by (rule send_invI) (use D(2,4-) oth ent prev lk nc send_return(1) in \<open>auto split: if_splits\<close>)
next
  case (send_drop_future s i)
  note D = send_invD [OF send_drop_future(2)]
  show ?case
    by (rule send_invI) (use D send_drop_future(1) in \<open>auto simp: cancel_on_drop_def split: if_splits\<close>)
next
  case (send_abort s i)
  note D = send_invD [OF send_abort(2)]
  have new: "i \<notin> set (entered s)" "send_lock s \<noteq> Some i"
    using D(1,3) [of i] send_abort(1) by auto
  show ?case
    by (rule send_invI) (use D new send_abort(1) in \<open>auto split: if_splits\<close>)
qed

interpretation sending: invariant_system send_init send_step send_inv
  by unfold_locales (rule send_inv_init, rule send_inv_step)

abbreviation send_reach :: "send_sys \<Rightarrow> bool" where
  "send_reach \<equiv> reach send_init send_step"

section \<open>Properties of the send path\<close>

lemma send_reach_inv: "send_reach s \<Longrightarrow> send_inv s"
  by (rule sending.inv_reach)

text \<open>
  C19: the sends of an instance are serialized and none is sent twice: at most one of them
  holds the send lock or is inside C, each enters C at most once, a send that ended with
  \<open>Cancelled\<close> never entered C and its future was dropped, and one that ended with success or
  with a failure of the C layer entered it.
\<close>

theorem sends_serialized:
  assumes "send_reach s"
  shows "(sends s i \<in> {SendLocked, SendInC} \<and> sends s j \<in> {SendLocked, SendInC} \<longrightarrow> i = j) \<and>
    distinct (entered s) \<and>
    (sends s i = SendDone (Inl Cancelled) \<longrightarrow> i \<notin> set (entered s) \<and> cancelled s i) \<and>
    (sends s i = SendDone r \<and> r \<notin> {Inl Cancelled, Inl InvalidParam} \<longrightarrow> i \<in> set (entered s))"
proof -
  note D = send_invD [OF send_reach_inv [OF assms]]
  have "i \<in> set (entered s)" if "sends s i = SendDone r" "r \<noteq> Inl Cancelled" "r \<noteq> Inl InvalidParam"
    using D(4) [of i] that by simp
  moreover have "i = j" if "sends s i \<in> {SendLocked, SendInC}" "sends s j \<in> {SendLocked, SendInC}"
    using D(1) [of i] D(1) [of j] that by auto
  moreover have "i \<notin> set (entered s) \<and> cancelled s i" if "sends s i = SendDone (Inl Cancelled)"
    using D(3) [of i] D(5) [of i] that by auto
  ultimately show ?thesis using D(2) by blast
qed

definition send_sample :: send_sys where
  "send_sample = send_init\<lparr>sends := (sends send_init)(0 := SendInC), payload := (payload send_init)(0 := [7]),
     send_lock := Some 0, entered := [0]\<rparr>"

lemma send_sample_reach: "send_reach send_sample"
proof -
  let ?q = "send_init\<lparr>sends := (sends send_init)(0 := SendQueued), payload := (payload send_init)(0 := [7]),
    cancelled := (cancelled send_init)(0 := False)\<rparr>"
  let ?l = "?q\<lparr>sends := (sends ?q)(0 := SendLocked), send_lock := Some 0\<rparr>"
  let ?c = "?l\<lparr>sends := (sends ?l)(0 := SendInC), entered := entered ?l @ [0]\<rparr>"
  have "send_reach ?q"
    by (rule reach_step [OF reach_init], rule send_step.send_submit) (simp add: send_init_def)
  then have "send_reach ?l"
    by (rule reach_step, intro send_step.send_take_lock) (simp_all add: send_init_def)
  then have "send_reach ?c"
    by (rule reach_step, intro send_step.send_enter) simp_all
  moreover have "?c = send_sample" by (simp add: send_sample_def send_init_def fun_upd_idem)
  ultimately show ?thesis by simp
qed

theorem sends_serialized_witness:
  "sends send_sample 0 = SendInC \<and> distinct (entered send_sample) \<and>
   sends send_sample 1 \<notin> {SendLocked, SendInC}"
  using sends_serialized [OF send_sample_reach, of 0 1] by (simp add: send_sample_def)

text \<open>Once set, the flag stays set; a send that never entered C enters it only with the flag clear.\<close>

lemma cancelled_stays:
  assumes "send_step s t" and "cancelled s i" and "send_inv s" and "i \<notin> set (entered s)"
  shows "cancelled t i \<and> i \<notin> set (entered t)"
  using assms(1)
proof cases
  case (send_submit j data)
  with assms(2) send_invD(6) [OF assms(3), of i] show ?thesis using assms(4) by auto
qed (use assms in \<open>auto simp: cancel_on_drop_def\<close>)

text \<open>
  C20: dropping the future of \<open>send_bundle_async\<close> before the send has started skips it for
  good: whatever the other sends do afterwards, this send never enters C, and its bundle is
  not sent.
\<close>

theorem cancelled_send_never_enters:
  assumes "send_reach s" and "cancelled s i" and "i \<notin> set (entered s)" and "send_step\<^sup>*\<^sup>* s t"
  shows "i \<notin> set (entered t) \<and> sends t i \<noteq> SendInC \<and> sends t i \<noteq> SendDone (Inr ())"
proof -
  from assms(4) have "send_inv t \<and> cancelled t i \<and> i \<notin> set (entered t)"
  proof (induction rule: rtranclp_induct)
    case base
    with assms show ?case by (simp add: send_reach_inv)
  next
    case (step u v)
    with cancelled_stays [of u v i] sending.inv_step [of u v] show ?case by blast
  qed
  then show ?thesis using send_invD(4) [of t i] by auto
qed

definition send_dropped :: send_sys where
  "send_dropped = cancel_on_drop 1
     (send_sample\<lparr>sends := (sends send_sample)(1 := SendQueued), payload := (payload send_sample)(1 := [8]),
       cancelled := (cancelled send_sample)(1 := False)\<rparr>)"

lemma send_dropped_reach: "send_reach send_dropped"
proof -
  let ?q = "send_sample\<lparr>sends := (sends send_sample)(1 := SendQueued),
    payload := (payload send_sample)(1 := [8]), cancelled := (cancelled send_sample)(1 := False)\<rparr>"
  have "send_step send_sample ?q"
    by (rule send_step.send_submit) (simp add: send_sample_def send_init_def)
  moreover have "send_step ?q send_dropped"
    unfolding send_dropped_def by (rule send_step.send_drop_future) simp
  ultimately show ?thesis using send_sample_reach by (blast intro: reach.intros)
qed

text \<open>The first send has returned, the dropped one has the send lock.\<close>

definition send_dropped_turn :: send_sys where
  "send_dropped_turn = send_dropped\<lparr>sends := ((sends send_dropped)(0 := SendDone (Inr ())))(1 := SendLocked),
     send_lock := Some 1\<rparr>"

lemma send_dropped_turn_steps: "send_step\<^sup>*\<^sup>* send_dropped send_dropped_turn"
proof -
  let ?r = "send_dropped\<lparr>sends := (sends send_dropped)(0 := SendDone (Inr ())), send_lock := None\<rparr>"
  note defs = send_dropped_def cancel_on_drop_def send_sample_def
  have "send_step send_dropped ?r"
    using send_step.send_return [of send_dropped 0 CSPCL_OK] by (simp add: defs ok_or_err_def)
  moreover have "send_step ?r (?r\<lparr>sends := (sends ?r)(1 := SendLocked), send_lock := Some 1\<rparr>)"
    by (rule send_step.send_take_lock) (simp_all add: defs)
  ultimately show ?thesis by (auto simp: send_dropped_turn_def intro: rtranclp_trans)
qed

theorem cancelled_send_never_enters_witness:
  "cancelled send_dropped 1 \<and> sends send_dropped_turn 1 = SendLocked \<and> 1 \<notin> set (entered send_dropped_turn)"
proof -
  have "cancelled send_dropped 1" "1 \<notin> set (entered send_dropped)" "sends send_dropped_turn 1 = SendLocked"
    by (simp_all add: send_dropped_def cancel_on_drop_def send_sample_def send_dropped_turn_def)
  with cancelled_send_never_enters [OF send_dropped_reach _ _ send_dropped_turn_steps] show ?thesis
    by blast
qed

text \<open>
  What a blocking send returns and does. An empty bundle is refused and a cancelled send
  skipped, both without calling C; otherwise C is called exactly once with the bundle, its
  length and the destination, success is success of C, and any other code is returned as the
  error that stands for it.
\<close>

theorem send_bundle_result:
  "send_bundle_unless_cancelled c_send bytes dest flag w =
     (if bytes = [] then (Inl InvalidParam, w)
      else if flag = Some True then (Inl Cancelled, w)
      else let (code, w') = c_send bytes (length bytes) (addr dest) (port dest) w
           in (if code = CSPCL_OK then Inr () else Inl (from_raw code), w'))"
  by (simp add: send_bundle_unless_cancelled_eq send_raw_def send_bundle_raw_def prim_defs ok_or_err_def Let_def
      split: prod.split)

text \<open>
  Reading a bundle never panics and never returns bytes beyond it, provided that C reports
  a length within the buffer it was given, as its documentation says: the bundle is the first
  \<open>len\<close> bytes that C wrote, and its source is the one of the accepted connection.
\<close>

theorem recv_bundle_exact:
  assumes C: "c_recv (ac_conn conn) buffer (length buffer) 0 0 (ac_src_addr conn) (ac_src_port conn) w =
      (code, buffer', len, sa, sp, w')"
    and within: "code = CSPCL_OK \<Longrightarrow> len \<le> length buffer'"
  shows "recv_bundle_from_conn c_recv conn buffer w =
    (Returns (if code = CSPCL_OK
              then Inr \<lparr>data = take len buffer', src_addr = ac_src_addr conn, src_port = ac_src_port conn\<rparr>
              else Inl (from_raw code)), buffer', w')"
  using assms by (simp add: recv_bundle_from_conn_def recv_bundle_from_conn_into_def ok_or_err_def
      prim_defs slice_to_def)

definition sample_c_recv :: "(unit, unit) c_recv_from_conn" where
  "sample_c_recv conn buffer cap sa sp a p w = (CSPCL_OK, [9, 8] @ drop 2 buffer, min 2 cap, a, p, w)"

theorem recv_bundle_exact_witness:
  "recv_bundle_from_conn sample_c_recv \<lparr>ac_conn = Some (), ac_src_addr = 5, ac_src_port = 60\<rparr> [0, 0, 0] () =
     (Returns (Inr \<lparr>data = [9, 8], src_addr = 5, src_port = 60\<rparr>), [9, 8, 0], ())"
  using recv_bundle_exact [of sample_c_recv "\<lparr>ac_conn = Some (), ac_src_addr = 5, ac_src_port = 60\<rparr>"
    "[0, 0, 0]" "()" CSPCL_OK "[9, 8, 0]" 2 5 60 "()"]
  by (simp add: sample_c_recv_def)

text \<open>
  The accept timeout passed to C is never 0 (which C would take as its own default), and
  is the given one in milliseconds whenever that fits 32 bits.
\<close>

theorem poll_timeout_bounds:
  "1 \<le> unat (poll_timeout_ms timeout) \<and>
   unat (poll_timeout_ms timeout) = max 1 (min (as_millis timeout) (2 ^ 32 - 1))"
proof -
  have top: "unat (- 1 :: u32) = 2 ^ 32 - 1" by (simp add: unsigned_minus_1_eq_mask mask_eq_exp_minus_1)
  have fits: "unat (of_nat n :: u32) = n" if "n \<le> 2 ^ 32 - 1" for n
    using that by (simp add: unsigned_of_nat take_bit_nat_eq_self)
  have mx: "unat (max 1 x) = max 1 (unat x)" for x :: u32
    by (simp add: max_def word_le_nat_alt)
  show ?thesis
    by (cases "as_millis timeout \<le> 2 ^ 32 - 1") (simp_all add: poll_timeout_ms_def top mx fits)
qed

end
