(* ===== verification/CDelivery.thy ===== *)
theory CDelivery
  imports CRecv Instance
begin

text \<open>
  The instance of the crate \<open>cspcl\<close> over the C core: what a send's result says about the peer, and
  what a send leaves in the pool of connections.
\<close>

section \<open>A sample environment\<close>

text \<open>
  Connections are the positions of a list, \<open>None\<close> for a closed one; an open one has the bundles sent
  on it, those whose acknowledgement was read first. The peer receives every bundle.
\<close>

type_synonym wire = "(u8 list list \<times> u8 list list) option list"

definition wire_at :: "'c option list \<Rightarrow> nat \<Rightarrow> 'c option" where
  "wire_at w h = (if h < length w then w ! h else None)"

definition wire_env :: "wire send_env" where
  "wire_env = \<lparr>
     csp_connect = (\<lambda>_ _ w. (Some (length w), w @ [Some ([], [])])),
     csp_close = (\<lambda>h w. w[h := None]),
     time_now = (\<lambda>w. (0, w)),
     mutex_init = (\<lambda>w. (True, w)),
     mutex_lock = (\<lambda>w. (True, w)),
     mutex_unlock = (\<lambda>w. (True, w)), mutex_destroy = (\<lambda>w. w),
     csp_sfp_send = (\<lambda>h b n _ _ w. case wire_at w h of
        None \<Rightarrow> (-1, w)
      | Some (as, us) \<Rightarrow> (0, w[h := Some (as, us @ [take (unat n) b])])),
     csp_read = (\<lambda>h _ w. case wire_at w h of
        None \<Rightarrow> (None, w)
      | Some (as, []) \<Rightarrow> (None, w)
      | Some (as, u # us) \<Rightarrow> (Some [202], w[h := Some (as @ [u], us)])),
     csp_buffer_free = (\<lambda>_ w. w),
     csp_err_none = 0, csp_err_timedout = -3\<rparr>"

definition wire_link :: "wire link" where
  "wire_link = \<lparr>opens = (\<lambda>w. {h. wire_at w h \<noteq> None}),
     sent = (\<lambda>w h. case wire_at w h of Some (as, us) \<Rightarrow> as @ us | None \<Rightarrow> []),
     acked = (\<lambda>w h. case wire_at w h of Some (as, _) \<Rightarrow> length as | None \<Rightarrow> 0),
     delivered = (\<lambda>w h. case wire_at w h of Some (as, us) \<Rightarrow> length as + length us | None \<Rightarrow> 0)\<rparr>"

lemma wire_at_simps [simp]:
  "wire_at [] h = None"
  "wire_at (w @ [c]) h = (if h = length w then c else wire_at w h)"
  "h < length w \<Longrightarrow> wire_at (w[h := c]) g = (if g = h then c else wire_at w g)"
  "wire_at (w[h := None]) g = (if g = h then None else wire_at w g)"
  "wire_at w (length w) = None"
  by (auto simp: wire_at_def nth_append nth_list_update)

lemma wire_at_lt: "wire_at w h = Some x \<Longrightarrow> h < length w"
  by (simp add: wire_at_def split: if_splits)

lemmas wire_defs = wire_env_def wire_link_def same_traffic_def

lemma wire_conn: "conn_env_ok wire_env (opens wire_link)"
  unfolding conn_env_ok_def by (auto simp: wire_defs)

lemma wire_calls: "calls_ok wire_env wire_link"
  unfolding calls_ok_def by (auto simp: wire_defs)

lemma wire_transfer: "transfer_ok wire_env wire_link"
  unfolding transfer_ok_def by (auto simp: wire_defs wire_at_lt split: option.splits if_splits prod.splits list.splits)

lemma wire_ok: "send_env_ok wire_env wire_link" "peer_ok wire_link"
  using wire_conn wire_calls wire_transfer
  by (auto simp: send_env_ok_def peer_ok_def wire_defs split: option.splits)

definition fresh_sender :: "send_state" where
  "fresh_sender = \<lparr>initialized = True, pool = fst (snd (conn_pool_init wire_env None []))\<rparr>"

lemma fresh_sender_ok: "sender_ok wire_link (pool fresh_sender) []"
proof -
  have "conn_pool_init wire_env None [] = (CSPCL_OK, pool fresh_sender, [])"
    by (simp add: conn_pool_init_def wire_env_def fresh_sender_def)
  from conn_pool_init_owns [OF wire_conn this] show ?thesis by (simp add: sender_ok_def)
qed

text \<open>A send on a pool with no connection, unfolded.\<close>

lemma pool_scan_unused:
  "\<forall>e \<in> set es. \<not> used e \<Longrightarrow> pool_scan da dp i es free = (None, if es = [] \<or> free \<noteq> None then free else Some i)"
  by (induction es arbitrary: i free) auto

lemma lookup_unused:
  assumes "entries p = e # es" and "\<forall>e \<in> set (entries p). \<not> used e"
  shows "pool_get_or_create env da dp p w = pool_create env da dp (Some 0) (p\<lparr>tick := tick p + 1\<rparr>) w"
  using assms by (simp add: pool_get_or_create_def pool_scan_unused)

lemma fresh_entries: "entries (pool fresh_sender) = entry_zero # replicate 15 entry_zero"
  by (simp add: fresh_sender_def conn_pool_init_def wire_env_def pool_zero_def CSPCL_CONN_POOL_SIZE_def
      numeral_eq_Suc)

lemma fresh_unused: "\<forall>e \<in> set (entries (pool fresh_sender)). \<not> used e" "pool_initialized (pool fresh_sender)"
  "initialized fresh_sender"
  by (simp_all add: fresh_entries entry_zero_def) (simp_all add: fresh_sender_def conn_pool_init_def wire_env_def)

definition first_pool :: conn_pool where
  "first_pool = fst (snd (pool_create wire_env 5 10 (Some 0) ((pool fresh_sender)\<lparr>tick := tick (pool fresh_sender) + 1\<rparr>) []))"

lemma wire_sel:
  "csp_connect wire_env a p w = (Some (length w), w @ [Some ([], [])])" "csp_close wire_env h w = w[h := None]"
  "time_now wire_env w = (0, w)" "mutex_lock wire_env w = (True, w)" "mutex_unlock wire_env w = (True, w)"
  "csp_buffer_free wire_env pk w = w" "csp_err_none wire_env = 0" "csp_err_timedout wire_env = -3"
  by (simp_all add: wire_env_def)

lemma wire_confirm:
  "h = length w \<Longrightarrow> send_and_confirm wire_env h [7, 8] 2 (w @ [Some ([], [])]) = (0, w @ [Some ([[7, 8]], [])])"
  unfolding send_and_confirm_def wait_ack_def by (simp add: wire_env_def)

lemmas send_defs = c_send_bundle_def CSPCL_MAX_BUNDLE_SIZE_def pool_create_def pool_slot_def

lemma fresh_send:
  "c_send_bundle wire_env (Some [7, 8]) 2 5 10 (fresh_sender, []) =
     (CSPCL_OK, fresh_sender\<lparr>pool := first_pool\<rparr>, [Some ([[7, 8]], [])])"
  by (simp add: send_defs fresh_unused send_attempts.simps [of _ _ _ _ _ 0] wire_sel first_pool_def
      lookup_unused [OF fresh_entries fresh_unused(1)] wire_confirm [of 0 "[]", simplified])

section \<open>Delivery\<close>

text \<open>The C function as the Rust code calls it, on a buffer with its length.\<close>

definition c_send_of :: "('w, 'm) send_env_scheme \<Rightarrow> (send_state \<times> 'w) c_send" where
  "c_send_of env b n da dp sw = c_send_bundle env (Some b) n da dp sw"

lemma instance_send_ok:
  assumes "send_bundle_unless_cancelled (c_send_of env) bun dest flag (s, w) = (Inr (), s', w')"
  shows "c_send_bundle env (Some bun) (length bun) (addr dest) (port dest) (s, w) = (CSPCL_OK, s', w')"
  using assms by (auto simp: send_bundle_unless_cancelled_eq send_raw_def send_bundle_raw_def prim_defs
      c_send_of_def ok_or_err_def split: if_splits prod.splits)

text \<open>
  If the instance reports a bundle as sent, then it was transmitted on the pool's connection to
  the destination, as the last one, and the peer has received every bundle of that connection: an
  acknowledgement of an earlier bundle is never taken for this one's.
\<close>

theorem sent_bundle_was_delivered:
  assumes "send_env_ok env L" and "peer_ok L" and "sender_ok L (pool s) w"
    and "send_bundle_unless_cancelled (c_send_of env) bun dest flag (s, w) = (Inr (), s', w')"
  shows "\<exists>h earlier. pool_has (addr dest) (port dest) h (pool s') \<and> sent L w' h = earlier @ [bun] \<and>
    delivered L w' h = length (sent L w' h)"
proof -
  note c = c_send_bundle_result [OF assms(1,3) instance_send_ok [OF assms(4)]]
  obtain h earlier where h: "pool_has (addr dest) (port dest) h (pool s')" "sent L w' h = earlier @ [bun]"
    using c(3) by (auto simp: confirmed_def)
  have "h \<in> pool_conns (pool s')" using c(1) h(1) pool_has_pool by (auto simp: sender_ok_def)
  then have "h \<in> opens L w' \<and> quiet L w' h" using c(1) by (auto simp: sender_ok_def pool_owns_def)
  then have "delivered L w' h = length (sent L w' h)" using assms(2) by (force simp: peer_ok_def quiet_def)
  with h show ?thesis by blast
qed

theorem sent_bundle_was_delivered_witness:
  "\<exists>h earlier. pool_has 5 10 h first_pool \<and> sent wire_link [Some ([[7, 8]], [])] h = earlier @ [[7, 8]] \<and>
     delivered wire_link [Some ([[7, 8]], [])] h = length (sent wire_link [Some ([[7, 8]], [])] h)"
proof -
  have "send_bundle_unless_cancelled (c_send_of wire_env) [7, 8] (CspAddress 5 10) None (fresh_sender, []) =
      (Inr (), fresh_sender\<lparr>pool := first_pool\<rparr>, [Some ([[7, 8]], [])])"
    using fresh_send
    by (simp add: send_bundle_unless_cancelled_eq send_raw_def send_bundle_raw_def prim_defs c_send_of_def
        numeral_2_eq_2 [symmetric] ok_or_err_def)
  from sent_bundle_was_delivered [OF wire_ok fresh_sender_ok this] show ?thesis by simp
qed

text \<open>
  C12: a send keeps the pool's connections its own: they are open, at most one per destination and
  with every bundle acknowledged, no other connection is closed or left open by it. After a
  time-out or a failed transmission no connection to the destination stays in the pool.
\<close>

theorem send_keeps_connections:
  assumes "send_env_ok env L" and "sender_ok L (pool s) w"
    and "c_send_bundle env bundle_ptr len da dp (s, w) = (code, s', w')"
  shows "sender_ok L (pool s') w' \<and> opens L w' - pool_conns (pool s') = opens L w - pool_conns (pool s) \<and>
    (code = CSPCL_ERR_TIMEOUT \<or> code = CSPCL_ERR_CSP_SEND \<longrightarrow> no_conn_to da dp (pool s'))"
  using c_send_bundle_result [OF assms] by (simp add: foreign_def)

text \<open>A connection that does not answer: the send fails and it is closed.\<close>

definition deaf_env :: "wire send_env" where
  "deaf_env = wire_env\<lparr>csp_read := \<lambda>_ _ w. (None, w)\<rparr>"

lemma deaf_ok: "send_env_ok deaf_env wire_link"
proof -
  have "conn_env_ok deaf_env (opens wire_link)" "calls_ok deaf_env wire_link"
    using wire_conn wire_calls by (simp_all add: conn_env_ok_def calls_ok_def deaf_env_def)
  moreover have "transfer_ok deaf_env wire_link"
    using wire_transfer by (simp add: transfer_ok_def deaf_env_def) (simp add: wire_defs)
  ultimately show ?thesis by (simp add: send_env_ok_def) (simp add: deaf_env_def wire_env_def)
qed

lemma deaf_sel:
  "csp_connect deaf_env a p w = (Some (length w), w @ [Some ([], [])])" "csp_close deaf_env h w = w[h := None]"
  "time_now deaf_env w = (0, w)" "mutex_lock deaf_env w = (True, w)" "mutex_unlock deaf_env w = (True, w)"
  "csp_buffer_free deaf_env pk w = w" "csp_err_none deaf_env = 0" "csp_err_timedout deaf_env = -3"
  "csp_read deaf_env h t w = (None, w)" "csp_sfp_send deaf_env = csp_sfp_send wire_env"
  by (simp_all add: deaf_env_def wire_env_def)

lemma deaf_confirm:
  "h = length w \<Longrightarrow> send_and_confirm deaf_env h [7, 8] 2 (w @ [Some ([], [])]) = (-3, w @ [Some ([], [[7, 8]])])"
  unfolding send_and_confirm_def wait_ack_def deaf_sel by (simp add: wire_env_def)

text \<open>An attempt on a pool with no connection leaves one with no connection.\<close>

lemma deaf_attempt:
  assumes "entries p = e # es" and "\<forall>e \<in> set (entries p). \<not> used e" and "attempt < 2"
  shows "\<exists>q f fs. entries q = f # fs \<and> (\<forall>e \<in> set (entries q). \<not> used e) \<and>
    send_attempts deaf_env [7, 8] 2 5 10 attempt ret p w =
      send_attempts deaf_env [7, 8] 2 5 10 (Suc attempt) (-3) q (w @ [None])"
proof -
  let ?f = "\<lparr>used = True, dest_addr = 5, dest_port = 10, conn = Some (length w), last_used = tick p + 1, connected_at = 0\<rparr>"
  let ?q = "upd_stats (\<lambda>st. st\<lparr>invalidations := invalidations st + 1\<rparr>)
    (upd_entry 0 (\<lambda>e. e\<lparr>conn := None, used := False\<rparr>) (upd_stats (\<lambda>st. st\<lparr>misses := misses st + 1\<rparr>)
      (upd_entry 0 (\<lambda>_. ?f) (p\<lparr>tick := tick p + 1\<rparr>))))"
  have "send_attempts deaf_env [7, 8] 2 5 10 attempt ret p w =
      send_attempts deaf_env [7, 8] 2 5 10 (Suc attempt) (-3) ?q (w @ [None])"
    using assms by (simp add: send_attempts.simps [of _ _ _ _ _ attempt] lookup_unused [OF assms(1,2)] pool_create_def
        pool_slot_def deaf_sel deaf_confirm pool_invalidate_def clear_entry_def)
  moreover have "entries ?q = ?f\<lparr>conn := None, used := False\<rparr> # es" "\<forall>e \<in> set (entries ?q). \<not> used e"
    using assms(1,2) by simp_all
  ultimately show ?thesis by blast
qed

theorem send_keeps_connections_witness:
  "\<exists>s'. c_send_bundle deaf_env (Some [7, 8]) 2 5 10 (fresh_sender, []) = (CSPCL_ERR_TIMEOUT, s', [None, None]) \<and>
     sender_ok wire_link (pool s') [None, None] \<and> no_conn_to 5 10 (pool s')"
proof -
  obtain q e es where q: "entries q = e # es" "\<forall>e \<in> set (entries q). \<not> used e"
    "send_attempts deaf_env [7, 8] 2 5 10 0 (-3) (pool fresh_sender) [] =
      send_attempts deaf_env [7, 8] 2 5 10 1 (-3) q [None]"
    using deaf_attempt [OF fresh_entries fresh_unused(1), of 0 "-3" "[]"] by auto
  obtain q' where q': "send_attempts deaf_env [7, 8] 2 5 10 1 (-3) q [None] =
      send_attempts deaf_env [7, 8] 2 5 10 2 (-3) q' [None, None]"
    using deaf_attempt [OF q(1,2), of 1 "-3" "[None]"] by (auto simp: numeral_2_eq_2)
  have r: "c_send_bundle deaf_env (Some [7, 8]) 2 5 10 (fresh_sender, []) =
      (CSPCL_ERR_TIMEOUT, fresh_sender\<lparr>pool := q'\<rparr>, [None, None])"
    by (simp add: send_defs fresh_unused deaf_sel q(3) q' [simplified] send_attempts.simps [of _ _ _ _ _ 2])
  from send_keeps_connections [OF deaf_ok fresh_sender_ok r] r show ?thesis by blast
qed

section \<open>Acknowledging what was received\<close>

text \<open>A call of \<open>recv_bundle_from_conn\<close> over the C core.\<close>

lemma recv_call_result:
  assumes env: "recv_env_ok env acks"
    and r: "recv_bundle_from_conn (c_recv_bundle_from_conn env) c buffer w = (out, buffer', w')"
  shows "case out of
      Panics \<Rightarrow> False
    | Returns (Inl e) \<Rightarrow> acks w' = acks w
    | Returns (Inr b) \<Rightarrow> \<exists>h bytes n w1. ac_conn c = Some h \<and>
        csp_sfp_recv env h C_SFP_TIMEOUT_MS w = ((csp_err_none env, Some bytes, n), w1) \<and>
        data b = take (nat n) bytes \<and> nat n \<le> length buffer \<and>
        (acks w' = acks w \<or> acks w' = (acks w)(h := acks w h + 1))"
proof -
  obtain code buf' len' sa sp v where c: "recv_from_conn_timeout env (ac_conn c) buffer (length buffer) 0 0
      (ac_src_addr c) (ac_src_port c) C_SFP_TIMEOUT_MS w = (code, buf', len', sa, sp, v)" by (metis prod_cases6)
  note res = recv_from_conn_result [OF env c]
  show ?thesis
  proof (cases "code = CSPCL_OK")
    case True
    then obtain h bytes n w1 where h: "ac_conn c = Some h"
        "csp_sfp_recv env h C_SFP_TIMEOUT_MS w = ((csp_err_none env, Some bytes, n), w1)"
        "nat n \<le> length buffer" "nat n \<le> length bytes" "len' = nat n" "buf' = take (nat n) bytes @ drop (nat n) buffer"
        "acks v = acks w \<or> acks v = (acks w)(h := acks w h + 1)"
      using res by auto
    then have "length buf' = length buffer" "take len' buf' = take (nat n) bytes" by simp_all
    then show ?thesis
      using r c True h by (auto simp: recv_bundle_from_conn_def recv_bundle_from_conn_into_def prim_defs
          c_recv_bundle_from_conn_def ok_or_err_def slice_to_def)
  next
    case False
    with r c res show ?thesis
      by (auto simp: recv_bundle_from_conn_def recv_bundle_from_conn_into_def prim_defs
          c_recv_bundle_from_conn_def ok_or_err_def)
  qed
qed

text \<open>Any sequence of reads, and how many of them returned a bundle of a connection.\<close>

fun recv_run ::
  "('w, 'm) recv_env_scheme \<Rightarrow> (conn accepted_conn \<times> u8 list) list \<Rightarrow> 'w \<Rightarrow>
   (conn accepted_conn \<times> bp_bundle cresult outcome) list \<times> 'w" where
  "recv_run env [] w = ([], w)"
| "recv_run env ((c, buffer) # calls) w =
     (let (out, _, w1) = recv_bundle_from_conn (c_recv_bundle_from_conn env) c buffer w;
          (outs, w2) = recv_run env calls w1
      in ((c, out) # outs, w2))"

definition is_bundle :: "bp_bundle cresult outcome \<Rightarrow> bool" where
  "is_bundle out \<longleftrightarrow> (case out of Returns (Inr _) \<Rightarrow> True | _ \<Rightarrow> False)"

definition bundles_on :: "conn \<Rightarrow> (conn accepted_conn \<times> bp_bundle cresult outcome) list \<Rightarrow> nat" where
  "bundles_on h outs = length (filter (\<lambda>(c, out). ac_conn c = Some h \<and> is_bundle out) outs)"

lemma recv_call_acks:
  assumes "recv_env_ok env acks"
    and "recv_bundle_from_conn (c_recv_bundle_from_conn env) c buffer w = (out, buffer', w')"
  shows "out \<noteq> Panics" "acks w' h \<le> acks w h + bundles_on h [(c, out)]"
  using recv_call_result [OF assms]
  by (auto simp: bundles_on_def is_bundle_def split: outcome.splits sum.splits)

text \<open>
  The receiving side of the acknowledgements: however the connections are read, no read
  panics, and on every connection at most as many acknowledgements are sent as bundles were
  returned from it.
\<close>

theorem acks_only_received_bundles:
  assumes "recv_env_ok env acks" and "recv_run env calls w = (outs, w')"
  shows "(\<forall>(c, out) \<in> set outs. out \<noteq> Panics) \<and> acks w' h \<le> acks w h + bundles_on h outs"
  using assms(2)
proof (induction calls arbitrary: w outs)
  case Nil
  then show ?case by (simp add: bundles_on_def)
next
  case (Cons call calls)
  obtain c buffer where call: "call = (c, buffer)" by fastforce
  obtain out buf' w1 where r: "recv_bundle_from_conn (c_recv_bundle_from_conn env) c buffer w = (out, buf', w1)"
    by (metis prod_cases3)
  obtain rest w2 where run: "recv_run env calls w1 = (rest, w2)" by fastforce
  have outs: "outs = (c, out) # rest" "w' = w2" using Cons.prems call r run by simp_all
  have "bundles_on h outs = bundles_on h [(c, out)] + bundles_on h rest" by (simp add: outs bundles_on_def)
  then show ?case
    using recv_call_acks(1) [OF assms(1) r] recv_call_acks(2) [OF assms(1) r, of h] Cons.IH [of w1 rest] run outs by simp
qed

text \<open>A peer whose SFP returns the queue of bundles of every connection, and counts its packets.\<close>

definition queue_env :: "(u8 list list \<times> (conn \<Rightarrow> nat)) recv_env" where
  "queue_env = \<lparr>csp_connect = (\<lambda>_ _ w. (None, w)), csp_close = (\<lambda>_ w. w), time_now = (\<lambda>w. (0, w)),
     mutex_init = (\<lambda>w. (True, w)), mutex_lock = (\<lambda>w. (True, w)), mutex_unlock = (\<lambda>w. (True, w)), mutex_destroy = (\<lambda>w. w),
     csp_sfp_send = (\<lambda>_ _ _ _ _ w. (-1, w)), csp_read = (\<lambda>_ _ w. (None, w)), csp_buffer_free = (\<lambda>_ w. w),
     csp_err_none = 0, csp_err_timedout = -3,
     csp_sfp_recv = (\<lambda>_ _ (q, k). case q of [] \<Rightarrow> ((-3, None, 0), q, k) | d # ds \<Rightarrow> ((0, Some d, int (length d)), ds, k)),
     csp_free = (\<lambda>_ w. w), csp_buffer_get = (\<lambda>_ w. (Some [], w)),
     csp_send = (\<lambda>h _ _ (q, k). (True, q, k(h := k h + 1))), csp_socket = (\<lambda>w. (None, w)),
     csp_bind = (\<lambda>_ _ w. (-4, w)), csp_listen = (\<lambda>_ _ w. (0, w)),
     csp_accept = (\<lambda>_ _ w. (None, w)), csp_conn_src = (\<lambda>_ _. 0), csp_conn_sport = (\<lambda>_ _. 0), csp_err_nomem = -1\<rparr>"

theorem acks_only_received_bundles_witness:
  "\<exists>outs w'. recv_run queue_env [(\<lparr>ac_conn = Some 3, ac_src_addr = 5, ac_src_port = 60\<rparr>, [0, 0, 0]),
       (\<lparr>ac_conn = Some 3, ac_src_addr = 5, ac_src_port = 60\<rparr>, [0, 0, 0])] ([[1, 2]], \<lambda>_. 0) = (outs, w') \<and>
     bundles_on 3 outs = 1 \<and> snd w' 3 = 1 \<and> snd w' 3 \<le> bundles_on 3 outs"
proof -
  let ?c = "\<lparr>ac_conn = Some 3, ac_src_addr = 5, ac_src_port = 60\<rparr> :: conn accepted_conn"
  have env: "recv_env_ok queue_env snd"
    unfolding recv_env_ok_def by (auto simp: queue_env_def split: list.splits)
  have "recv_run queue_env [(?c, [0, 0, 0]), (?c, [0, 0, 0])] ([[1, 2]], \<lambda>_. 0) =
      ([(?c, Returns (Inr \<lparr>data = [1, 2], src_addr = 5, src_port = 60\<rparr>)), (?c, Returns (Inl (from_raw CSPCL_ERR_TIMEOUT)))],
       ([], (\<lambda>_. 0)(3 := 1)))"
    by (simp add: recv_bundle_from_conn_def recv_bundle_from_conn_into_def prim_defs c_recv_bundle_from_conn_def
        recv_from_conn_timeout_def send_ack_def queue_env_def ok_or_err_def slice_to_def)
  from acks_only_received_bundles [OF env this, of 3] this show ?thesis
    by (intro exI conjI) (assumption, simp_all add: bundles_on_def is_bundle_def)
qed

end
