(* ===== verification/CCache.thy ===== *)
theory CCache
  imports CDelivery
begin

text \<open>
  The connection pool as a cache: an abstract least-recently-used cache of connections, and the
  proof that the lookups and invalidations of the pool of the C core (theory CPool) refine it,
  for as long as the 32-bit tick does not wrap around.
\<close>

section \<open>The abstract cache\<close>

text \<open>Destinations with their connections, the most recently used first.\<close>

type_synonym dest = "u8 \<times> u8"
type_synonym cache = "(dest \<times> conn) list"

definition cache_drop :: "dest \<Rightarrow> cache \<Rightarrow> cache" where
  "cache_drop d xs = filter (\<lambda>x. fst x \<noteq> d) xs"

text \<open>A full cache gives up its last connection.\<close>

definition cache_room :: "cache \<Rightarrow> cache" where
  "cache_room xs = (if length xs < CSPCL_CONN_POOL_SIZE then xs else butlast xs)"

text \<open>
  A lookup returns the connection it has and moves it to the front, or connects anew: if it has
  none, or if connections age. Connecting may fail.
\<close>

inductive cache_get :: "bool \<Rightarrow> dest \<Rightarrow> cache \<Rightarrow> conn option \<Rightarrow> cache \<Rightarrow> bool" for ages d xs where
  cache_hit: "map_of xs d = Some h \<Longrightarrow> cache_get ages d xs (Some h) ((d, h) # cache_drop d xs)"
| cache_fail: "map_of xs d = None \<or> ages \<Longrightarrow> cache_get ages d xs None (cache_room (cache_drop d xs))"
| cache_new: "map_of xs d = None \<or> ages \<Longrightarrow> h \<notin> snd ` set (cache_room (cache_drop d xs)) \<Longrightarrow>
    cache_get ages d xs (Some h) ((d, h) # cache_room (cache_drop d xs))"

datatype pool_op = Get u8 u8 | Invalidate u8 u8

fun cache_step :: "bool \<Rightarrow> pool_op \<Rightarrow> cache \<Rightarrow> conn option \<Rightarrow> cache \<Rightarrow> bool" where
  "cache_step ages (Get a q) xs r ys = cache_get ages (a, q) xs r ys"
| "cache_step ages (Invalidate a q) xs r ys \<longleftrightarrow> r = None \<and> ys = cache_drop (a, q) xs"

section \<open>The pool as a system of operations\<close>

fun pool_step :: "('w, 'm) conn_env_scheme \<Rightarrow> pool_op \<Rightarrow> conn_pool \<times> 'w \<Rightarrow> conn option \<Rightarrow> conn_pool \<times> 'w \<Rightarrow> bool" where
  "pool_step env (Get a q) (p, w) r (p', w') \<longleftrightarrow> pool_get_or_create env a q p w = (r, p', w')"
| "pool_step env (Invalidate a q) (p, w) r (p', w') \<longleftrightarrow> r = None \<and> pool_invalidate env a q p w = (p', w')"

text \<open>The used slots in the order of their last use, none of which is later than the tick.\<close>

definition lru_order :: "conn_pool \<Rightarrow> nat list \<Rightarrow> bool" where
  "lru_order p js \<longleftrightarrow> distinct js \<and> set js = {i. i < CSPCL_CONN_POOL_SIZE \<and> used (entries p ! i)} \<and>
     sorted_wrt (\<lambda>i j. last_used (entries p ! j) < last_used (entries p ! i)) js \<and>
     (\<forall>i \<in> set js. last_used (entries p ! i) \<le> tick p)"

definition cached :: "conn_pool \<Rightarrow> nat \<Rightarrow> dest \<times> conn" where
  "cached p i = ((dest_addr (entries p ! i), dest_port (entries p ! i)), the (conn (entries p ! i)))"

definition refines :: "conn_pool \<Rightarrow> cache \<Rightarrow> bool" where
  "refines p xs \<longleftrightarrow> (\<exists>js. lru_order p js \<and> xs = map (cached p) js)"

section \<open>Orders of slots\<close>

lemma filter_last: "distinct js \<Longrightarrow> js \<noteq> [] \<Longrightarrow> filter (\<lambda>x. x \<noteq> last js) js = butlast js"
  by (induction js rule: rev_induct) (auto simp: filter_id_conv)

lemma lru_order_clear:
  assumes "lru_order p js" and "\<forall>k < CSPCL_CONN_POOL_SIZE. if P k then \<not> used (entries q ! k) else entries q ! k = entries p ! k"
    and "tick p \<le> tick q"
  shows "lru_order q (filter (\<lambda>k. \<not> P k) js)" "map (cached q) (filter (\<lambda>k. \<not> P k) js) = map (cached p) (filter (\<lambda>k. \<not> P k) js)"
proof -
  have b: "\<forall>k \<in> set (filter (\<lambda>k. \<not> P k) js). entries q ! k = entries p ! k"
    using assms(1,2) by (auto simp: lru_order_def)
  have "sorted_wrt (\<lambda>i j. last_used (entries p ! j) < last_used (entries p ! i)) (filter (\<lambda>k. \<not> P k) js)"
    using assms(1) by (simp add: lru_order_def sorted_wrt_filter)
  then have "sorted_wrt (\<lambda>i j. last_used (entries q ! j) < last_used (entries q ! i)) (filter (\<lambda>k. \<not> P k) js)"
    using b by (elim sorted_wrt_mono_rel [rotated]) auto
  moreover have "\<forall>i \<in> set (filter (\<lambda>k. \<not> P k) js). last_used (entries q ! i) \<le> tick q"
    using b assms(1,3) unfolding lru_order_def by (metis (no_types, lifting) filter_is_subset order.trans subsetD)
  moreover have "set (filter (\<lambda>k. \<not> P k) js) = {i. i < CSPCL_CONN_POOL_SIZE \<and> used (entries q ! i)}"
    using assms(1,2) unfolding lru_order_def by (auto split: if_splits)
  moreover have "distinct (filter (\<lambda>k. \<not> P k) js)" using assms(1) by (simp add: lru_order_def)
  ultimately show "lru_order q (filter (\<lambda>k. \<not> P k) js)" unfolding lru_order_def by blast
  show "map (cached q) (filter (\<lambda>k. \<not> P k) js) = map (cached p) (filter (\<lambda>k. \<not> P k) js)"
    using b by (simp add: cached_def)
qed

text \<open>A slot that is used at a later tick than all the others comes first.\<close>

lemma lru_order_front:
  assumes "lru_order p js" and i: "i < CSPCL_CONN_POOL_SIZE" "used (entries q ! i)" "last_used (entries q ! i) = tick q"
    and s: "\<forall>k < CSPCL_CONN_POOL_SIZE. k \<noteq> i \<longrightarrow> entries q ! k = entries p ! k"
    and t: "\<forall>k \<in> set js. k \<noteq> i \<longrightarrow> last_used (entries p ! k) < tick q"
  shows "lru_order q (i # filter (\<lambda>k. k \<noteq> i) js)"
    "map (cached q) (i # filter (\<lambda>k. k \<noteq> i) js) = cached q i # map (cached p) (filter (\<lambda>k. k \<noteq> i) js)"
proof -
  let ?js = "filter (\<lambda>k. k \<noteq> i) js"
  have b: "\<forall>k \<in> set ?js. entries q ! k = entries p ! k"
    using assms(1) s by (auto simp: lru_order_def)
  have "sorted_wrt (\<lambda>i j. last_used (entries p ! j) < last_used (entries p ! i)) ?js"
    using assms(1) by (simp add: lru_order_def sorted_wrt_filter)
  then have "sorted_wrt (\<lambda>i j. last_used (entries q ! j) < last_used (entries q ! i)) ?js"
    using b by (elim sorted_wrt_mono_rel [rotated]) auto
  moreover have lt: "\<forall>k \<in> set ?js. last_used (entries q ! k) < tick q" using b t by auto
  ultimately have "sorted_wrt (\<lambda>i j. last_used (entries q ! j) < last_used (entries q ! i)) (i # ?js)"
    "\<forall>k \<in> set (i # ?js). last_used (entries q ! k) \<le> tick q" using i(3) by auto
  moreover have "distinct (i # ?js)" using assms(1) by (simp add: lru_order_def)
  moreover have "set (i # ?js) = {k. k < CSPCL_CONN_POOL_SIZE \<and> used (entries q ! k)}"
    using assms(1) i s unfolding lru_order_def by auto
  ultimately show "lru_order q (i # ?js)" unfolding lru_order_def by blast
  show "map (cached q) (i # ?js) = cached q i # map (cached p) ?js"
    using b by (simp add: cached_def)
qed

text \<open>In a full pool the slot to evict is the last one.\<close>

lemma lru_order_last:
  assumes o: "lru_order p js" and inv: "pool_inv p" and full: "\<forall>k < CSPCL_CONN_POOL_SIZE. used (entries p ! k)"
  shows "js \<noteq> []" "last js = pool_lru (entries p)" "length js = CSPCL_CONN_POOL_SIZE"
proof -
  have js: "set js = {..< CSPCL_CONN_POOL_SIZE}" "distinct js" using o full by (auto simp: lru_order_def)
  then show len: "length js = CSPCL_CONN_POOL_SIZE" by (metis card_lessThan distinct_card)
  then show ne: "js \<noteq> []" by (auto simp: CSPCL_CONN_POOL_SIZE_def)
  have es: "length (entries p) = CSPCL_CONN_POOL_SIZE" using pool_invD(1) [OF inv] .
  then have le: "last_used (entries p ! pool_lru (entries p)) \<le> last_used (entries p ! last js)"
    using pool_lru_least(2) [of "entries p" "last js"] ne js(1) last_in_set [OF ne] by fastforce
  have "pool_lru (entries p) \<in> set js" using pool_lru_bound [OF inv] js(1) by simp
  then have "pool_lru (entries p) \<in> set (butlast js @ [last js])" using ne by simp
  moreover have "last_used (entries p ! last js) < last_used (entries p ! k)" if "k \<in> set (butlast js)" for k
  proof -
    have "sorted_wrt (\<lambda>i j. last_used (entries p ! j) < last_used (entries p ! i)) (butlast js @ [last js])"
      using o ne by (simp add: lru_order_def)
    with that show ?thesis by (simp add: sorted_wrt_append)
  qed
  ultimately show "last js = pool_lru (entries p)" using le by (auto simp: not_less [symmetric])
qed

section \<open>Lookups in the pool and in the cache\<close>

lemma lru_order_slot: "lru_order p js \<Longrightarrow> k \<in> set js \<longleftrightarrow> k < CSPCL_CONN_POOL_SIZE \<and> used (entries p ! k)"
  by (auto simp: lru_order_def)

lemma lru_orderD:
  assumes "lru_order p js"
  shows "distinct js" "card (set js) = length js" "k \<in> set js \<Longrightarrow> last_used (entries p ! k) \<le> tick p"
proof -
  show d: "distinct js" and "k \<in> set js \<Longrightarrow> last_used (entries p ! k) \<le> tick p"
    using assms unfolding lru_order_def by blast+
  from distinct_card [OF d] show "card (set js) = length js" .
qed

lemma cache_drop_slots:
  assumes "lru_order p js"
  shows "cache_drop (da, dp) (map (cached p) js) = map (cached p) (filter (\<lambda>k. \<not> to_dest da dp (entries p ! k)) js)"
  unfolding cache_drop_def filter_map
  by (rule arg_cong [of _ _ "map (cached p)"], rule filter_cong)
    (use lru_order_slot [OF assms] in \<open>auto simp: cached_def to_dest_def\<close>)

lemma find_dest_unique:
  assumes "pool_inv p" and "unique_dest p" and "find_dest da dp 0 (entries p) = Some i" and "k < CSPCL_CONN_POOL_SIZE"
  shows "to_dest da dp (entries p ! k) \<longleftrightarrow> k = i"
  using pool_search(2) [OF assms(1), of da dp] assms unfolding unique_dest_def to_dest_def by auto

lemma cached_dests:
  assumes "lru_order p js" and "unique_dest p"
  shows "distinct (map fst (map (cached p) js))"
proof -
  have "inj_on (\<lambda>k. fst (cached p k)) (set js)"
    using assms(2) lru_order_slot [OF assms(1)] by (auto simp: inj_on_def cached_def unique_dest_def)
  then show ?thesis using assms(1) by (simp add: lru_order_def distinct_map comp_def)
qed

lemma cache_lookup:
  assumes o: "lru_order p js" and inv: "pool_inv p" and u: "unique_dest p"
  shows "map_of (map (cached p) js) (da, dp) =
    (case find_dest da dp 0 (entries p) of None \<Rightarrow> None | Some i \<Rightarrow> conn (entries p ! i))"
proof (cases "find_dest da dp 0 (entries p)")
  case None
  then have "\<forall>k \<in> set js. \<not> to_dest da dp (entries p ! k)"
    using pool_search(2) [OF inv, of da dp] lru_order_slot [OF o] by auto
  then have "(da, dp) \<notin> fst ` set (map (cached p) js)"
    using lru_order_slot [OF o] by (auto simp: cached_def to_dest_def)
  then show ?thesis using None by (simp add: map_of_eq_None_iff)
next
  case (Some i)
  note eq = find_dest_unique [OF inv u Some]
  have i: "i < CSPCL_CONN_POOL_SIZE" "to_dest da dp (entries p ! i)" using pool_search(2) [OF inv, of da dp] Some by auto
  then have "used (entries p ! i)" and ij: "i \<in> set js" using lru_order_slot [OF o] by (auto simp: to_dest_def)
  then obtain h where h: "conn (entries p ! i) = Some h" using pool_invD(5) [OF inv i(1)] by auto
  have "((da, dp), h) \<in> set (map (cached p) js)"
    using ij i(2) h by (force simp: cached_def to_dest_def)
  then show ?thesis using Some h cached_dests [OF o u] by simp
qed

lemma refines_conns:
  assumes "refines p xs" and "pool_inv p" and "unique_dest p"
  shows "pool_conns p = snd ` set xs" "distinct (map fst xs)" "length xs \<le> CSPCL_CONN_POOL_SIZE"
proof -
  obtain js where o: "lru_order p js" and xs: "xs = map (cached p) js" using assms(1) by (auto simp: refines_def)
  note d = pool_invD [OF assms(2)]
  have "h \<in> pool_conns p \<longleftrightarrow> (\<exists>k \<in> set js. h = the (conn (entries p ! k)))" for h
    unfolding pool_conns_def in_slot_set d(3) Bex_def lru_order_slot [OF o] using d(4,5) by force
  then show "pool_conns p = snd ` set xs" by (auto simp: xs cached_def image_image)
  show "distinct (map fst xs)" unfolding xs by (rule cached_dests [OF o assms(3)])
  have "set js \<subseteq> {..< CSPCL_CONN_POOL_SIZE}" using lru_order_slot [OF o] by auto
  then show "length xs \<le> CSPCL_CONN_POOL_SIZE"
    using lru_orderD(2) [OF o] card_mono [of "{..< CSPCL_CONN_POOL_SIZE}" "set js"] by (simp add: xs)
qed

section \<open>The operations refine those of the cache\<close>

lemma refines_drop:
  assumes "refines p xs" and "tick p \<le> tick q"
    and "\<forall>k < CSPCL_CONN_POOL_SIZE. if to_dest da dp (entries p ! k) then \<not> used (entries q ! k) else entries q ! k = entries p ! k"
  shows "refines q (cache_drop (da, dp) xs)"
proof -
  obtain js where o: "lru_order p js" and xs: "xs = map (cached p) js" using assms(1) by (auto simp: refines_def)
  show ?thesis
    using lru_order_clear [OF o assms(3,2)] cache_drop_slots [OF o, of da dp]
    unfolding refines_def xs by metis
qed

text \<open>The slot taken for a new connection: the pool then is the cache with room for it.\<close>

lemma pool_slot_refines:
  assumes env: "conn_env_ok env ops" and p: "pool_owns ops p w" and x: "refines p xs"
    and free: "\<And>i. free = Some i \<Longrightarrow> i < CSPCL_CONN_POOL_SIZE \<and> \<not> used (entries p ! i)"
    and full: "free = None \<Longrightarrow> \<forall>k < CSPCL_CONN_POOL_SIZE. used (entries p ! k)"
    and s: "pool_slot env free p w = (i, q, v)"
  shows "refines q (cache_room xs)" "max_conn_age_ms q = max_conn_age_ms p"
    "(\<forall>k < CSPCL_CONN_POOL_SIZE. used (entries p ! k) \<longrightarrow> last_used (entries p ! k) < t) \<Longrightarrow>
     (\<forall>k < CSPCL_CONN_POOL_SIZE. used (entries q ! k) \<longrightarrow> last_used (entries q ! k) < t)"
proof -
  obtain js where o: "lru_order p js" and xs: "xs = map (cached p) js" using x by (auto simp: refines_def)
  have inv: "pool_inv p" using p by (simp add: pool_owns_def)
  have "refines q (cache_room xs) \<and> max_conn_age_ms q = max_conn_age_ms p \<and>
    (\<forall>k < CSPCL_CONN_POOL_SIZE. used (entries q ! k) \<longrightarrow> entries q ! k = entries p ! k)"
  proof (cases free)
    case (Some j)
    then have "j \<notin> set js" "set js \<subseteq> {..< CSPCL_CONN_POOL_SIZE}" "j < CSPCL_CONN_POOL_SIZE"
      using free lru_order_slot [OF o] by auto
    then have "set js \<subset> {..< CSPCL_CONN_POOL_SIZE}" by blast
    then have "length js < CSPCL_CONN_POOL_SIZE"
      using lru_orderD(2) [OF o] psubset_card_mono [of "{..< CSPCL_CONN_POOL_SIZE}" "set js"] by simp
    with x Some s show ?thesis by (simp add: cache_room_def xs pool_slot_def)
  next
    case None
    with s have e: "pool_evict env p w = (i, q, v)" by (simp add: pool_slot_def)
    note ev = pool_evict_keeps [OF env p e] and l = lru_order_last [OF o inv full [OF None]]
    have len: "length (entries p) = CSPCL_CONN_POOL_SIZE" using pool_invD(1) [OF inv] .
    have q: "\<forall>k < CSPCL_CONN_POOL_SIZE. if k = last js then \<not> used (entries q ! k) else entries q ! k = entries p ! k"
      using ev(2-4) l(2) len by simp
    have "lru_order q (butlast js) \<and> map (cached q) (butlast js) = map (cached p) (butlast js)"
      using lru_order_clear [OF o q] unfolding ev(5) filter_last [OF lru_orderD(1) [OF o] l(1)] by blast
    then have "refines q (butlast xs)" unfolding refines_def xs by (metis map_butlast)
    moreover have "max_conn_age_ms q = max_conn_age_ms p"
      using e by (auto simp: pool_evict_def clear_entry_def Let_def)
    moreover have "\<forall>k < CSPCL_CONN_POOL_SIZE. used (entries q ! k) \<longrightarrow> entries q ! k = entries p ! k" using q by metis
    ultimately show ?thesis using l(3) by (simp add: cache_room_def xs)
  qed
  then show "refines q (cache_room xs)" "max_conn_age_ms q = max_conn_age_ms p"
    "(\<forall>k < CSPCL_CONN_POOL_SIZE. used (entries p ! k) \<longrightarrow> last_used (entries p ! k) < t) \<Longrightarrow>
     (\<forall>k < CSPCL_CONN_POOL_SIZE. used (entries q ! k) \<longrightarrow> last_used (entries q ! k) < t)"
    by metis+
qed

lemma pool_touch_refines:
  assumes x: "refines p xs" and p: "pool_inv p" "unique_dest p" and t: "tick p < t"
    and f: "find_dest da dp 0 (entries p) = Some i" and h: "conn (entries p ! i) = Some h"
    and q: "entries q = (entries p)[i := (entries p ! i)\<lparr>last_used := t\<rparr>]" "tick q = t"
  shows "refines q (((da, dp), h) # cache_drop (da, dp) xs)"
proof -
  obtain js where o: "lru_order p js" and xs: "xs = map (cached p) js" using x by (auto simp: refines_def)
  have i: "i < CSPCL_CONN_POOL_SIZE" "to_dest da dp (entries p ! i)" using pool_search(2) [OF p(1), of da dp] f by auto
  have qi: "entries q ! i = (entries p ! i)\<lparr>last_used := t\<rparr>" and
    qk: "\<forall>k < CSPCL_CONN_POOL_SIZE. k \<noteq> i \<longrightarrow> entries q ! k = entries p ! k"
    using pool_invD(1) [OF p(1)] i(1) by (simp_all add: q)
  have "\<forall>k \<in> set js. k \<noteq> i \<longrightarrow> last_used (entries p ! k) < tick q"
    using lru_orderD(3) [OF o] t q(2) order.strict_trans1 by blast
  then have fr: "lru_order q (i # filter (\<lambda>k. k \<noteq> i) js)"
    "map (cached q) (i # filter (\<lambda>k. k \<noteq> i) js) = cached q i # map (cached p) (filter (\<lambda>k. k \<noteq> i) js)"
    using i qi q(2) qk by (intro lru_order_front [OF o]; simp add: to_dest_def)+
  have "filter (\<lambda>k. k \<noteq> i) js = filter (\<lambda>k. \<not> to_dest da dp (entries p ! k)) js"
    using find_dest_unique [OF p f] lru_order_slot [OF o] by (intro filter_cong) auto
  moreover have "cached q i = ((da, dp), h)" using i(2) h by (simp add: cached_def qi to_dest_def)
  ultimately show ?thesis
    using fr cache_drop_slots [OF o, of da dp] unfolding refines_def xs by metis
qed

lemma pool_fill_refines:
  assumes x: "refines p xs" and p: "pool_inv p" and i: "i < CSPCL_CONN_POOL_SIZE" "\<not> used (entries p ! i)"
    and t: "\<forall>k < CSPCL_CONN_POOL_SIZE. used (entries p ! k) \<longrightarrow> last_used (entries p ! k) < tick p"
    and q: "entries q = (entries p)[i := \<lparr>used = True, dest_addr = da, dest_port = dp, conn = Some h,
        last_used = tick p, connected_at = now\<rparr>]" "tick q = tick p"
  shows "refines q (((da, dp), h) # xs)"
proof -
  obtain js where o: "lru_order p js" and xs: "xs = map (cached p) js" using x by (auto simp: refines_def)
  have qi: "entries q ! i = \<lparr>used = True, dest_addr = da, dest_port = dp, conn = Some h, last_used = tick p, connected_at = now\<rparr>"
    and qk: "\<forall>k < CSPCL_CONN_POOL_SIZE. k \<noteq> i \<longrightarrow> entries q ! k = entries p ! k"
    using pool_invD(1) [OF p] i(1) by (simp_all add: q)
  have "\<forall>k \<in> set js. k \<noteq> i \<longrightarrow> last_used (entries p ! k) < tick q"
    using t q(2) lru_order_slot [OF o] by simp
  then have fr: "lru_order q (i # filter (\<lambda>k. k \<noteq> i) js)"
    "map (cached q) (i # filter (\<lambda>k. k \<noteq> i) js) = cached q i # map (cached p) (filter (\<lambda>k. k \<noteq> i) js)"
    using i(1) qi q(2) qk by (intro lru_order_front [OF o]; simp)+
  have "filter (\<lambda>k. k \<noteq> i) js = js" using lru_order_slot [OF o, of i] i(2) by (auto simp: filter_id_conv)
  moreover have "cached q i = ((da, dp), h)" by (simp add: cached_def qi)
  ultimately show ?thesis using fr unfolding refines_def xs by metis
qed

lemma refines_get:
  assumes env: "conn_env_ok env ops" and p: "pool_owns ops p w" "unique_dest p" and x: "refines p xs"
    and t: "tick p < tick p + 1" and r: "pool_get_or_create env da dp p w = (c, p', w')"
  shows "\<exists>ys. cache_get (0 < max_conn_age_ms p) (da, dp) xs c ys \<and> refines p' ys"
    "tick p' = tick p + 1" "max_conn_age_ms p' = max_conn_age_ms p"
proof -
  have inv: "pool_inv p" using p by (simp add: pool_owns_def)
  obtain js where o: "lru_order p js" and xs: "xs = map (cached p) js" using x by (auto simp: refines_def)
  note look = cache_lookup [OF o inv p(2), of da dp, folded xs]
  have "(\<exists>ys. cache_get (0 < max_conn_age_ms p) (da, dp) xs c ys \<and> refines p' ys) \<and>
    tick p' = tick p + 1 \<and> max_conn_age_ms p' = max_conn_age_ms p"
  proof (cases rule: pool_get_or_create_cases [OF env p(1) r, case_names hit create])
    case (hit i)
    have i: "i < CSPCL_CONN_POOL_SIZE" "to_dest da dp (entries p ! i)" using pool_search(2) [OF inv, of da dp] hit(1) by auto
    then obtain h where h: "conn (entries p ! i) = Some h" using pool_invD(5) [OF inv i(1)] by (auto simp: to_dest_def)
    have "refines p' (((da, dp), h) # cache_drop (da, dp) xs)"
      by (rule pool_touch_refines [OF x inv p(2) t hit(1) h]) (simp_all add: hit(4))
    moreover have "cache_get (0 < max_conn_age_ms p) (da, dp) xs c (((da, dp), h) # cache_drop (da, dp) xs)"
      using look hit(1,2) h by (auto intro: cache_hit)
    ultimately show ?thesis by (auto simp: hit(4))
  next
    case (create free q v)
    let ?ys = "cache_room (cache_drop (da, dp) xs)"
    have miss: "map_of xs (da, dp) = None \<or> 0 < max_conn_age_ms p" using create(9) look by auto
    have q: "pool_owns ops q v" using create(2) by (simp add: keeps_def)
    have "\<forall>k < CSPCL_CONN_POOL_SIZE. if to_dest da dp (entries p ! k) then \<not> used (entries q ! k) else entries q ! k = entries p ! k"
      using create(5-7) p(2) by (metis (no_types, lifting))
    then have xq: "refines q (cache_drop (da, dp) xs)" using t create(3) by (intro refines_drop [OF x]) auto
    have "\<forall>k < CSPCL_CONN_POOL_SIZE. used (entries p ! k) \<longrightarrow> last_used (entries p ! k) \<le> tick p"
      using lru_orderD(3) [OF o] lru_order_slot [OF o] by blast
    then have lt: "\<forall>k < CSPCL_CONN_POOL_SIZE. used (entries q ! k) \<longrightarrow> last_used (entries q ! k) < tick q"
      using create(3,5) t by (metis (no_types, lifting) order.strict_trans1)
    from create(1) show ?thesis
    proof (cases rule: pool_create_cases)
      case (failed i q' v')
      note s = pool_slot_refines [OF env q xq create(4,8) failed(1)] and k = pool_slot_keeps [OF env q create(4) failed(1)]
      have "refines p' ?ys" using s(1) by (simp add: failed refines_def lru_order_def cached_def [abs_def])
      then show ?thesis using cache_fail [OF miss] s(2) k(4) create(3,10) by (auto simp: failed)
    next
      case (new i q' v' h u now)
      note s = pool_slot_refines [OF env q xq create(4,8) new(1)] and k = pool_slot_keeps [OF env q create(4) new(1)]
      have q': "pool_owns ops q' v'" "pool_inv q'" using k(1) by (simp_all add: keeps_def pool_owns_def)
      have lt': "\<forall>k < CSPCL_CONN_POOL_SIZE. used (entries q' ! k) \<longrightarrow> last_used (entries q' ! k) < tick q'"
        using s(3) [OF _ _ lt] by (simp add: k(4))
      have "refines p' (((da, dp), h) # ?ys)"
        by (rule pool_fill_refines [OF s(1) q'(2) k(2,3) lt', of _ da dp h now]) (simp_all add: new)
      moreover have "h \<notin> snd ` set ?ys"
      proof -
        have u': "unique_dest q'"
          using k(3,5) create(5) by (rule_tac unique_dest_same [OF p(2)]) (metis (no_types, lifting))
        show ?thesis using conn_envD(1) [OF env new(2)] q'(1) refines_conns(1) [OF s(1) q'(2) u'] by (auto simp: pool_owns_def)
      qed
      ultimately show ?thesis using cache_new [OF miss] s(2) k(4) create(3,10) by (auto simp: new)
    qed
  qed
  then show "\<exists>ys. cache_get (0 < max_conn_age_ms p) (da, dp) xs c ys \<and> refines p' ys"
    "tick p' = tick p + 1" "max_conn_age_ms p' = max_conn_age_ms p" by blast+
qed

lemma refines_invalidate:
  assumes env: "conn_env_ok env ops" and p: "pool_owns ops p w" "unique_dest p" and x: "refines p xs"
    and r: "pool_invalidate env da dp p w = (p', w')"
  shows "refines p' (cache_drop (da, dp) xs)" "tick p' = tick p" "max_conn_age_ms p' = max_conn_age_ms p"
proof -
  have inv: "pool_inv p" using p by (simp add: pool_owns_def)
  note dest = pool_search(2) [OF inv, of da dp]
  have "(\<forall>k < CSPCL_CONN_POOL_SIZE. if to_dest da dp (entries p ! k) then \<not> used (entries p' ! k) else entries p' ! k = entries p ! k) \<and>
    tick p' = tick p \<and> max_conn_age_ms p' = max_conn_age_ms p"
  proof (cases "find_dest da dp 0 (entries p)")
    case None
    with r dest show ?thesis by (simp add: pool_invalidate_def)
  next
    case (Some i)
    obtain q v where cl: "clear_entry env i p w = (q, v)" by fastforce
    have i: "i < CSPCL_CONN_POOL_SIZE" using dest Some by simp
    note c = clear_entry_keeps [OF env p(1) i cl]
    have p': "p' = upd_stats (\<lambda>st. st\<lparr>invalidations := invalidations st + 1\<rparr>) q"
      using r Some cl by (simp add: pool_invalidate_def)
    have "max_conn_age_ms q = max_conn_age_ms p" using cl by (auto simp: clear_entry_def)
    then show ?thesis using find_dest_unique [OF inv p(2) Some] c(2-4) by (simp add: p')
  qed
  then show "refines p' (cache_drop (da, dp) xs)" "tick p' = tick p" "max_conn_age_ms p' = max_conn_age_ms p"
    using refines_drop [OF x, of p' da dp] by simp_all
qed

section \<open>Sequences of operations\<close>

text \<open>
  The simulation: the pool owns its connections and is the cache, \<open>F\<close> are the open connections that are
  not the pool's, and \<open>n\<close> more operations leave the tick below its maximum.
\<close>

fun pool_sim ::
  "('w, 'm) conn_env_scheme \<Rightarrow> ('w \<Rightarrow> conn set) \<Rightarrow> bool \<Rightarrow> conn set \<Rightarrow> nat \<Rightarrow> conn_pool \<times> 'w \<Rightarrow> cache \<Rightarrow> bool" where
  "pool_sim env ops ages F n (p, w) xs \<longleftrightarrow> conn_env_ok env ops \<and> pool_owns ops p w \<and> unique_dest p \<and>
     foreign ops p w = F \<and> ages = (0 < max_conn_age_ms p) \<and> refines p xs \<and> unat (tick p) + n < 2 ^ 32"

lemma tick_next: "unat (t :: u32) + Suc n < 2 ^ 32 \<Longrightarrow> t < t + 1 \<and> unat (t + 1) = Suc (unat t)"
  by (simp add: unat_word_ariths word_less_nat_alt)

lemma pool_step_simulated:
  assumes "pool_step env op pw r pw'" and "pool_sim env ops ages F (Suc n) pw xs"
  shows "\<exists>ys. cache_step ages op xs r ys \<and> pool_sim env ops ages F n pw' ys"
proof -
  obtain p w p' w' where pw: "pw = (p, w)" "pw' = (p', w')" by fastforce
  have s: "conn_env_ok env ops" "pool_owns ops p w" "unique_dest p" "refines p xs" "ages = (0 < max_conn_age_ms p)"
    "foreign ops p w = F" "unat (tick p) + Suc n < 2 ^ 32" using assms(2) by (simp_all add: pw)
  note t = tick_next [OF s(7)]
  show ?thesis
  proof (cases op)
    case (Get da dp)
    have r: "pool_get_or_create env da dp p w = (r, p', w')" using assms(1) by (simp add: Get pw)
    note g = refines_get [OF s(1-4) conjunct1 [OF t] r] and k = pool_get_or_create_keeps [OF s(1,2) r]
    show ?thesis using g k(1,2) s t by (auto simp: Get pw keeps_def)
  next
    case (Invalidate da dp)
    have r: "pool_invalidate env da dp p w = (p', w')" "r = None" using assms(1) by (simp_all add: Invalidate pw)
    note g = refines_invalidate [OF s(1-4) r(1)] and k = pool_invalidate_keeps [OF s(1-3) r(1)]
    show ?thesis using g k(1,2) s r(2) by (auto simp: Invalidate pw keeps_def)
  qed
qed

interpretation lru: simulation "pool_step env" "cache_step ages" "pool_sim env ops ages F" for env ops ages F
  by unfold_locales (rule pool_step_simulated)

text \<open>
  C13: the connection pool is an LRU cache: every sequence of lookups and invalidations on a pool just
  initialized returns what an abstract LRU cache of 16 connections may return, as long as it has
  less than 2 to the 32 operations. At its end the open connections are those that were open before
  and those of the cache, which has at most one per destination.
\<close>

theorem pool_is_lru_cache:
  assumes "conn_env_ok env ops" and "conn_pool_init env max_age w0 = (CSPCL_OK, p, w)"
    and "op_run (pool_step env) calls (p, w) (p', w')" and "length calls < 2 ^ 32"
  shows "\<exists>xs. op_run (cache_step (0 < max_conn_age_ms p)) calls [] xs \<and> ops w' = ops w \<union> snd ` set xs \<and>
    distinct (map fst xs) \<and> length xs \<le> 16"
proof -
  note i = conn_pool_init_owns [OF assms(1,2)]
  have p: "entries p = replicate CSPCL_CONN_POOL_SIZE entry_zero" "tick p = 0"
    using assms(2) by (auto simp: conn_pool_init_def pool_zero_def split: prod.splits if_splits)
  have "refines p []" by (auto simp: refines_def lru_order_def p entry_zero_def)
  then have "pool_sim env ops (0 < max_conn_age_ms p) (ops w) (length calls + 0) (p, w) []"
    using assms(1,4) i p(2) by (simp add: foreign_def)
  from lru.run_simulated [OF assms(3) this] obtain xs where
    xs: "op_run (cache_step (0 < max_conn_age_ms p)) calls [] xs" "refines p' xs" and
    o: "pool_owns ops p' w'" "unique_dest p'" "foreign ops p' w' = ops w" by auto
  have inv: "pool_inv p'" using o(1) by (simp add: pool_owns_def)
  note c = refines_conns [OF xs(2) inv o(2)]
  have "ops w' = ops w \<union> snd ` set xs" using o(1,3) c(1) by (auto simp: pool_owns_def foreign_def)
  with xs(1) c(2,3) show ?thesis by (auto simp: CSPCL_CONN_POOL_SIZE_def)
qed

theorem pool_is_lru_cache_witness:
  "\<exists>xs w'. op_run (cache_step False) [(Get 5 10, Some 0), (Invalidate 5 10, None)] [] xs \<and>
     opens wire_link w' = snd ` set xs \<and> length xs \<le> 16"
proof -
  let ?p = "pool fresh_sender"
  have i: "conn_pool_init wire_env None [] = (CSPCL_OK, ?p, [])"
    by (simp add: conn_pool_init_def wire_env_def fresh_sender_def)
  have g: "pool_get_or_create wire_env 5 10 ?p [] = (Some 0, first_pool, [Some ([], [])])"
    by (simp add: lookup_unused [OF fresh_entries fresh_unused(1)] first_pool_def pool_create_def pool_slot_def wire_sel)
  obtain q v where v: "pool_invalidate wire_env 5 10 first_pool [Some ([], [])] = (q, v)" by fastforce
  have "op_run (pool_step wire_env) [(Get 5 10, Some 0), (Invalidate 5 10, None)] (?p, []) (q, v)"
    by (rule op_run_cons [of _ _ _ _ "(first_pool, [Some ([], [])])"], simp add: g,
        rule op_run_cons [of _ _ _ _ "(q, v)"], simp add: v, rule op_run_nil)
  from pool_is_lru_cache [OF wire_conn i this] show ?thesis
    by (auto simp: fresh_sender_def conn_pool_init_def wire_env_def pool_zero_def wire_link_def)
qed

section \<open>Added connections\<close>

text \<open>
  \<open>cspcl_conn_pool_add\<close> does not look for a connection to the destination: with a free slot the pool has
  both afterwards, and invalidating the destination leaves one of them, which the next lookup
  returns instead of a fresh connection.
\<close>

lemma added_connection_duplicates:
  assumes env: "conn_env_ok env ops" and p: "pool_owns ops p w" and g: "pool_has da dp g p"
    and h: "h \<in> foreign ops p w" and free: "find_free 0 (entries p) = Some slot"
    and r: "conn_pool_add env p da dp (Some h) w = (CSPCL_OK, p', w')"
  shows "pool_has da dp g p' \<and> pool_has da dp h p' \<and> g \<noteq> h \<and> \<not> unique_dest p'"
proof -
  note a = conn_pool_add_owns [OF env p h r]
  have inv: "pool_inv p" using p by (simp add: pool_owns_def)
  have slot: "slot < CSPCL_CONN_POOL_SIZE" "\<not> used (entries p ! slot)" using pool_search(1) [OF inv] free by simp_all
  have "\<exists>e. entries p' = (entries p)[slot := e]"
    using r free by (auto simp: conn_pool_add_def find_free_or_evict_def pool_slot_def split: prod.splits if_splits)
  then obtain e where e: "entries p' = (entries p)[slot := e]" by blast
  have gp: "g \<in> pool_conns p" using pool_has_pool [OF p g] .
  have "pool_has da dp g p'"
    using g slot(2) unfolding pool_has_def e to_dest_def by (metis nth_list_update_neq)
  moreover have "g \<noteq> h" using gp h by (auto simp: foreign_def)
  moreover have "\<not> unique_dest p'"
  proof
    assume u: "unique_dest p'"
    obtain i where i: "i < CSPCL_CONN_POOL_SIZE" "to_dest da dp (entries p' ! i)" "conn (entries p' ! i) = Some g"
      using \<open>pool_has da dp g p'\<close> by (auto simp: pool_has_def)
    from pool_has_unique [OF u _ i(1,2), of h] a i(3) \<open>g \<noteq> h\<close> show False by simp
  qed
  ultimately show ?thesis using a by blast
qed

end
