(* ===== verification/CRetry.thy ===== *)
theory CRetry
  imports CDelivery
begin

text \<open>
  The retries of \<open>cspcl_send_bundle\<close> (\<open>src/cspcl.c\<close>): how often a bundle is transmitted, whatever the
  network does, and what the code returned says about it.
\<close>

section \<open>Counting the transmissions\<close>

text \<open>\<open>tx w\<close> is the number of calls of \<open>csp_sfp_send\<close> so far.\<close>

definition counts_sends :: "('w, 'm) send_env_scheme \<Rightarrow> ('w \<Rightarrow> nat) \<Rightarrow> bool" where
  "counts_sends env tx \<longleftrightarrow>
     (\<forall>h b n m t w. tx (snd (csp_sfp_send env h b n m t w)) = tx w + 1) \<and>
     (\<forall>a p w. tx (snd (csp_connect env a p w)) = tx w) \<and> (\<forall>h w. tx (csp_close env h w) = tx w) \<and>
     (\<forall>w. tx (snd (time_now env w)) = tx w) \<and> (\<forall>w. tx (snd (mutex_lock env w)) = tx w) \<and>
     (\<forall>w. tx (snd (mutex_unlock env w)) = tx w) \<and> (\<forall>h t w. tx (snd (csp_read env h t w)) = tx w) \<and>
     (\<forall>pk w. tx (csp_buffer_free env pk w) = tx w)"

lemma counts_sendsD:
  assumes "counts_sends env tx"
  shows "csp_sfp_send env h b n m t w = (r, w') \<Longrightarrow> tx w' = Suc (tx w)"
    "csp_connect env a p w = (c, w') \<Longrightarrow> tx w' = tx w" "tx (csp_close env h w) = tx w"
    "time_now env w = (s, w') \<Longrightarrow> tx w' = tx w" "csp_read env h t w = (pk, w') \<Longrightarrow> tx w' = tx w"
    "tx (csp_buffer_free env d w) = tx w" "tx (snd (mutex_lock env w)) = tx w" "tx (snd (mutex_unlock env w)) = tx w"
  using assms unfolding counts_sends_def by (metis Suc_eq_plus1 snd_conv)+

interpretation tx: conn_calls env "\<lambda>w w'. counts_sends env n \<longrightarrow> n w' = n w" for env n
  by unfold_locales (simp_all add: counts_sendsD(2-4))

lemma send_and_confirm_tx:
  assumes "counts_sends env tx" and "send_and_confirm env h b len w = (r, w')"
  shows "tx w' = Suc (tx w)"
  using assms(2) counts_sendsD(1,5,6) [OF assms(1)]
  by (auto simp: send_and_confirm_def wait_ack_def split: prod.splits option.splits if_splits)

text \<open>
  The attempts from a given one on: at most one transmission for each, at least one unless the
  first fails to connect.
\<close>

lemma send_attempts_tx:
  assumes c: "counts_sends env tx"
  shows "send_attempts env b len da dp attempt ret p w = (conn_failed, ret', p', w') \<Longrightarrow>
    \<exists>k \<le> 2 - attempt. tx w' = tx w + k \<and> (conn_failed \<longrightarrow> attempt = 0 \<and> k = 0) \<and> (attempt = 0 \<and> k = 0 \<longrightarrow> conn_failed)"
proof (induction "2 - attempt" arbitrary: attempt ret p w)
  case 0
  then show ?case by (simp add: send_attempts.simps [of env b len da dp attempt])
next
  case (Suc n)
  obtain c1 p1 w1 where g: "pool_get_or_create env da dp p w = (c1, p1, w1)" by (metis prod_cases3)
  have w1: "tx w1 = tx w" using tx.R_get_or_create [OF g] c by blast
  have att: "attempt < 2" using Suc.hyps(2) by simp
  show ?case
  proof (cases c1)
    case None
    with Suc.prems att g w1 show ?thesis
      by (intro exI [of _ 0]) (auto simp: send_attempts.simps [of env b len da dp attempt])
  next
    case (Some h)
    obtain r w2 where s: "send_and_confirm env h b len w1 = (r, w2)" by fastforce
    note w2 = send_and_confirm_tx [OF c s]
    show ?thesis
    proof (cases "r = csp_err_none env")
      case True
      with Suc.prems att g Some s w1 w2 show ?thesis
        by (intro exI [of _ 1]) (auto simp: send_attempts.simps [of env b len da dp attempt])
    next
      case False
      obtain p2 w3 where iv: "pool_invalidate env da dp p1 w2 = (p2, w3)" by fastforce
      have w3: "tx w3 = tx w2" using tx.R_invalidate [OF iv] c by blast
      have "send_attempts env b len da dp (attempt + 1) r p2 w3 = (conn_failed, ret', p', w')"
        using Suc.prems att g Some s False iv by (simp add: send_attempts.simps [of env b len da dp attempt])
      with Suc.hyps obtain k where "k \<le> 2 - (attempt + 1)" "tx w' = tx w3 + k" "\<not> conn_failed"
        by (metis Suc_eq_plus1 add_is_0 diff_Suc_1 diff_diff_left one_neq_zero)
      then show ?thesis using w1 w2 w3 att by (intro exI [of _ "Suc k"]) auto
    qed
  qed
qed

section \<open>Properties\<close>

text \<open>
  C18: a send ends after at most two transmissions of its bundle, whatever the network answers, and
  it has transmitted the bundle at all exactly if it returns success, a time-out or a failed send:
  every other error means that nothing was sent.
\<close>

theorem send_ends_after_two:
  assumes "counts_sends env tx" and "c_send_bundle env bundle_ptr len da dp (s, w) = (code, s', w')"
  shows "\<exists>k \<le> 2. tx w' = tx w + k \<and>
    (0 < k \<longleftrightarrow> code = CSPCL_OK \<or> code = CSPCL_ERR_TIMEOUT \<or> code = CSPCL_ERR_CSP_SEND)"
  using assms(2)
proof (cases rule: c_send_bundle_cases)
  case early
  then show ?thesis by (intro exI [of _ 0]) auto
next
  case unlocked
  then show ?thesis using counts_sendsD(7) [OF assms(1)] by (intro exI [of _ 0]) auto
next
  case (attempts bun failed ret p' w2)
  from send_attempts_tx [OF assms(1) attempts(4)] obtain k where
    "k \<le> 2" "tx w2 = tx (snd (mutex_lock env w)) + k" "failed \<longleftrightarrow> k = 0" by auto
  then show ?thesis
    using counts_sendsD(7,8) [OF assms(1)] unfolding attempts(6,7) by (intro exI [of _ k]) auto
qed

text \<open>A network that counts the transmissions and whose peer answers.\<close>

definition tally_env :: "(wire \<times> nat) send_env" where
  "tally_env = \<lparr>csp_connect = \<lambda>a p (w, n). let (c, w') = csp_connect wire_env a p w in (c, w', n),
     csp_close = \<lambda>h (w, n). (csp_close wire_env h w, n), time_now = \<lambda>w. (0, w), mutex_init = \<lambda>w. (True, w),
     mutex_lock = \<lambda>w. (True, w), mutex_unlock = \<lambda>w. (True, w), mutex_destroy = \<lambda>w. w,
     csp_sfp_send = \<lambda>h b k m t (w, n). (0, w, n + 1), csp_read = \<lambda>h t w. (Some [], w), csp_buffer_free = \<lambda>pk w. w,
     csp_err_none = 0, csp_err_timedout = -3\<rparr>"

lemma tally_counts: "counts_sends tally_env snd"
  by (simp add: counts_sends_def tally_env_def split: prod.splits)

theorem send_ends_after_two_witness:
  "\<exists>s' w'. c_send_bundle tally_env (Some [7, 8]) 2 5 10 (fresh_sender, [], 0) = (CSPCL_OK, s', w', 1)"
proof -
  have "\<exists>s' w'. c_send_bundle tally_env (Some [7, 8]) 2 5 10 (fresh_sender, [], 0) = (CSPCL_OK, s', w')"
    by (simp add: send_defs fresh_unused send_attempts.simps [of _ _ _ _ _ 0] tally_env_def wire_sel
        lookup_unused [OF fresh_entries fresh_unused(1)] send_and_confirm_def wait_ack_def)
  then obtain s' w' n where r: "c_send_bundle tally_env (Some [7, 8]) 2 5 10 (fresh_sender, [], 0) = (CSPCL_OK, s', w', n)"
    by auto
  moreover have "n = 1"
    using send_ends_after_two [OF tally_counts r] r
    by (simp add: send_defs fresh_unused send_attempts.simps [of _ _ _ _ _ 0] tally_env_def wire_sel
        lookup_unused [OF fresh_entries fresh_unused(1)] send_and_confirm_def wait_ack_def)
  ultimately show ?thesis by blast
qed

end
