(* ===== verification/PicoConfig.thy ===== *)
theory PicoConfig
  imports CspAddress SysTypes
begin

text \<open>
  Addresses, configuration and error classification of the picod3tn adapter
  (\<open>rust-bindings/picod3tn-cspcl/src/addr.rs\<close>, \<open>config.rs\<close>, \<open>error.rs\<close>).
\<close>

section \<open>Addresses\<close>

definition MAX_NODE_ADDR :: u8 where "MAX_NODE_ADDR = 30"
definition MIN_PORT :: u8 where "MIN_PORT = 7"
definition MAX_PORT :: u8 where "MAX_PORT = 31"

lemmas addr_limits = MAX_NODE_ADDR_def MIN_PORT_def MAX_PORT_def

datatype addr_error = Format | NodeAddr | Port

datatype cspcl_addr = CspclAddr (peer_addr: u8) (peer_port: u8)

text \<open>\<open>CspclAddr::new\<close>.\<close>

definition cspcl_addr_new :: "u8 \<Rightarrow> u8 \<Rightarrow> (addr_error, cspcl_addr) rresult" where
  "cspcl_addr_new a p =
     (if a > MAX_NODE_ADDR then Inl NodeAddr
      else if p < MIN_PORT \<or> p > MAX_PORT then Inl Port
      else Inr (CspclAddr a p))"

definition parse_u8 :: "rstr \<Rightarrow> u8 option" where
  "parse_u8 s = (if s = [] \<or> \<not> list_all is_ascii_digit s then None else u8_from_str s)"

definition parse_node_addr :: "rstr \<Rightarrow> (addr_error, u8) rresult" where
  "parse_node_addr s = ok_or (opt_filter (\<lambda>a. a \<le> MAX_NODE_ADDR) (parse_u8 s)) NodeAddr"

definition parse_port :: "rstr \<Rightarrow> (addr_error, u8) rresult" where
  "parse_port s = ok_or (opt_filter (\<lambda>p. MIN_PORT \<le> p \<and> p \<le> MAX_PORT) (parse_u8 s)) Port"

text \<open>\<open>impl FromStr for CspclAddr\<close> and \<open>impl Display for CspclAddr\<close>.\<close>

definition cspcl_addr_from_str :: "rstr \<Rightarrow> (addr_error, cspcl_addr) rresult" where
  "cspcl_addr_from_str s =
     and_then (ok_or (split_once (CHR '':'') s) Format) (\<lambda>(a, p).
       and_then (parse_node_addr a) (\<lambda>a.
         and_then (parse_port p) (\<lambda>p. Inr (CspclAddr a p))))"

definition cspcl_addr_display :: "cspcl_addr \<Rightarrow> rstr" where
  "cspcl_addr_display x = show_u8 (peer_addr x) @ CHR '':'' # show_u8 (peer_port x)"

text \<open>The messages of \<open>AddrError\<close>.\<close>

fun addr_error_display :: "addr_error \<Rightarrow> rstr" where
  "addr_error_display Format = ''expected <addr>:<port>, e.g. 2:10''"
| "addr_error_display NodeAddr = ''invalid CSP node address: expected 0 to '' @ show_u8 MAX_NODE_ADDR"
| "addr_error_display Port = ''invalid CSP port: expected '' @ show_u8 MIN_PORT @ '' to '' @ show_u8 MAX_PORT"

section \<open>Configuration\<close>

definition DEFAULT_CAN_IFACE :: rstr where "DEFAULT_CAN_IFACE = ''vcan0''"
definition DEFAULT_ZMQHUB_HOST :: rstr where "DEFAULT_ZMQHUB_HOST = ''localhost''"
definition DEFAULT_PORT :: u8 where "DEFAULT_PORT = 10"
definition MAX_IFACE_PARAM_LEN :: nat where "MAX_IFACE_PARAM_LEN = 63"

datatype interface = ILoopback | ICan "rstr option" | IZmqhub rstr

datatype interface_error = Unknown | LoopbackParam | EmptyParam | ParamTooLong | Nul

record config =
  local_addr :: u8
  listen_port :: u8
  interface :: interface

definition validate :: "config \<Rightarrow> (addr_error, unit) rresult" where
  "validate c =
     (if local_addr c > MAX_NODE_ADDR then Inl NodeAddr
      else if \<not> (MIN_PORT \<le> listen_port c \<and> listen_port c \<le> MAX_PORT) then Inl Port
      else Inr ())"

text \<open>\<open>impl FromStr for Interface\<close>.\<close>

definition checked_param :: "rstr option \<Rightarrow> (interface_error, rstr option) rresult" where
  "checked_param param =
     (case param of
        None \<Rightarrow> Inr None
      | Some param \<Rightarrow>
          if param = [] then Inl EmptyParam
          else if length param > MAX_IFACE_PARAM_LEN then Inl ParamTooLong
          else if CHR 0x00 \<in> set param then Inl Nul
          else Inr (Some param))"

definition interface_from_str :: "rstr \<Rightarrow> (interface_error, interface) rresult" where
  "interface_from_str s =
     (let (kind, param) = (case split_once (CHR '':'') s of
        Some (kind, param) \<Rightarrow> (kind, Some param)
      | None \<Rightarrow> (s, None))
      in if kind = ''loopback'' \<and> param = None then Inr ILoopback
         else if kind = ''loopback'' then Inl LoopbackParam
         else if kind = ''can'' then map_ok ICan (checked_param param)
         else if kind = ''zmqhub''
           then map_ok (\<lambda>host. IZmqhub (case host of Some h \<Rightarrow> h | None \<Rightarrow> DEFAULT_ZMQHUB_HOST))
             (checked_param param)
         else Inl Unknown)"

text \<open>\<open>impl Display for Interface\<close>.\<close>

fun interface_display :: "interface \<Rightarrow> rstr" where
  "interface_display ILoopback = ''loopback''"
| "interface_display (ICan iface) =
     ''can:'' @ (case iface of Some i \<Rightarrow> i | None \<Rightarrow> DEFAULT_CAN_IFACE)"
| "interface_display (IZmqhub host) = ''zmqhub:'' @ host"

fun interface_error_display :: "interface_error \<Rightarrow> rstr" where
  "interface_error_display Unknown =
     ''unknown CSP interface: expected loopback, can[:<iface>] or zmqhub[:<host>]''"
| "interface_error_display LoopbackParam = ''the loopback interface takes no parameter''"
| "interface_error_display EmptyParam = ''empty CSP interface name or host after `:`''"
| "interface_error_display ParamTooLong =
     ''CSP interface name or host longer than '' @ show_nat MAX_IFACE_PARAM_LEN @ '' bytes''"
| "interface_error_display Nul = ''CSP interface name or host contains a NUL byte''"

text \<open>
  \<open>CspclArgs\<close> as clap fills it in, and \<open>CspclArgs::config\<close>, \<open>None\<close> where a \<open>?\<close>
  returns early.
\<close>

record cspcl_args =
  arg_local_addr :: "u8 option"
  arg_port :: u8
  arg_interface :: "interface option"

definition args_config :: "cspcl_args \<Rightarrow> config option" where
  "args_config a =
     (case arg_local_addr a of
        None \<Rightarrow> None
      | Some la \<Rightarrow>
          (case arg_interface a of
             None \<Rightarrow> None
           | Some i \<Rightarrow> Some \<lparr>local_addr = la, listen_port = arg_port a, interface = i\<rparr>))"

text \<open>
  The conversions of \<open>link.rs\<close> into the types of the \<open>cspcl\<close> crate.
\<close>

definition csp_address_from :: "cspcl_addr \<Rightarrow> csp_address" where
  "csp_address_from a = CspAddress (peer_addr a) (peer_port a)"

fun interface_into :: "interface \<Rightarrow> interface_config" where
  "interface_into ILoopback = Loopback"
| "interface_into (ICan iface) = Can (case iface of Some i \<Rightarrow> i | None \<Rightarrow> DEFAULT_CAN_IFACE)"
| "interface_into (IZmqhub host) = Zmq host"

section \<open>What a failed send means\<close>

definition MAX_BUNDLE_SIZE :: nat where "MAX_BUNDLE_SIZE = 65535"

datatype failure_kind = Retryable | Permanent | Aborted

definition check_size :: "nat \<Rightarrow> (failure_kind, unit) rresult" where
  "check_size len = (if len > MAX_BUNDLE_SIZE then Inl Permanent else Inr ())"

text \<open>\<open>FailureKind::of\<close>; \<open>Aborted\<close> is the variant \<open>FailureKind::Cancelled\<close>.\<close>

fun failure_kind_of :: "error \<Rightarrow> failure_kind" where
  "failure_kind_of BundleTooLarge = Permanent"
| "failure_kind_of InvalidParam = Permanent"
| "failure_kind_of Cancelled = Aborted"
| "failure_kind_of NotInitialized = Aborted"
| "failure_kind_of _ = Retryable"

datatype send_error = SendRetryable error | SendPermanent error | SendCancelled

fun send_error_kind :: "send_error \<Rightarrow> failure_kind" where
  "send_error_kind (SendRetryable _) = Retryable"
| "send_error_kind (SendPermanent _) = Permanent"
| "send_error_kind SendCancelled = Aborted"

definition send_error_from :: "error \<Rightarrow> send_error" where
  "send_error_from e =
     (case failure_kind_of e of
        Retryable \<Rightarrow> SendRetryable e
      | Permanent \<Rightarrow> SendPermanent e
      | Aborted \<Rightarrow> SendCancelled)"

text \<open>C's own classification, \<open>cspcl_error_is_retryable\<close> (\<open>src/cspcl.c\<close>).\<close>

definition cspcl_error_is_retryable :: "cspcl_error_t \<Rightarrow> bool" where
  "cspcl_error_is_retryable err =
     (err = CSPCL_ERR_TIMEOUT \<or> err = CSPCL_ERR_POOL_FULL \<or> err = CSPCL_ERR_CSP_SEND \<or>
      err = CSPCL_ERR_CSP_RECV)"

section \<open>Lemmas\<close>

definition valid_peer :: "cspcl_addr \<Rightarrow> bool" where
  "valid_peer x \<longleftrightarrow> peer_addr x \<le> MAX_NODE_ADDR \<and> MIN_PORT \<le> peer_port x \<and> peer_port x \<le> MAX_PORT"

lemma parse_u8_show [simp]: "parse_u8 (show_u8 x) = Some x"
  using show_u8_digits [of _ x] by (auto simp: parse_u8_def list_all_iff)

lemma colon_not_in_show_u8 [simp]: "CHR '':'' \<notin> set (show_u8 x)"
  using show_u8_digits [of "CHR '':''" x] not_digit_sign by blast

lemma cspcl_addr_display_parses:
  "valid_peer x \<Longrightarrow> cspcl_addr_from_str (cspcl_addr_display x) = Inr x"
  by (cases x) (simp add: cspcl_addr_from_str_def cspcl_addr_display_def parse_node_addr_def
      parse_port_def valid_peer_def)

lemma cspcl_addr_from_str_valid: "cspcl_addr_from_str s = Inr x \<Longrightarrow> valid_peer x"
  by (auto simp: cspcl_addr_from_str_def and_then_eq_Inr parse_node_addr_def parse_port_def valid_peer_def)

interpretation peer_text: codec cspcl_addr_display cspcl_addr_from_str valid_peer
  by unfold_locales (rule cspcl_addr_display_parses, assumption, rule cspcl_addr_from_str_valid)

text \<open>A name or host that \<open>Interface::from_str\<close> accepts after the colon.\<close>

definition valid_param :: "rstr \<Rightarrow> bool" where
  "valid_param p \<longleftrightarrow> p \<noteq> [] \<and> length p \<le> MAX_IFACE_PARAM_LEN \<and> CHR 0x00 \<notin> set p"

fun valid_interface :: "interface \<Rightarrow> bool" where
  "valid_interface (ICan (Some i)) = valid_param i"
| "valid_interface (IZmqhub h) = valid_param h"
| "valid_interface _ = True"

text \<open>The interface actually used.\<close>

fun named_interface :: "interface \<Rightarrow> interface" where
  "named_interface (ICan None) = ICan (Some DEFAULT_CAN_IFACE)"
| "named_interface i = i"

lemma checked_param_Some: "valid_param p \<Longrightarrow> checked_param (Some p) = Inr (Some p)"
  by (simp add: checked_param_def valid_param_def)

lemma checked_param_Inr:
  "checked_param q = Inr r \<longleftrightarrow> r = q \<and> (\<forall>p. q = Some p \<longrightarrow> valid_param p)"
  by (auto simp: checked_param_def valid_param_def split: option.splits)

lemma valid_defaults: "valid_param DEFAULT_CAN_IFACE" "valid_param DEFAULT_ZMQHUB_HOST"
  by (simp_all add: valid_param_def DEFAULT_CAN_IFACE_def DEFAULT_ZMQHUB_HOST_def MAX_IFACE_PARAM_LEN_def)

lemma interface_from_str_valid: "interface_from_str s = Inr i \<Longrightarrow> valid_interface i"
  using valid_defaults
  by (auto simp: interface_from_str_def Let_def map_ok_eq_Inr checked_param_Inr
      split: if_splits option.splits prod.splits)

lemma split_once_kind: "split_once (CHR '':'') (''can:'' @ p) = Some (''can'', p)"
    "split_once (CHR '':'') (''zmqhub:'' @ p) = Some (''zmqhub'', p)"
  by simp_all

lemma interface_display_parses:
  assumes "valid_interface i"
  shows "interface_from_str (interface_display i) = Inr (named_interface i)"
proof (cases i)
  case ILoopback
  then show ?thesis by (simp add: interface_from_str_def)
next
  case (ICan iface)
  then have "valid_param (case iface of Some i \<Rightarrow> i | None \<Rightarrow> DEFAULT_CAN_IFACE)"
    using assms valid_defaults(1) by (cases iface) simp_all
  then show ?thesis
    by (cases iface) (simp_all add: ICan interface_from_str_def checked_param_Some)
next
  case (IZmqhub host)
  with assms show ?thesis
    by (simp add: interface_from_str_def checked_param_Some)
qed

lemma of_char_eq_0: "of_char c = (0 :: u8) \<longleftrightarrow> c = CHR 0x00"
proof -
  have "of_char c = (word_of_nat (of_char c) :: u8)" by (simp add: of_nat_of_char)
  then have "of_char c = (0 :: u8) \<longleftrightarrow> 256 dvd (of_char c :: nat)"
    by (simp add: word_of_nat_eq_0_iff)
  moreover have "256 dvd n \<longleftrightarrow> n = 0" if "n < 256" for n :: nat
    using that dvd_imp_le [of 256 n] by auto
  ultimately have "of_char c = (0 :: u8) \<longleftrightarrow> of_char c = (0 :: nat)"
    by simp
  moreover have "of_char c = (0 :: nat) \<longleftrightarrow> c = CHR 0x00" by (cases c) auto
  ultimately show ?thesis by simp
qed

lemma zero_byte_str: "0 \<in> set (str_bytes s) \<longleftrightarrow> CHR 0x00 \<in> set s"
  by (metis (no_types, lifting) str_bytes_def image_iff image_set of_char_eq_0)

lemma interface_into_named: "interface_into (named_interface i) = interface_into i"
  by (cases i rule: named_interface.cases) simp_all

section \<open>Properties\<close>

text \<open>
  The text form of a peer address: whatever parses is a valid peer, equals what
  \<open>CspclAddr::new\<close> builds from its parts, and parses again from its own text; the text of
  every valid peer parses to it, and two valid peers never share a text.
\<close>

theorem peer_address_text:
  "(cspcl_addr_from_str s = Inr x \<longrightarrow>
      cspcl_addr_new (peer_addr x) (peer_port x) = Inr x \<and> cspcl_addr_from_str (cspcl_addr_display x) = Inr x) \<and>
   (cspcl_addr_new a p = Inr y \<longrightarrow> cspcl_addr_from_str (cspcl_addr_display y) = Inr y) \<and>
   (valid_peer x \<and> valid_peer y \<longrightarrow> (cspcl_addr_display x = cspcl_addr_display y \<longleftrightarrow> x = y))"
proof -
  have new: "cspcl_addr_new (peer_addr z) (peer_port z) = Inr z" if "valid_peer z" for z
    using that by (auto simp: cspcl_addr_new_def valid_peer_def)
  have valid: "valid_peer y" if "cspcl_addr_new a p = Inr y"
    using that by (auto simp: cspcl_addr_new_def valid_peer_def split: if_splits)
  show ?thesis
    using new valid peer_text.dec_wf peer_text.dec_enc peer_text.enc_inj by blast
qed

theorem peer_address_text_witness:
  "cspcl_addr_from_str ''2:10'' = Inr (CspclAddr 2 10) \<and>
   cspcl_addr_from_str (cspcl_addr_display (CspclAddr 2 10)) = Inr (CspclAddr 2 10)"
proof -
  have "cspcl_addr_from_str ''2:10'' = Inr (CspclAddr 2 10)"
    by (simp add: cspcl_addr_from_str_def parse_node_addr_def parse_port_def parse_u8_def u8_from_str_def
        is_ascii_digit_def digit_value_def addr_limits)
  with peer_address_text [of "''2:10''" "CspclAddr 2 10" 2 10 "CspclAddr 2 10"] show ?thesis by simp
qed

text \<open>
  The \<open>Display\<close> form of an interface names the one actually used: it parses back to the
  same interface with the default CAN name filled in, which starts the same cspcl interface.
  Everything that parses is such an interface.
\<close>

theorem interface_text:
  "(interface_from_str s = Inr i \<longrightarrow> valid_interface i) \<and>
   (valid_interface i \<longrightarrow>
      interface_from_str (interface_display i) = Inr (named_interface i) \<and>
      interface_into (named_interface i) = interface_into i)"
  using interface_from_str_valid interface_display_parses interface_into_named by blast

theorem interface_text_witness:
  "interface_from_str ''can'' = Inr (ICan None) \<and>
   interface_from_str (interface_display (ICan None)) = Inr (ICan (Some ''vcan0''))"
proof -
  have "interface_from_str ''can'' = Inr (ICan None)"
    by (simp add: interface_from_str_def checked_param_def)
  with interface_text [of "''can''" "ICan None"] show ?thesis by (simp add: DEFAULT_CAN_IFACE_def)
qed

text \<open>
  An interface name given to picod3tn is never cut or altered on its way to C: whatever
  \<open>Interface::from_str\<close> accepts, the C instance that \<open>Cspcl::new\<close> configures holds exactly
  that name (or the default one) in the field of its interface type.
\<close>

theorem interface_name_reaches_c:
  assumes "interface_from_str s = Inr i" and "cfg_interface c = interface_into i"
  shows "case named_interface i of
      ILoopback \<Rightarrow> c_iface_type (configure c) = CSP_IFACE_LOOPBACK
    | ICan (Some name) \<Rightarrow> c_iface_type (configure c) = CSP_IFACE_CAN \<and>
        c_string (c_can_iface (configure c)) = str_bytes name
    | ICan None \<Rightarrow> False
    | IZmqhub host \<Rightarrow> c_iface_type (configure c) = CSP_IFACE_ZMQHUB \<and>
        c_string (c_zmqhub_addr (configure c)) = str_bytes host"
proof -
  have copy: "c_string (copy_c_string CSP_IFACE_PARAM_MAX p) = str_bytes p" if "valid_param p" for p
    using that by (intro c_string_copy) (simp_all add: valid_param_def MAX_IFACE_PARAM_LEN_def zero_byte_str)
  from interface_from_str_valid [OF assms(1)] assms(2) show ?thesis
    by (cases i rule: named_interface.cases)
      (simp_all add: configure_def Let_def copy valid_defaults)
qed

theorem interface_name_reaches_c_witness:
  "c_string (c_can_iface (configure \<lparr>cfg_local_addr = 1, cfg_csp_port = 10,
     cfg_interface = interface_into (ICan None)\<rparr>)) = str_bytes ''vcan0''"
proof -
  have "interface_from_str ''can'' = Inr (ICan None)"
    by (simp add: interface_from_str_def checked_param_def)
  from interface_name_reaches_c [OF this, of "\<lparr>cfg_local_addr = 1, cfg_csp_port = 10,
     cfg_interface = interface_into (ICan None)\<rparr>"] show ?thesis
    by (simp add: DEFAULT_CAN_IFACE_def)
qed

text \<open>
  C31: how a failed send is classified. \<open>SendError\<close> keeps the class of the error it is made
  from, and every error that C calls retryable is retryable here. The converse fails: these
  are all the errors of C that are retryable here and not in C.
\<close>

theorem send_error_classification:
  "send_error_kind (send_error_from e) = failure_kind_of e \<and>
   (cspcl_error_is_retryable c \<longrightarrow> failure_kind_of (from_raw c) = Retryable) \<and>
   (failure_kind_of (from_raw c) = Retryable \<and> \<not> cspcl_error_is_retryable c \<longleftrightarrow>
      from_raw c \<in> {NoMemory, Sfp, Connection, CspInit, CspStackInit, CspZmqhubInit, CspCanInit,
        CspCanNotSupported, CspRouter, UnknownError c})"
  by (cases e) (auto simp: send_error_from_def cspcl_error_is_retryable_def from_raw_def)

theorem send_error_classification_witness:
  "cspcl_error_is_retryable CSPCL_ERR_TIMEOUT \<and> failure_kind_of (from_raw CSPCL_ERR_TIMEOUT) = Retryable \<and>
   \<not> cspcl_error_is_retryable CSPCL_ERR_CONNECTION \<and>
   failure_kind_of (from_raw CSPCL_ERR_CONNECTION) = Retryable"
  using send_error_classification [of Timeout CSPCL_ERR_TIMEOUT]
    send_error_classification [of Timeout CSPCL_ERR_CONNECTION]
  by (simp add: cspcl_error_is_retryable_def from_raw_def)

end
