(* ===== verification/CText.thy ===== *)
theory CText
  imports PicoConfig
begin

text \<open>
  The text functions of the C core (\<open>src/cspcl.c\<close>): endpoint and address strings, interface
  specifications, error texts and categories. A C string is its characters before the zero byte,
  a null pointer \<open>None\<close>.
\<close>

section \<open>Numbers in text\<close>

text \<open>\<open>isspace\<close> in the C locale.\<close>

definition is_space :: "char \<Rightarrow> bool" where
  "is_space c \<longleftrightarrow> of_char c = (32 :: nat) \<or> 9 \<le> (of_char c :: nat) \<and> (of_char c :: nat) \<le> 13"

definition dec_value :: "string \<Rightarrow> nat" where
  "dec_value ds = foldl (\<lambda>v c. 10 * v + digit_value c) 0 ds"

text \<open>
  \<open>sscanf\<close> with \<open>%d\<close>: white space, a sign and digits; \<open>None\<close> if there is no digit. A number that does
  not fit an \<open>int\<close> is undefined behaviour in C, here it is just large.
\<close>

definition scan_int :: "string \<Rightarrow> int option" where
  "scan_int s =
     (let t = dropWhile is_space s;
          (neg, u) = (case t of
             [] \<Rightarrow> (False, [])
           | c # cs \<Rightarrow> if c = CHR ''-'' then (True, cs) else if c = CHR ''+'' then (False, cs) else (False, t));
          ds = takeWhile is_ascii_digit u
      in if ds = [] then None else Some (if neg then - int (dec_value ds) else int (dec_value ds)))"

definition atoi :: "string \<Rightarrow> int" where
  "atoi s = (case scan_int s of Some v \<Rightarrow> v | None \<Rightarrow> 0)"

definition has_prefix :: "string \<Rightarrow> string \<Rightarrow> bool" where
  "has_prefix p s \<longleftrightarrow> take (length p) s = p"

section \<open>Addresses\<close>

definition CSPCL_PORT_BP :: u8 where "CSPCL_PORT_BP = 10"

text \<open>A prefix followed by a number that fits an address.\<close>

definition numbered :: "string \<Rightarrow> string \<Rightarrow> u8 option" where
  "numbered p s =
     (if has_prefix p s
      then case scan_int (drop (length p) s) of
             Some node \<Rightarrow> if 0 \<le> node \<and> node \<le> 255 then Some (of_int node) else None
           | None \<Rightarrow> None
      else None)"

text \<open>The names \<open>dtn://a.dtn/\<close> to \<open>dtn://z.dtn/\<close>.\<close>

definition labelled :: "string \<Rightarrow> u8 option" where
  "labelled s =
     (if has_prefix ''dtn://'' s
      then case drop 6 s of
             label # dot # rest \<Rightarrow>
               if dot = CHR ''.'' \<and> has_prefix ''dtn/'' rest \<and> 97 \<le> (of_char label :: nat) \<and> (of_char label :: nat) \<le> 122
               then Some (of_nat (of_char label - 97 + 1)) else None
           | _ \<Rightarrow> None
      else None)"

definition endpoint_to_addr :: "string option \<Rightarrow> u8" where
  "endpoint_to_addr endpoint_id =
     (case endpoint_id of
        None \<Rightarrow> 0
      | Some s \<Rightarrow>
          (case numbered ''ipn:'' s of
             Some node \<Rightarrow> node
           | None \<Rightarrow>
               (case numbered ''dtn://node'' s of
                  Some node \<Rightarrow> node
                | None \<Rightarrow> (case labelled s of Some a \<Rightarrow> a | None \<Rightarrow> 0))))"

text \<open>The buffer has \<open>len\<close> bytes; \<open>None\<close> if nothing valid was written.\<close>

definition addr_to_endpoint :: "u8 \<Rightarrow> nat \<Rightarrow> cspcl_error_t \<times> string option" where
  "addr_to_endpoint a len =
     (if len < 12 then (CSPCL_ERR_INVALID_PARAM, None)
      else
        let text = ''ipn:'' @ show_u8 a @ ''.0''
        in if len \<le> length text then (CSPCL_ERR_INVALID_PARAM, None) else (CSPCL_OK, Some text))"

definition c_parse_port :: "string option \<Rightarrow> u8" where
  "c_parse_port addr_string =
     (case addr_string of
        None \<Rightarrow> CSPCL_PORT_BP
      | Some s \<Rightarrow>
          if has_prefix ''csp:'' s
          then case split_once (CHR '','') (drop 4 s) of
                 Some (_, after) \<Rightarrow> if 0 \<le> atoi after \<and> atoi after \<le> 31 then of_int (atoi after) else CSPCL_PORT_BP
               | None \<Rightarrow> CSPCL_PORT_BP
          else CSPCL_PORT_BP)"

text \<open>\<open>cspcl_parse_address\<close> with a pointer for the port, which had the value \<open>port0\<close>.\<close>

definition c_parse_address :: "string option \<Rightarrow> u8 \<Rightarrow> u8 \<times> u8" where
  "c_parse_address addr_string port0 =
     (case addr_string of
        None \<Rightarrow> (0, port0)
      | Some s \<Rightarrow>
          if has_prefix ''csp:'' s \<and> 0 \<le> atoi (drop 4 s) \<and> atoi (drop 4 s) \<le> 255
          then (of_int (atoi (drop 4 s)), c_parse_port (Some s))
          else
            (case numbered ''ipn:'' s of
               Some node \<Rightarrow> (node, CSPCL_PORT_BP)
             | None \<Rightarrow>
                 (case numbered ''dtn://node'' s of
                    Some node \<Rightarrow> (node, CSPCL_PORT_BP)
                  | None \<Rightarrow>
                      (case labelled s of
                         Some a \<Rightarrow> (a, CSPCL_PORT_BP)
                       | None \<Rightarrow>
                           if 0 \<le> atoi s \<and> atoi s \<le> 255 then (of_int (atoi s), CSPCL_PORT_BP) else (0, port0)))))"

definition is_valid_address_string :: "string option \<Rightarrow> u8 \<Rightarrow> bool" where
  "is_valid_address_string addr_string parsed_addr =
     (if parsed_addr \<noteq> 0 then True
      else case addr_string of
             None \<Rightarrow> False
           | Some s \<Rightarrow> s = ''0'' \<or> s = ''csp:0'' \<or> has_prefix ''ipn:0.'' s \<or> s = ''dtn://node0'')"

text \<open>The scheme is written to a buffer of \<open>scheme_len\<close> bytes.\<close>

definition identify_address_scheme :: "string option \<Rightarrow> nat \<Rightarrow> cspcl_error_t \<times> string option" where
  "identify_address_scheme addr_string scheme_len =
     (case addr_string of
        None \<Rightarrow> (CSPCL_ERR_INVALID_PARAM, None)
      | Some s \<Rightarrow>
          if scheme_len < 5 then (CSPCL_ERR_INVALID_PARAM, None)
          else if has_prefix ''ipn:'' s then (CSPCL_OK, Some (take (scheme_len - 1) ''ipn''))
          else if has_prefix ''dtn://'' s then (CSPCL_OK, Some (take (scheme_len - 1) ''dtn''))
          else if has_prefix ''csp:'' s then (CSPCL_OK, Some (take (scheme_len - 1) ''csp''))
          else if s \<noteq> [] \<and> is_ascii_digit (hd s) then (CSPCL_OK, Some (take (scheme_len - 1) ''bare''))
          else (CSPCL_ERR_INVALID_PARAM, None))"

section \<open>Errors\<close>

datatype error_category = CatOk | CatParam | CatResource | CatTimeout | CatCsp | CatFatal

definition categorize_error :: "cspcl_error_t \<Rightarrow> error_category" where
  "categorize_error err =
     (if err = CSPCL_OK then CatOk
      else if err = CSPCL_ERR_INVALID_PARAM then CatParam
      else if err = CSPCL_ERR_NO_MEMORY \<or> err = CSPCL_ERR_POOL_FULL then CatResource
      else if err = CSPCL_ERR_TIMEOUT then CatTimeout
      else if err = CSPCL_ERR_CSP_SEND \<or> err = CSPCL_ERR_CSP_RECV \<or> err = CSPCL_ERR_CONNECTION \<or> err = CSPCL_ERR_SFP
        then CatCsp
      else CatFatal)"

definition c_strerror :: "cspcl_error_t \<Rightarrow> string" where
  "c_strerror err =
     (if err = CSPCL_OK then ''Success''
      else if err = CSPCL_ERR_INVALID_PARAM then ''Invalid parameter''
      else if err = CSPCL_ERR_NO_MEMORY then ''Memory allocation failed''
      else if err = CSPCL_ERR_BUNDLE_TOO_LARGE then ''Bundle exceeds maximum size''
      else if err = CSPCL_ERR_CSP_SEND then ''CSP send failed''
      else if err = CSPCL_ERR_CSP_RECV then ''CSP receive failed''
      else if err = CSPCL_ERR_TIMEOUT then ''Operation timed out''
      else if err = CSPCL_ERR_SFP then ''SFP fragmentation/reassembly failed''
      else if err = CSPCL_ERR_NOT_INITIALIZED then ''CSPCL not initialized''
      else if err = CSPCL_ERR_CONNECTION then ''CSP connection failed''
      else if err = CSPCL_ERR_CSPINIT then ''CSP initialization failed''
      else if err = CSPCL_ERR_CSP_STACK_INIT then ''CSP stack initialization failed''
      else if err = CSPCL_ERR_CSP_ZMQHUB_INIT then ''CSP ZMQ hub interface initialization failed''
      else if err = CSPCL_ERR_CSP_CAN_INIT then ''CSP CAN interface initialization failed''
      else if err = CSPCL_ERR_CSP_CAN_NOT_SUPPORTED
        then ''CSP CAN interface not supported (rebuild libcsp with CAN driver)''
      else if err = CSPCL_ERR_CSP_ROUTER then ''CSP router task start failed''
      else if err = CSPCL_ERR_POOL_FULL then ''Connection pool full, LRU eviction was performed''
      else ''Unknown error'')"

section \<open>Interfaces\<close>

definition CSPCL_ZMQHUB_ADDR_DEFAULT :: string where "CSPCL_ZMQHUB_ADDR_DEFAULT = ''localhost''"
definition CSPCL_CAN_IFACE_DEFAULT :: string where "CSPCL_CAN_IFACE_DEFAULT = ''vcan0''"

text \<open>
  \<open>strncpy\<close> into an array of \<open>n\<close> characters, one less than its size, padded with zeros; the last
  character is then set to zero.
\<close>

definition strncpy_field :: "nat \<Rightarrow> string \<Rightarrow> u8 list" where
  "strncpy_field n src =
     (let bytes = take (n - 1) (takeWhile (\<lambda>b. b \<noteq> 0) (str_bytes src))
      in (bytes @ replicate (n - 1 - length bytes) 0) @ [0])"

definition parse_interface_spec :: "string option \<Rightarrow> cspcl_t \<Rightarrow> cspcl_error_t \<times> cspcl_t" where
  "parse_interface_spec iface_spec cspcl =
     (case iface_spec of
        None \<Rightarrow> (CSPCL_ERR_INVALID_PARAM, cspcl)
      | Some s \<Rightarrow>
          if has_prefix ''zmqhub:'' s then
            (CSPCL_OK, cspcl\<lparr>c_iface_type := CSP_IFACE_ZMQHUB,
               c_zmqhub_addr := strncpy_field CSP_IFACE_PARAM_MAX (drop 7 s)\<rparr>)
          else if s = ''zmqhub'' then
            (CSPCL_OK, cspcl\<lparr>c_iface_type := CSP_IFACE_ZMQHUB,
               c_zmqhub_addr := strncpy_field CSP_IFACE_PARAM_MAX CSPCL_ZMQHUB_ADDR_DEFAULT\<rparr>)
          else if has_prefix ''can:'' s then
            (CSPCL_OK, cspcl\<lparr>c_iface_type := CSP_IFACE_CAN,
               c_can_iface := strncpy_field CSP_IFACE_PARAM_MAX (drop 4 s)\<rparr>)
          else if s = ''can'' then
            (CSPCL_OK, cspcl\<lparr>c_iface_type := CSP_IFACE_CAN,
               c_can_iface := strncpy_field CSP_IFACE_PARAM_MAX CSPCL_CAN_IFACE_DEFAULT\<rparr>)
          else if s = ''loopback'' then (CSPCL_OK, cspcl\<lparr>c_iface_type := CSP_IFACE_LOOPBACK\<rparr>)
          else (CSPCL_ERR_INVALID_PARAM, cspcl))"

text \<open>The bytes before the zero that \<open>snprintf\<close> writes to a buffer of \<open>len\<close> bytes.\<close>

definition interface_type_to_string :: "cspcl_t \<Rightarrow> nat \<Rightarrow> cspcl_error_t \<times> u8 list option" where
  "interface_type_to_string cspcl len =
     (if len < 10 then (CSPCL_ERR_INVALID_PARAM, None)
      else if c_iface_type cspcl = CSP_IFACE_ZMQHUB
      then (CSPCL_OK, Some (take (len - 1) (str_bytes ''zmqhub:'' @ c_string (c_zmqhub_addr cspcl))))
      else if c_iface_type cspcl = CSP_IFACE_CAN
      then (CSPCL_OK, Some (take (len - 1) (str_bytes ''can:'' @ c_string (c_can_iface cspcl))))
      else if c_iface_type cspcl = CSP_IFACE_LOOPBACK
      then (CSPCL_OK, Some (take (len - 1) (str_bytes ''loopback'')))
      else (CSPCL_ERR_INVALID_PARAM, Some (take (len - 1) (str_bytes ''unknown''))))"

section \<open>Lemmas\<close>

lemma dec_value_append: "dec_value (xs @ [c]) = 10 * dec_value xs + digit_value c"
  by (simp add: dec_value_def)

lemma dec_value_show [simp]: "dec_value (show_nat n) = n"
proof (induction n rule: show_nat.induct)
  case (1 n)
  show ?case
  proof (cases "n < 10")
    case True
    then show ?thesis by (simp add: show_nat.simps [of n] dec_value_def)
  next
    case False
    then show ?thesis using 1 by (simp add: show_nat.simps [of n] dec_value_append)
  qed
qed

lemma digit_not_space: "is_ascii_digit c \<Longrightarrow> \<not> is_space c \<and> c \<noteq> CHR ''-'' \<and> c \<noteq> CHR ''+''"
  by (auto simp: is_ascii_digit_def is_space_def)

text \<open>A printed number reads back, whatever follows that is not a digit.\<close>

lemma scan_int_show:
  assumes "rest = [] \<or> \<not> is_ascii_digit (hd rest)"
  shows "scan_int (show_nat n @ rest) = Some (int n)"
proof -
  obtain c cs where sn: "show_nat n = c # cs" by (cases "show_nat n") (use show_nat_nonempty in blast)+
  then have "is_ascii_digit c" using show_nat_digits [of c n] by simp
  note c = digit_not_space [OF this]
  have "takeWhile is_ascii_digit (show_nat n @ rest) = show_nat n"
    using show_nat_digits [of _ n] assms by (cases rest) (auto simp: takeWhile_append)
  then have t: "takeWhile is_ascii_digit (c # cs @ rest) = c # cs" and v: "dec_value (c # cs) = n"
    using dec_value_show [of n] by (simp_all add: sn)
  show ?thesis unfolding scan_int_def sn using c t v by simp
qed

lemma atoi_show: "rest = [] \<or> \<not> is_ascii_digit (hd rest) \<Longrightarrow> atoi (show_nat n @ rest) = int n"
  by (simp add: atoi_def scan_int_show)

lemma has_prefix_append [simp]: "has_prefix p (p @ s)" "has_prefix p (p @ s) \<Longrightarrow> drop (length p) (p @ s) = s"
  by (simp_all add: has_prefix_def)

lemma numbered_show:
  assumes "n \<le> 255" and "rest = [] \<or> \<not> is_ascii_digit (hd rest)"
  shows "numbered p (p @ show_nat n @ rest) = Some (of_nat n)"
  using assms by (simp add: numbered_def has_prefix_def scan_int_show)

lemma unat_u8_le: "unat (x :: u8) \<le> 255"
  using unsigned_less [of x, where ?'a = nat] by simp

lemma u8_of_unat: "of_int (int (unat (x :: u8))) = x" by simp

lemma digit_char_zero: "digit_char 0 = CHR ''0''"
  by code_simp

lemma endpoint_length: "length (show_u8 a) \<le> 3"
proof -
  have "length (show_nat n) \<le> 3" if "n < 1000" for n
  proof -
    have one: "length (show_nat k) = 1" if "k < 10" for k using that by (simp add: show_nat.simps [of k])
    have two: "length (show_nat k) \<le> 2" if "k < 100" for k
      using that one [of "k div 10"] by (simp add: show_nat.simps [of k])
    show ?thesis using that two [of "n div 10"] by (simp add: show_nat.simps [of n])
  qed
  then show ?thesis using unat_u8_le [of a] by (simp add: show_u8_def)
qed

lemma takeWhile_take: "takeWhile P (take n xs) = take n (takeWhile P xs)"
  by (induction xs arbitrary: n) (auto simp: take_Cons split: nat.splits)

text \<open>The two languages fill the array in the same way.\<close>

lemma strncpy_field_copy: "0 < n \<Longrightarrow> strncpy_field n src = copy_c_string n src"
  by (cases n) (simp_all add: strncpy_field_def copy_c_string_eq takeWhile_take Let_def min_def replicate_append_same
      Suc_diff_le flip: replicate_Suc)

lemma default_names: "CSPCL_CAN_IFACE_DEFAULT = DEFAULT_CAN_IFACE" "CSPCL_ZMQHUB_ADDR_DEFAULT = DEFAULT_ZMQHUB_HOST"
  by (simp_all add: CSPCL_CAN_IFACE_DEFAULT_def CSPCL_ZMQHUB_ADDR_DEFAULT_def DEFAULT_CAN_IFACE_def
      DEFAULT_ZMQHUB_HOST_def)

lemma interface_from_str_cases:
  assumes "interface_from_str s = Inr x"
  obtains "s = ''loopback''" "x = ILoopback"
    | "s = ''can''" "x = ICan None"
    | "s = ''zmqhub''" "x = IZmqhub DEFAULT_ZMQHUB_HOST"
    | p where "s = ''can:'' @ p" "x = ICan (Some p)" "valid_param p"
    | p where "s = ''zmqhub:'' @ p" "x = IZmqhub p" "valid_param p"
proof (cases "split_once (CHR '':'') s")
  case None
  then have "interface_from_str s = (if s = ''loopback'' then Inr ILoopback
      else if s = ''can'' then map_ok ICan (checked_param None)
      else if s = ''zmqhub'' then map_ok (\<lambda>host. IZmqhub (case host of Some h \<Rightarrow> h | None \<Rightarrow> DEFAULT_ZMQHUB_HOST)) (checked_param None)
      else Inl Unknown)"
    unfolding interface_from_str_def None by simp
  then show ?thesis using assms that by (auto simp: checked_param_def split: if_splits)
next
  case (Some kp)
  then obtain k q where kq: "split_once (CHR '':'') s = Some (k, q)" by (cases kp) auto
  from split_once_Some [OF this] have s: "s = k @ '':'' @ q" by simp
  show ?thesis using assms kq s that
    by (auto simp: interface_from_str_def map_ok_eq_Inr checked_param_Inr split: if_splits)
qed

section \<open>Properties\<close>

text \<open>
  C35: the endpoint that the C core prints for an address reads back as that address, with both
  parsers, for every address and every buffer that the printing accepts, and the string counts as
  valid, 0 included.
\<close>

theorem endpoint_text:
  assumes "12 \<le> len"
  shows "\<exists>s. addr_to_endpoint a len = (CSPCL_OK, Some s) \<and> endpoint_to_addr (Some s) = a \<and>
    c_parse_address (Some s) p = (a, CSPCL_PORT_BP) \<and> is_valid_address_string (Some s) a \<and>
    identify_address_scheme (Some s) 5 = (CSPCL_OK, Some ''ipn'')"
proof -
  let ?s = "''ipn:'' @ show_nat (unat a) @ ''.0''"
  have n: "numbered ''ipn:'' ?s = Some a"
    using numbered_show [of "unat a" "''.0''" "''ipn:''"] unat_u8_le [of a] by (simp add: is_ascii_digit_def)
  have "a = 0 \<Longrightarrow> has_prefix ''ipn:0.'' ?s" by (simp add: has_prefix_def show_nat.simps digit_char_zero)
  moreover have "addr_to_endpoint a len = (CSPCL_OK, Some ?s)"
    using assms endpoint_length [of a] by (simp add: addr_to_endpoint_def show_u8_def)
  moreover have "\<not> has_prefix ''csp:'' ?s" "has_prefix ''ipn:'' ?s" by (simp_all add: has_prefix_def)
  ultimately show ?thesis
    using n by (intro exI [of _ ?s]) (simp add: endpoint_to_addr_def c_parse_address_def is_valid_address_string_def
        identify_address_scheme_def)
qed

theorem endpoint_text_witness:
  "\<exists>s. addr_to_endpoint 42 16 = (CSPCL_OK, Some s) \<and> endpoint_to_addr (Some s) = 42 \<and> is_valid_address_string (Some s) 42"
  using endpoint_text [of 16 42 0] by auto

text \<open>
  An address with an explicit port: both are read back for every address and every CSP port,
  but the string does not count as valid if the address is 0, although its port was read from it.
\<close>

theorem csp_address_with_port:
  assumes "q \<le> 31"
  shows "c_parse_address (Some (''csp:'' @ show_u8 a @ '','' @ show_u8 q)) p = (a, q) \<and>
    (is_valid_address_string (Some (''csp:'' @ show_u8 a @ '','' @ show_u8 q)) a \<longleftrightarrow> a \<noteq> 0)"
proof -
  define t where "t = show_u8 a @ '','' @ show_u8 q"
  have "CHR '','' \<notin> set (show_u8 a)" using show_u8_digits [of "CHR '',''" a] not_digit_sign by blast
  then have sp: "split_once (CHR '','') t = Some (show_u8 a, show_u8 q)" by (simp add: t_def)
  have at: "atoi t = int (unat a)" "atoi (show_u8 q) = int (unat q)"
    using atoi_show [of "'','' @ show_u8 q" "unat a"] atoi_show [of "[]" "unat q"]
    by (simp_all add: show_u8_def t_def is_ascii_digit_def)
  have q: "int (unat q) \<le> 31" using assms by (simp add: word_le_def)
  have a: "int (unat a) \<le> 255" using unat_u8_le [of a] by linarith
  have c: "has_prefix ''csp:'' (''csp:'' @ t)" "drop 4 (''csp:'' @ t) = t" by (simp_all add: has_prefix_def)
  have "c_parse_port (Some (''csp:'' @ t)) = q"
    using q c(1) unfolding c_parse_port_def option.case c(2) sp prod.case at(2) by simp
  then have "c_parse_address (Some (''csp:'' @ t)) p = (a, q)"
    using a c(1) unfolding c_parse_address_def option.case c(2) at(1) by simp
  moreover have "t \<noteq> ''0''" using show_u8_nonempty [of q] by (cases "show_u8 a") (auto simp: t_def)
  then have "is_valid_address_string (Some (''csp:'' @ t)) a \<longleftrightarrow> a \<noteq> 0"
    by (simp add: is_valid_address_string_def has_prefix_def)
  ultimately show ?thesis unfolding t_def by blast
qed

theorem csp_address_with_port_witness:
  "c_parse_address (Some (''csp:'' @ show_u8 0 @ '','' @ show_u8 7)) 10 = (0, 7) \<and>
   \<not> is_valid_address_string (Some (''csp:'' @ show_u8 0 @ '','' @ show_u8 7)) 0"
  using csp_address_with_port [of 7 0 10] by simp

text \<open>
  C34: the two interface parsers agree: whatever interface text picod3tn accepts, the parser of the
  C core accepts too, and fills in the same C instance that \<open>Cspcl::new\<close> configures from the
  parsed interface; C prints that instance's interface as Rust does, in a buffer of 71 bytes or more.
\<close>

theorem interface_texts_agree:
  assumes "interface_from_str s = Inr x" and "71 \<le> len"
    and "c = configure \<lparr>cfg_local_addr = a, cfg_csp_port = p, cfg_interface = interface_into x\<rparr>"
  shows "parse_interface_spec (Some s) (cspcl_t_default\<lparr>c_local_addr := a, c_csp_port := p\<rparr>) = (CSPCL_OK, c) \<and>
    interface_type_to_string c len = (CSPCL_OK, Some (str_bytes (interface_display x)))"
proof -
  have copy: "c_string (copy_c_string CSP_IFACE_PARAM_MAX q) = str_bytes q" and
    len: "length (str_bytes q) \<le> 63" if "valid_param q" for q
    using that c_string_copy [of q] zero_byte_str [of q]
    by (simp_all add: valid_param_def MAX_IFACE_PARAM_LEN_def) (simp add: str_bytes_def)
  have n: "strncpy_field CSP_IFACE_PARAM_MAX q = copy_c_string CSP_IFACE_PARAM_MAX q" for q
    by (simp add: strncpy_field_copy CSP_IFACE_PARAM_MAX_def)
  note defs = parse_interface_spec_def interface_type_to_string_def has_prefix_def n copy len configure_def Let_def
    valid_defaults str_bytes_def assms(3)
  show ?thesis
    using assms(1)
  proof (cases rule: interface_from_str_cases)
    case (4 q)
    then show ?thesis using len [of q] assms(2) by (simp add: defs)
  next
    case (5 q)
    then show ?thesis using len [of q] assms(2) by (simp add: defs)
  qed (use assms(2) valid_defaults [THEN len] in \<open>simp_all add: defs default_names\<close>)
qed

theorem interface_texts_agree_witness:
  "interface_type_to_string (configure \<lparr>cfg_local_addr = 1, cfg_csp_port = 10, cfg_interface = Can ''vcan0''\<rparr>) 71 =
     (CSPCL_OK, Some (str_bytes ''can:vcan0''))"
  using interface_texts_agree [of "''can''" "ICan None" 71 _ 1 10]
  by (simp add: interface_from_str_def checked_param_def DEFAULT_CAN_IFACE_def)

end
