(* ===== verification/CInit.thy ===== *)
theory CInit
  imports CRecv
begin

text \<open>
  Starting and stopping an instance of the C core (\<open>cspcl_init\<close> and \<open>cspcl_cleanup\<close> of
  \<open>src/cspcl.c\<close>): the CSP stack is one per process and kept in global variables. The global lock
  makes the part of \<open>cspcl_init\<close> that uses them one step.
\<close>

section \<open>State\<close>

text \<open>The rest of libcsp that starting needs; an interface is a handle.\<close>

record 'w init_env = "'w recv_env" +
  csp_init :: "u8 \<Rightarrow> 'w \<Rightarrow> int \<times> 'w"
  csp_zmqhub_init :: "u8 \<Rightarrow> u8 list \<Rightarrow> nat option \<Rightarrow> 'w \<Rightarrow> int \<times> nat option \<times> 'w"
  csp_can_open :: "u8 list \<Rightarrow> nat option \<Rightarrow> 'w \<Rightarrow> int \<times> nat option \<times> 'w"
  csp_have_libsocketcan :: bool
  csp_rtable_set :: "nat \<Rightarrow> 'w \<Rightarrow> 'w"
  csp_route_start_task :: "'w \<Rightarrow> int \<times> 'w"
  max_conn_age :: "'w \<Rightarrow> int option"

record rx_conn_entry =
  re_used :: bool
  re_conn :: "conn option"
  re_src_addr :: u8
  re_src_port :: u8
  re_last_active :: u32

record c_instance =
  ci_initialized :: bool
  ci_local_addr :: u8
  ci_rx_socket :: "socket option"
  ci_csp_port :: u8
  ci_iface_type :: u32
  ci_zmqhub_addr :: "u8 list"
  ci_can_iface :: "u8 list"
  ci_pool :: conn_pool
  ci_rx_conns :: "rx_conn_entry list"
  ci_rx_tick :: u32
  ci_active_iface :: "nat option"

record c_globals =
  g_stack_initialized :: bool
  g_router_started :: bool
  g_addr :: u8
  g_iface_type :: u32
  g_iface :: "nat option"
  g_rx :: rx_global

definition rx_zero :: "rx_conn_entry list" where
  "rx_zero = replicate 8 \<lparr>re_used = False, re_conn = None, re_src_addr = 0, re_src_port = 0, re_last_active = 0\<rparr>"

definition rx_of :: "c_instance \<Rightarrow> rx_state" where
  "rx_of i = \<lparr>rx_initialized = ci_initialized i, rx_csp_port = ci_csp_port i, rx_socket = ci_rx_socket i\<rparr>"

section \<open>Stopping\<close>

definition release_conn_pool :: "('w, 'm) init_env_scheme \<Rightarrow> c_instance \<Rightarrow> 'w \<Rightarrow> c_instance \<times> 'w" where
  "release_conn_pool env i w =
     (let (p, w') = conn_pool_cleanup env (ci_pool i) w
      in (i\<lparr>ci_pool := p\<rparr>, w'))"

fun close_rx_conns :: "('w, 'm) init_env_scheme \<Rightarrow> rx_conn_entry list \<Rightarrow> 'w \<Rightarrow> rx_conn_entry list \<times> 'w" where
  "close_rx_conns env [] w = ([], w)"
| "close_rx_conns env (e # es) w =
     (let w1 = (if re_used e then case re_conn e of Some h \<Rightarrow> csp_close env h w | None \<Rightarrow> w else w);
          (es', w2) = close_rx_conns env es w1
      in (e\<lparr>re_conn := None, re_used := False\<rparr> # es', w2))"

definition c_cleanup :: "('w, 'm) init_env_scheme \<Rightarrow> c_instance \<Rightarrow> 'w \<Rightarrow> c_instance \<times> 'w" where
  "c_cleanup env i w =
     (let i1 = i\<lparr>ci_rx_socket := rx_socket (c_close_rx_socket (rx_of i))\<rparr>;
          (i2, w1) = release_conn_pool env i1 w;
          (es, w2) = close_rx_conns env (ci_rx_conns i2) w1
      in (i2\<lparr>ci_rx_conns := es, ci_initialized := False\<rparr>, w2))"

section \<open>Starting\<close>

text \<open>The switch over the interface types; other values start nothing.\<close>

definition start_iface ::
  "('w, 'm) init_env_scheme \<Rightarrow> c_instance \<Rightarrow> 'w \<Rightarrow> cspcl_error_t \<times> c_instance \<times> 'w" where
  "start_iface env i w =
     (if ci_iface_type i = CSP_IFACE_ZMQHUB then
        let (ret, iface, w1) = csp_zmqhub_init env (ci_local_addr i) (ci_zmqhub_addr i) (ci_active_iface i) w
        in (if ret \<noteq> csp_err_none env then CSPCL_ERR_CSP_ZMQHUB_INIT else CSPCL_OK, i\<lparr>ci_active_iface := iface\<rparr>, w1)
      else if ci_iface_type i = CSP_IFACE_CAN then
        (if csp_have_libsocketcan env then
           let (ret, iface, w1) = csp_can_open env (ci_can_iface i) (ci_active_iface i) w
           in (if ret \<noteq> csp_err_none env then CSPCL_ERR_CSP_CAN_INIT else CSPCL_OK, i\<lparr>ci_active_iface := iface\<rparr>, w1)
         else (CSPCL_ERR_CSP_CAN_NOT_SUPPORTED, i, w))
      else if ci_iface_type i = CSP_IFACE_LOOPBACK then (CSPCL_OK, i\<lparr>ci_active_iface := None\<rparr>, w)
      else (CSPCL_OK, i, w))"

definition start_stack ::
  "('w, 'm) init_env_scheme \<Rightarrow> c_instance \<Rightarrow> c_globals \<Rightarrow> 'w \<Rightarrow> cspcl_error_t \<times> c_instance \<times> c_globals \<times> 'w" where
  "start_stack env i g w =
     (let (ret, w1) = csp_init env (ci_local_addr i) w
      in if ret \<noteq> csp_err_none env then (CSPCL_ERR_CSP_STACK_INIT, i, g, w1)
         else
           let (err, i1, w2) = start_iface env i w1
           in if err \<noteq> CSPCL_OK then (err, i1, g, w2)
              else
                let g1 = g\<lparr>g_addr := ci_local_addr i1, g_iface_type := ci_iface_type i1, g_iface := ci_active_iface i1\<rparr>;
                    w3 = (case ci_active_iface i1 of Some f \<Rightarrow> csp_rtable_set env f w2 | None \<Rightarrow> w2);
                    (ret, w4) = csp_route_start_task env w3
                in if ret \<noteq> csp_err_none env then (CSPCL_ERR_CSP_ROUTER, i1, g1, w4)
                   else (CSPCL_OK, i1, g1\<lparr>g_router_started := True, g_stack_initialized := True\<rparr>, w4))"

text \<open>The stack runs already: the configuration has to agree.\<close>

definition join_stack :: "c_instance \<Rightarrow> c_globals \<Rightarrow> cspcl_error_t \<times> c_instance" where
  "join_stack i g =
     (if ci_local_addr i \<noteq> g_addr g \<or> ci_iface_type i \<noteq> g_iface_type g then (CSPCL_ERR_CSPINIT, i)
      else (CSPCL_OK, i\<lparr>ci_active_iface := g_iface g\<rparr>))"

text \<open>The part of \<open>cspcl_init\<close> for an instance that is not initialized.\<close>

definition init_instance ::
  "('w, 'm) init_env_scheme \<Rightarrow> c_instance \<Rightarrow> c_globals \<Rightarrow> 'w \<Rightarrow> cspcl_error_t \<times> c_instance \<times> c_globals \<times> 'w" where
  "init_instance env i g w =
     (let (pool_err, p, w1) = conn_pool_init env (max_conn_age env w) w
      in if pool_err \<noteq> CSPCL_OK then (pool_err, i\<lparr>ci_pool := p\<rparr>, g, w1)
         else
           let i1 = i\<lparr>ci_pool := p, ci_rx_conns := rx_zero, ci_rx_tick := 0\<rparr>;
               (err, i2, g', w2) =
                 (if \<not> g_stack_initialized g then start_stack env i1 g w1
                  else let (err, i2) = join_stack i1 g in (err, i2, g, w1))
           in if err \<noteq> CSPCL_OK
              then let (i3, w3) = release_conn_pool env i2 w2 in (err, i3, g', w3)
              else (CSPCL_OK, i2\<lparr>ci_initialized := True\<rparr>, g', w2))"

definition c_init ::
  "('w, 'm) init_env_scheme \<Rightarrow> c_instance \<Rightarrow> c_globals \<Rightarrow> 'w \<Rightarrow> cspcl_error_t \<times> c_instance \<times> c_globals \<times> 'w" where
  "c_init env i g w =
     (let (err, i1, g1, w1) = (if ci_initialized i then (CSPCL_OK, i, g, w) else init_instance env i g w)
      in if err \<noteq> CSPCL_OK then (err, i1, g1, w1)
         else
           let (err, s, rg, w2) = open_rx_socket env (rx_of i1) (g_rx g1) w1;
               i2 = i1\<lparr>ci_rx_socket := rx_socket s\<rparr>;
               g2 = g1\<lparr>g_rx := rg\<rparr>
           in if err \<noteq> CSPCL_OK
              then let (i3, w3) = c_cleanup env i2 w2 in (err, i3, g2, w3)
              else (CSPCL_OK, i2, g2, w2))"

section \<open>Instances agree with the stack\<close>

definition agrees :: "c_instance \<Rightarrow> c_globals \<Rightarrow> bool" where
  "agrees i g \<longleftrightarrow> g_stack_initialized g \<and> ci_local_addr i = g_addr g \<and> ci_iface_type i = g_iface_type g \<and>
     ci_active_iface i = g_iface g"

text \<open>A running stack is never changed.\<close>

definition stack_kept :: "c_globals \<Rightarrow> c_globals \<Rightarrow> bool" where
  "stack_kept g g' \<longleftrightarrow> (g_stack_initialized g \<longrightarrow> g' = g\<lparr>g_rx := g_rx g'\<rparr>)"

lemma agrees_kept: "agrees i g \<Longrightarrow> stack_kept g g' \<Longrightarrow> agrees i g'"
  by (cases g; cases g') (auto simp: agrees_def stack_kept_def)

lemma release_conn_pool_sel:
  assumes "release_conn_pool env i w = (i', w')"
  shows "ci_initialized i' = ci_initialized i"
  using assms by (auto simp: release_conn_pool_def split: prod.splits)

lemma start_iface_sel:
  assumes "start_iface env i w = (err, i', w')"
  shows "ci_initialized i' = ci_initialized i"
  using assms by (auto simp: start_iface_def Let_def split: if_splits prod.splits)

lemma start_stack_result:
  assumes r: "start_stack env i g w = (err, i', g', w')" and n: "\<not> g_stack_initialized g"
  shows "if err = CSPCL_OK then agrees i' g' else \<not> g_stack_initialized g'" "ci_initialized i' = ci_initialized i"
proof -
  obtain ret w1 where a: "csp_init env (ci_local_addr i) w = (ret, w1)" by fastforce
  obtain e1 i1 w2 where b: "start_iface env i w1 = (e1, i1, w2)" by (metis prod_cases3)
  obtain ret2 w4 where c: "csp_route_start_task env
      (case ci_active_iface i1 of Some f \<Rightarrow> csp_rtable_set env f w2 | None \<Rightarrow> w2) = (ret2, w4)" by fastforce
  have i1: "ci_initialized i1 = ci_initialized i" by (rule start_iface_sel [OF b])
  show "if err = CSPCL_OK then agrees i' g' else \<not> g_stack_initialized g'" "ci_initialized i' = ci_initialized i"
    using r a b c n i1 by (auto simp: start_stack_def agrees_def Let_def split: if_splits)
qed

lemma join_stack_result:
  assumes "join_stack i g = (err, i')" and "g_stack_initialized g"
  shows "err = CSPCL_OK \<Longrightarrow> agrees i' g" "ci_initialized i' = ci_initialized i"
  using assms by (auto simp: join_stack_def agrees_def split: if_splits)

lemma init_instance_result:
  assumes r: "init_instance env i g w = (code, i', g', w')" and n: "\<not> ci_initialized i"
  shows "if code = CSPCL_OK then agrees i' g' else \<not> ci_initialized i'" "g_stack_initialized g \<Longrightarrow> g' = g"
proof -
  obtain perr p w1 where p: "conn_pool_init env (max_conn_age env w) w = (perr, p, w1)" by (metis prod_cases3)
  let ?i = "i\<lparr>ci_pool := p, ci_rx_conns := rx_zero, ci_rx_tick := 0\<rparr>"
  obtain err i2 g2 w2 where s: "(if \<not> g_stack_initialized g then start_stack env ?i g w1
      else let (err, i2) = join_stack ?i g in (err, i2, g, w1)) = (err, i2, g2, w2)" by (metis prod_cases4)
  obtain i3 w3 where rl: "release_conn_pool env i2 w2 = (i3, w3)" by fastforce
  have s': "(err = CSPCL_OK \<longrightarrow> agrees i2 g2) \<and> \<not> ci_initialized i2 \<and> (g_stack_initialized g \<longrightarrow> g2 = g)"
    using s n start_stack_result [of env ?i g w1 err i2 g2 w2] join_stack_result [of ?i g err i2]
    by (auto split: if_splits prod.splits)
  have i3: "\<not> ci_initialized i3" using release_conn_pool_sel [OF rl] s' by simp
  show "if code = CSPCL_OK then agrees i' g' else \<not> ci_initialized i'" "g_stack_initialized g \<Longrightarrow> g' = g"
    using r p s s' rl i3 n by (auto simp: init_instance_def agrees_def Let_def split: if_splits)
qed

lemma c_cleanup_sel: "c_cleanup env i w = (i', w') \<Longrightarrow> \<not> ci_initialized i'"
  by (auto simp: c_cleanup_def Let_def split: prod.splits)

lemma c_init_result:
  assumes r: "c_init env i g w = (code, i', g', w')" and a: "ci_initialized i \<Longrightarrow> agrees i g"
  shows "ci_initialized i' \<Longrightarrow> agrees i' g'" "stack_kept g g'"
proof -
  obtain err i1 g1 w1 where o: "(if ci_initialized i then (CSPCL_OK, i, g, w) else init_instance env i g w) = (err, i1, g1, w1)"
    by (metis prod_cases4)
  obtain err2 s rg w2 where b: "open_rx_socket env (rx_of i1) (g_rx g1) w1 = (err2, s, rg, w2)" by (metis prod_cases4)
  let ?i = "i1\<lparr>ci_rx_socket := rx_socket s\<rparr>" and ?g = "g1\<lparr>g_rx := rg\<rparr>"
  obtain i3 w3 where c: "c_cleanup env ?i w2 = (i3, w3)" by fastforce
  have i1: "(if err = CSPCL_OK then agrees i1 g1 else \<not> ci_initialized i1) \<and> (g_stack_initialized g \<longrightarrow> g1 = g)"
    using o a init_instance_result [of env i g w err i1 g1 w1] by (cases "ci_initialized i") auto
  have "(err \<noteq> CSPCL_OK \<and> i' = i1 \<and> g' = g1) \<or> (err = CSPCL_OK \<and> i' = i3 \<and> g' = ?g) \<or> (err = CSPCL_OK \<and> i' = ?i \<and> g' = ?g)"
    using r o b c by (auto simp: c_init_def Let_def split: if_splits)
  with i1 c_cleanup_sel [OF c] show "ci_initialized i' \<Longrightarrow> agrees i' g'" "stack_kept g g'"
    by (auto simp: agrees_def stack_kept_def split: if_splits)
qed

section \<open>Many instances in a process\<close>

text \<open>
  Any number of instances: each is configured while it is not initialized, started and cleaned up
  in any order; running ones change what is not configuration.
\<close>

record 'w init_sys =
  insts :: "nat \<Rightarrow> c_instance"
  globals :: c_globals
  world :: 'w

inductive init_step :: "('w, 'm) init_env_scheme \<Rightarrow> 'w init_sys \<Rightarrow> 'w init_sys \<Rightarrow> bool" for env where
  configure_step: "\<not> ci_initialized (insts s k) \<Longrightarrow> \<not> ci_initialized i \<Longrightarrow>
    init_step env s (s\<lparr>insts := (insts s)(k := i)\<rparr>)"
| init: "c_init env (insts s k) (globals s) (world s) = (code, i', g', w') \<Longrightarrow>
    init_step env s \<lparr>insts = (insts s)(k := i'), globals = g', world = w'\<rparr>"
| cleanup: "c_cleanup env (insts s k) (world s) = (i', w') \<Longrightarrow>
    init_step env s (s\<lparr>insts := (insts s)(k := i'), world := w'\<rparr>)"
| run: "init_step env s (s\<lparr>insts := (insts s)(k := (insts s k)\<lparr>ci_pool := p, ci_rx_socket := sock, ci_rx_conns := rs, ci_rx_tick := t\<rparr>),
      globals := (globals s)\<lparr>g_rx := rg\<rparr>, world := w'\<rparr>)"

definition init_inv :: "'w init_sys \<Rightarrow> bool" where
  "init_inv s \<longleftrightarrow> (\<forall>k. ci_initialized (insts s k) \<longrightarrow> agrees (insts s k) (globals s))"

lemma init_inv_step: "init_step env s t \<Longrightarrow> init_inv s \<Longrightarrow> init_inv t"
proof (induction rule: init_step.induct)
  case (init s k code i' g' w')
  have "agrees (insts s k) (globals s)" if "ci_initialized (insts s k)" using init.prems that by (simp add: init_inv_def)
  note r = c_init_result [OF init.hyps this]
  show ?case using r init.prems agrees_kept by (auto simp: init_inv_def)
next
  case (cleanup s k i' w')
  then show ?case using c_cleanup_sel [OF cleanup.hyps] by (simp add: init_inv_def)
next
  case (run s k p sock rs t rg w')
  then show ?case by (simp add: init_inv_def agrees_def)
qed (simp add: init_inv_def)

text \<open>No instance is initialized in the beginning, nor is the stack.\<close>

definition init_sys_start :: "(nat \<Rightarrow> c_instance) \<Rightarrow> 'w \<Rightarrow> 'w init_sys" where
  "init_sys_start cs w = \<lparr>insts = (\<lambda>k. (cs k)\<lparr>ci_initialized := False\<rparr>),
     globals = \<lparr>g_stack_initialized = False, g_router_started = False, g_addr = 0, g_iface_type = CSP_IFACE_LOOPBACK,
       g_iface = None, g_rx = \<lparr>global_rx_socket = None, global_rx_port = 0\<rparr>\<rparr>, world = w\<rparr>"

interpretation starting: invariant_system "init_sys_start cs w" "init_step env" init_inv for cs w env
proof
  show "init_inv (init_sys_start cs w)" by (simp add: init_inv_def init_sys_start_def)
qed (rule init_inv_step)

lemma c_init_refused:
  assumes "g_stack_initialized g" and "\<not> ci_initialized i"
    and "ci_local_addr i \<noteq> g_addr g \<or> ci_iface_type i \<noteq> g_iface_type g"
  shows "fst (c_init env i g w) \<in> {CSPCL_ERR_CSPINIT, CSPCL_ERR_NO_MEMORY}"
  using assms by (auto simp: c_init_def init_instance_def join_stack_def conn_pool_init_def split: prod.splits)

text \<open>
  C21: all initialized instances of a process have the same CSP address, interface type and
  interface, those of the running stack; starting another one with a different address or
  interface type is refused.
\<close>

theorem initialized_instances_agree:
  assumes "reach (init_sys_start cs w) (init_step env) s"
    and "ci_initialized (insts s j)" and "ci_initialized (insts s k)"
  shows "g_stack_initialized (globals s) \<and> ci_local_addr (insts s j) = ci_local_addr (insts s k) \<and>
    ci_iface_type (insts s j) = ci_iface_type (insts s k) \<and> ci_active_iface (insts s j) = ci_active_iface (insts s k) \<and>
    (\<forall>i w'. \<not> ci_initialized i \<and>
       (ci_local_addr i \<noteq> ci_local_addr (insts s j) \<or> ci_iface_type i \<noteq> ci_iface_type (insts s j)) \<longrightarrow>
       fst (c_init env i (globals s) w') \<in> {CSPCL_ERR_CSPINIT, CSPCL_ERR_NO_MEMORY})"
proof -
  have "agrees (insts s j) (globals s)" "agrees (insts s k) (globals s)"
    using starting.inv_reach [OF assms(1)] assms(2,3) by (simp_all add: init_inv_def)
  then show ?thesis using c_init_refused [of "globals s"] unfolding agrees_def by metis
qed

definition init_call :: "('w, 'm) init_env_scheme \<Rightarrow> nat \<Rightarrow> 'w init_sys \<Rightarrow> 'w init_sys" where
  "init_call env k s = (case c_init env (insts s k) (globals s) (world s) of
     (_, i', g', w') \<Rightarrow> \<lparr>insts = (insts s)(k := i'), globals = g', world = w'\<rparr>)"

lemma init_call_step: "init_step env s (init_call env k s)"
  by (cases "c_init env (insts s k) (globals s) (world s)") (auto simp: init_call_def intro: init_step.init)

text \<open>A stack on the loopback interface.\<close>

definition loop_env :: "u8 set init_env" where
  "loop_env = recv_env.extend ports_env
     (init_env.fields (\<lambda>_ w. (0, w)) (\<lambda>_ _ f w. (-1, f, w)) (\<lambda>_ f w. (-1, f, w)) False (\<lambda>_ w. w) (\<lambda>w. (0, w)) (\<lambda>_. None))"

definition loop_instance :: "u8 \<Rightarrow> c_instance" where
  "loop_instance p = \<lparr>ci_initialized = False, ci_local_addr = 5, ci_rx_socket = None, ci_csp_port = p,
     ci_iface_type = CSP_IFACE_LOOPBACK, ci_zmqhub_addr = [], ci_can_iface = [], ci_pool = pool_zero, ci_rx_conns = rx_zero,
     ci_rx_tick = 0, ci_active_iface = None\<rparr>"

definition two_started :: "u8 set init_sys" where
  "two_started = init_call loop_env 1 (init_call loop_env 0 (init_sys_start (\<lambda>k. loop_instance (if k = 0 then 10 else 11)) {}))"

lemma two_started_initialized: "ci_initialized (insts two_started 0)" "ci_initialized (insts two_started 1)"
  by (simp_all add: two_started_def init_call_def init_sys_start_def loop_instance_def c_init_def init_instance_def
      conn_pool_init_def loop_env_def ports_env_def recv_env.defs init_env.defs start_stack_def start_iface_def
      join_stack_def open_rx_socket_def rx_of_def)

theorem initialized_instances_agree_witness:
  "g_stack_initialized (globals two_started) \<and>
   ci_local_addr (insts two_started 0) = ci_local_addr (insts two_started 1) \<and>
   fst (c_init loop_env ((loop_instance 12)\<lparr>ci_local_addr := 6\<rparr>) (globals two_started) {}) \<in>
     {CSPCL_ERR_CSPINIT, CSPCL_ERR_NO_MEMORY}"
proof -
  have "reach (init_sys_start (\<lambda>k. loop_instance (if k = 0 then 10 else 11)) {}) (init_step loop_env) two_started"
    unfolding two_started_def by (rule reach_step, rule reach_step, rule reach_init) (rule init_call_step)+
  note r = initialized_instances_agree [OF this two_started_initialized]
  moreover have "ci_local_addr (insts two_started 0) = 5"
    by (simp add: two_started_def init_call_def init_sys_start_def loop_instance_def c_init_def init_instance_def
      conn_pool_init_def loop_env_def ports_env_def recv_env.defs init_env.defs start_stack_def start_iface_def
      join_stack_def open_rx_socket_def rx_of_def)
  ultimately show ?thesis by (simp add: loop_instance_def)
qed

text \<open>
  When the interface cannot be started, the stack counts as not started although \<open>csp_init\<close> was
  run, and the next attempt runs it again: here the world counts the calls.
\<close>

definition no_broker_env :: "nat init_env" where
  "no_broker_env = recv_env.extend
     \<lparr>csp_connect = (\<lambda>_ _ w. (None, w)), csp_close = (\<lambda>_ w. w), time_now = (\<lambda>w. (0, w)),
     mutex_init = (\<lambda>w. (True, w)), mutex_lock = (\<lambda>w. (True, w)), mutex_unlock = (\<lambda>w. (True, w)), mutex_destroy = (\<lambda>w. w),
     csp_sfp_send = (\<lambda>_ _ _ _ _ w. (-1, w)), csp_read = (\<lambda>_ _ w. (None, w)), csp_buffer_free = (\<lambda>_ w. w),
     csp_err_none = 0, csp_err_timedout = -3,
     csp_sfp_recv = (\<lambda>_ _ w. ((-3, None, 0), w)), csp_free = (\<lambda>_ w. w), csp_buffer_get = (\<lambda>_ w. (None, w)),
     csp_send = (\<lambda>_ _ _ w. (False, w)), csp_socket = (\<lambda>w. (None, w)), csp_bind = (\<lambda>_ _ w. (-4, w)),
     csp_listen = (\<lambda>_ _ w. (0, w)), csp_accept = (\<lambda>_ _ w. (None, w)), csp_conn_src = (\<lambda>_ _. 0),
     csp_conn_sport = (\<lambda>_ _. 0), csp_err_nomem = -1\<rparr>
     (init_env.fields (\<lambda>_ w. (0, w + 1)) (\<lambda>_ _ f w. (-1, f, w)) (\<lambda>_ f w. (-1, f, w)) False (\<lambda>_ w. w) (\<lambda>w. (0, w)) (\<lambda>_. None))"

lemma cleanup_zero: "cleanup_entries env (replicate n entry_zero) w = (replicate n entry_zero, w)"
  by (induction n) (simp_all add: entry_zero_def)

theorem failed_interface_reruns_csp_init:
  "world (init_call no_broker_env 0 (init_call no_broker_env 0
     (init_sys_start (\<lambda>_. (loop_instance 10)\<lparr>ci_iface_type := CSP_IFACE_ZMQHUB\<rparr>) 0))) = 2"
  by (simp add: init_call_def init_sys_start_def loop_instance_def c_init_def init_instance_def
      conn_pool_init_def no_broker_env_def recv_env.defs init_env.defs start_stack_def start_iface_def
      release_conn_pool_def conn_pool_cleanup_def pool_zero_def cleanup_zero)

end
