(* ===== verification/CRxTable.thy ===== *)
theory CRxTable
  imports CInit
begin

text \<open>
  Receiving from any peer in the C core (\<open>cspcl_recv_bundle\<close> of \<open>src/cspcl.c\<close>): the table of inbound
  connections that stay open between calls, and the round over them.
\<close>

section \<open>Operations\<close>

definition RX_TABLE_SIZE :: nat where "RX_TABLE_SIZE = 8"
definition RX_ACCEPT_POLL_MS :: u32 where "RX_ACCEPT_POLL_MS = 100"

text \<open>
  The first loop of \<open>cspcl_rx_table_store\<close>: the entry of the peer, and the first unused entry before
  it (before the end, if the peer has none).
\<close>

fun rx_scan :: "u8 \<Rightarrow> u8 \<Rightarrow> nat \<Rightarrow> rx_conn_entry list \<Rightarrow> nat option \<Rightarrow> nat option \<times> nat option" where
  "rx_scan sa sp i [] free = (None, free)"
| "rx_scan sa sp i (e # es) free =
     (if re_used e \<and> re_src_addr e = sa \<and> re_src_port e = sp then (Some i, free)
      else rx_scan sa sp (Suc i) es (if \<not> re_used e \<and> free = None then Some i else free))"

text \<open>The loop for the least recently active entry.\<close>

fun rx_lru_from :: "rx_conn_entry list \<Rightarrow> nat list \<Rightarrow> nat \<Rightarrow> nat" where
  "rx_lru_from es [] slot = slot"
| "rx_lru_from es (i # is) slot =
     rx_lru_from es is (if re_last_active (es ! i) < re_last_active (es ! slot) then i else slot)"

definition close_opt :: "('w, 'm) conn_env_scheme \<Rightarrow> conn option \<Rightarrow> 'w \<Rightarrow> 'w" where
  "close_opt env c w = (case c of Some h \<Rightarrow> csp_close env h w | None \<Rightarrow> w)"

definition rx_table_store ::
  "('w, 'm) conn_env_scheme \<Rightarrow> conn \<Rightarrow> u8 \<Rightarrow> u8 \<Rightarrow> c_instance \<Rightarrow> 'w \<Rightarrow> c_instance \<times> 'w" where
  "rx_table_store env h sa sp i w =
     (let es = ci_rx_conns i;
          (found, free) = rx_scan sa sp 0 es None;
          (slot, w') =
            (case found of
               Some k \<Rightarrow> (k, if re_conn (es ! k) \<noteq> Some h then close_opt env (re_conn (es ! k)) w else w)
             | None \<Rightarrow>
                 (case free of
                    Some k \<Rightarrow> (k, w)
                  | None \<Rightarrow>
                      let k = rx_lru_from es [1..<RX_TABLE_SIZE] 0
                      in (k, close_opt env (re_conn (es ! k)) w)))
      in (i\<lparr>ci_rx_conns := es[slot := \<lparr>re_used = True, re_conn = Some h, re_src_addr = sa, re_src_port = sp,
              re_last_active = ci_rx_tick i + 1\<rparr>],
            ci_rx_tick := ci_rx_tick i + 1\<rparr>, w'))"

definition live_count :: "rx_conn_entry list \<Rightarrow> nat" where
  "live_count es = length (filter re_used es)"

text \<open>
  The round over the table, for the given order of entries. The buffer, its capacity and the
  out-parameters for the source are passed on; \<open>csp_close\<close> ignores a null pointer.
\<close>

fun rx_poll ::
  "('w, 'm) recv_env_scheme \<Rightarrow> u32 \<Rightarrow> nat \<Rightarrow> nat list \<Rightarrow> u8 list \<Rightarrow> u8 \<Rightarrow> u8 \<Rightarrow> c_instance \<Rightarrow> 'w \<Rightarrow>
   cspcl_error_t \<times> u8 list \<times> nat \<times> u8 \<times> u8 \<times> c_instance \<times> 'w" where
  "rx_poll env read_timeout max_len [] buf sa sp i w = (CSPCL_ERR_TIMEOUT, buf, 0, sa, sp, i, w)"
| "rx_poll env read_timeout max_len (k # ks) buf sa sp i w =
     (let e = ci_rx_conns i ! k
      in if \<not> re_used e then rx_poll env read_timeout max_len ks buf sa sp i w
         else
           let (recv_err, buf', len', sa', sp', w') =
                 recv_from_conn_timeout env (re_conn e) buf max_len sa sp (re_src_addr e) (re_src_port e) read_timeout w
           in if recv_err = CSPCL_OK
              then (CSPCL_OK, buf', len', sa', sp',
                    i\<lparr>ci_rx_conns := (ci_rx_conns i)[k := e\<lparr>re_last_active := ci_rx_tick i + 1\<rparr>],
                      ci_rx_tick := ci_rx_tick i + 1\<rparr>, w')
              else if recv_err \<noteq> CSPCL_ERR_TIMEOUT
              then rx_poll env read_timeout max_len ks buf' sa' sp'
                     (i\<lparr>ci_rx_conns := (ci_rx_conns i)[k := e\<lparr>re_conn := None, re_used := False\<rparr>]\<rparr>)
                     (close_opt env (re_conn e) w')
              else rx_poll env read_timeout max_len ks buf' sa' sp' i w')"

definition accept_timeout :: "u32 \<Rightarrow> nat \<Rightarrow> u32" where
  "accept_timeout timeout_ms live =
     (if 0 < live then if timeout_ms div 2 < RX_ACCEPT_POLL_MS then timeout_ms div 2 else RX_ACCEPT_POLL_MS
      else timeout_ms)"

definition read_timeout :: "u32 \<Rightarrow> u32 \<Rightarrow> nat \<Rightarrow> u32" where
  "read_timeout timeout_ms accept_ms live =
     (let t = (timeout_ms - accept_ms) div of_nat live in if t < 50 then 50 else t)"

definition poll_order :: "u32 \<Rightarrow> nat list" where
  "poll_order rx_tick = map (\<lambda>n. (unat rx_tick mod RX_TABLE_SIZE + n) mod RX_TABLE_SIZE) [0..<RX_TABLE_SIZE]"

definition c_recv_bundle :: "('w, 'm) init_env_scheme \<Rightarrow> (c_instance \<times> c_globals \<times> 'w) c_recv" where
  "c_recv_bundle env buf len sa sp timeout = (\<lambda>(i, g, w).
     if \<not> ci_initialized i then (CSPCL_ERR_NOT_INITIALIZED, buf, len, sa, sp, i, g, w)
     else
       let timeout_ms = (if timeout = 0 then CSPCL_CSP_TIMEOUT_MS else timeout);
           accept_ms = accept_timeout timeout_ms (live_count (ci_rx_conns i));
           (accept_err, new_conn, new_src_addr, new_src_port, s, rg, w1) =
             c_accept_conn env None 0 0 accept_ms (rx_of i, g_rx g, w);
           i1 = i\<lparr>ci_rx_socket := rx_socket s\<rparr>;
           g1 = g\<lparr>g_rx := rg\<rparr>
       in if accept_err \<noteq> CSPCL_OK \<and> accept_err \<noteq> CSPCL_ERR_TIMEOUT
          then (accept_err, buf, 0, sa, sp, i1, g1, w1)
          else
            let (i2, w2) =
                  (if accept_err = CSPCL_OK then rx_table_store env (the new_conn) new_src_addr new_src_port i1 w1
                   else (i1, w1));
                live = live_count (ci_rx_conns i2)
            in if live = 0 then (CSPCL_ERR_TIMEOUT, buf, 0, sa, sp, i2, g1, w2)
               else
                 let (code, buf', len', sa', sp', i3, w3) =
                       rx_poll env (read_timeout timeout_ms accept_ms live) len (poll_order (ci_rx_tick i2)) buf sa sp i2 w2
                 in (code, buf', len', sa', sp', i3, g1, w3))"

section \<open>The table owns its connections\<close>

definition rx_slots :: "rx_conn_entry list \<Rightarrow> conn option list" where
  "rx_slots es = map (\<lambda>e. if re_used e then re_conn e else None) es"

definition rx_set :: "rx_conn_entry list \<Rightarrow> conn set" where
  "rx_set es = slot_set (rx_slots es)"

definition of_peer :: "u8 \<Rightarrow> u8 \<Rightarrow> rx_conn_entry \<Rightarrow> bool" where
  "of_peer sa sp e \<longleftrightarrow> re_used e \<and> re_src_addr e = sa \<and> re_src_port e = sp"

text \<open>An entry is used exactly if it has a connection; no connection and no peer has two entries.\<close>

definition rx_table_inv :: "rx_conn_entry list \<Rightarrow> bool" where
  "rx_table_inv es \<longleftrightarrow> length es = RX_TABLE_SIZE \<and> (\<forall>e \<in> set es. re_used e \<longleftrightarrow> re_conn e \<noteq> None) \<and>
     slots_distinct (rx_slots es) \<and>
     (\<forall>sa sp i j. i < length es \<longrightarrow> j < length es \<longrightarrow> of_peer sa sp (es ! i) \<longrightarrow> of_peer sa sp (es ! j) \<longrightarrow> i = j)"

definition rx_owns :: "('w \<Rightarrow> conn set) \<Rightarrow> rx_conn_entry list \<Rightarrow> 'w \<Rightarrow> bool" where
  "rx_owns ops es w \<longleftrightarrow> rx_table_inv es \<and> rx_set es \<subseteq> ops w"

text \<open>A change that keeps the ownership, and every other connection as it is.\<close>

definition rx_keeps :: "('w \<Rightarrow> conn set) \<Rightarrow> rx_conn_entry list \<Rightarrow> 'w \<Rightarrow> rx_conn_entry list \<Rightarrow> 'w \<Rightarrow> bool" where
  "rx_keeps ops es w es' w' \<longleftrightarrow> rx_owns ops es' w' \<and> ops w' - rx_set es' = ops w - rx_set es"

lemma rx_table_invD:
  assumes "rx_table_inv es"
  shows "length es = RX_TABLE_SIZE" "length (rx_slots es) = RX_TABLE_SIZE" "slots_distinct (rx_slots es)"
    "i < RX_TABLE_SIZE \<Longrightarrow> rx_slots es ! i = re_conn (es ! i)"
    "i < RX_TABLE_SIZE \<Longrightarrow> re_used (es ! i) \<longleftrightarrow> re_conn (es ! i) \<noteq> None"
  using assms by (auto simp: rx_table_inv_def rx_slots_def)

lemma rx_slots_update:
  "rx_slots (es[i := e]) = (rx_slots es)[i := if re_used e then re_conn e else None]"
  by (simp add: rx_slots_def map_update)

lemma peers_update:
  assumes "rx_table_inv es" and "i < RX_TABLE_SIZE"
    and "\<And>sa sp j. of_peer sa sp e \<Longrightarrow> j < RX_TABLE_SIZE \<Longrightarrow> j \<noteq> i \<Longrightarrow> \<not> of_peer sa sp (es ! j)"
    and "j < RX_TABLE_SIZE" and "k < RX_TABLE_SIZE" and "of_peer sa sp (es[i := e] ! j)" and "of_peer sa sp (es[i := e] ! k)"
  shows "j = k"
proof (rule ccontr)
  assume ne: "j \<noteq> k"
  have len: "length es = RX_TABLE_SIZE" using assms(1) by (simp add: rx_table_inv_def)
  have uniq: "\<not> (of_peer sa sp (es ! j) \<and> of_peer sa sp (es ! k))"
    using assms(1,4,5) ne unfolding rx_table_inv_def len by blast
  show False
    using assms(3) [of sa sp j] assms(3) [of sa sp k] assms(2,4-7) ne uniq len
    by (cases "j = i"; cases "k = i") simp_all
qed

lemma rx_table_inv_update:
  assumes "rx_table_inv es" and "i < RX_TABLE_SIZE" and "re_used e \<longleftrightarrow> re_conn e \<noteq> None"
    and "slots_distinct (rx_slots (es[i := e]))"
    and "\<And>sa sp j. of_peer sa sp e \<Longrightarrow> j < RX_TABLE_SIZE \<Longrightarrow> j \<noteq> i \<Longrightarrow> \<not> of_peer sa sp (es ! j)"
  shows "rx_table_inv (es[i := e])"
proof -
  have "\<forall>f \<in> set (es[i := e]). re_used f \<longleftrightarrow> re_conn f \<noteq> None"
    using assms(1,3) set_update_subset_insert [of es i e] by (auto simp: rx_table_inv_def)
  then show ?thesis
    using assms(1,4) peers_update [OF assms(1,2,5)] by (simp add: rx_table_inv_def)
qed

text \<open>The three changes of an entry: a connection takes it over, it is dropped, or it was active.\<close>

lemma rx_take:
  assumes inv: "rx_table_inv es" and i: "i < RX_TABLE_SIZE" and h: "h \<notin> rx_set es"
    and e: "re_used e" "re_conn e = Some h"
    and peer: "\<And>j. j < RX_TABLE_SIZE \<Longrightarrow> j \<noteq> i \<Longrightarrow> \<not> of_peer (re_src_addr e) (re_src_port e) (es ! j)"
  shows "rx_table_inv (es[i := e])" "rx_set (es[i := e]) = insert h (rx_set es - set_option (re_conn (es ! i)))"
proof -
  note d = rx_table_invD [OF inv]
  have il: "i < length (rx_slots es)" using i d(2) by simp
  have sl: "rx_slots (es[i := e]) = (rx_slots es)[i := Some h]" using e by (simp add: rx_slots_update)
  note s = slot_replace [OF d(3) il h [unfolded rx_set_def]]
  show "rx_set (es[i := e]) = insert h (rx_set es - set_option (re_conn (es ! i)))"
    using s(2) d(4) [OF i] by (simp add: rx_set_def sl)
  show "rx_table_inv (es[i := e])"
  proof (rule rx_table_inv_update [OF inv i])
    show "slots_distinct (rx_slots (es[i := e]))" using s(1) by (simp add: sl)
  qed (use e peer in \<open>auto simp: of_peer_def\<close>)
qed

lemma rx_drop:
  assumes inv: "rx_table_inv es" and i: "i < RX_TABLE_SIZE"
  shows "rx_table_inv (es[i := e\<lparr>re_conn := None, re_used := False\<rparr>])"
    "rx_set (es[i := e\<lparr>re_conn := None, re_used := False\<rparr>]) = rx_set es - set_option (re_conn (es ! i))"
proof -
  note d = rx_table_invD [OF inv]
  have il: "i < length (rx_slots es)" using i d(2) by simp
  have sl: "rx_slots (es[i := e\<lparr>re_conn := None, re_used := False\<rparr>]) = (rx_slots es)[i := None]"
    by (simp add: rx_slots_update)
  note s = slot_clear [OF d(3) il]
  show "rx_set (es[i := e\<lparr>re_conn := None, re_used := False\<rparr>]) = rx_set es - set_option (re_conn (es ! i))"
    using s(2) d(4) [OF i] by (simp add: rx_set_def sl)
  show "rx_table_inv (es[i := e\<lparr>re_conn := None, re_used := False\<rparr>])"
    by (rule rx_table_inv_update [OF inv i]) (use s(1) in \<open>simp_all add: sl of_peer_def\<close>)
qed

lemma rx_active:
  assumes inv: "rx_table_inv es" and i: "i < RX_TABLE_SIZE"
  shows "rx_table_inv (es[i := (es ! i)\<lparr>re_last_active := t\<rparr>])" "rx_set (es[i := (es ! i)\<lparr>re_last_active := t\<rparr>]) = rx_set es"
proof -
  note d = rx_table_invD [OF inv]
  have sl: "rx_slots (es[i := (es ! i)\<lparr>re_last_active := t\<rparr>]) = rx_slots es"
    using i d(1) by (simp add: rx_slots_def map_update list_update_same_conv)
  show "rx_set (es[i := (es ! i)\<lparr>re_last_active := t\<rparr>]) = rx_set es" by (simp add: rx_set_def sl)
  show "rx_table_inv (es[i := (es ! i)\<lparr>re_last_active := t\<rparr>])"
  proof (rule rx_table_inv_update [OF inv i])
    show "\<not> of_peer sa sp (es ! j)"
      if "of_peer sa sp ((es ! i)\<lparr>re_last_active := t\<rparr>)" "j < RX_TABLE_SIZE" "j \<noteq> i" for sa sp j
      using that inv i d(1) by (auto simp: rx_table_inv_def of_peer_def)
  qed (use d(5) [OF i] d(3) in \<open>simp_all add: sl\<close>)
qed

section \<open>Storing a connection\<close>

lemma rx_scan_drop:
  assumes "i \<le> length es" and "\<forall>k < i. \<not> of_peer sa sp (es ! k)"
    and "case free of Some j \<Rightarrow> j < length es \<and> \<not> re_used (es ! j) | None \<Rightarrow> \<forall>k < i. re_used (es ! k)"
    and "rx_scan sa sp i (drop i es) free = (found, fr)"
  shows "(case found of Some j \<Rightarrow> j < length es \<and> of_peer sa sp (es ! j) | None \<Rightarrow> \<forall>k < length es. \<not> of_peer sa sp (es ! k)) \<and>
    (case fr of Some j \<Rightarrow> j < length es \<and> \<not> re_used (es ! j)
     | None \<Rightarrow> found = None \<longrightarrow> (\<forall>k < length es. re_used (es ! k)))"
  using assms
proof (induction "length es - i" arbitrary: i free)
  case 0
  then show ?case by (auto split: option.splits)
next
  case (Suc n)
  then have i: "i < length es" by simp
  then have dr: "drop i es = es ! i # drop (Suc i) es" by (simp add: Cons_nth_drop_Suc)
  show ?case
  proof (cases "of_peer sa sp (es ! i)")
    case True
    with Suc.prems(3,4) i show ?thesis by (auto simp: dr of_peer_def split: option.splits)
  next
    case False
    let ?free = "if \<not> re_used (es ! i) \<and> free = None then Some i else free"
    have r: "rx_scan sa sp (Suc i) (drop (Suc i) es) ?free = (found, fr)"
      using Suc.prems(4) False by (simp only: dr rx_scan.simps of_peer_def if_False)
    have p: "\<forall>k < Suc i. \<not> of_peer sa sp (es ! k)" using False Suc.prems(2) by (simp add: less_Suc_eq)
    have f: "case ?free of Some j \<Rightarrow> j < length es \<and> \<not> re_used (es ! j) | None \<Rightarrow> \<forall>k < Suc i. re_used (es ! k)"
      using Suc.prems(3) i by (auto simp: less_Suc_eq split: option.splits)
    show ?thesis using Suc.hyps(1) [OF _ _ p f r] Suc.hyps(2) i by simp
  qed
qed

lemma rx_lru_from_least:
  assumes "slot < n" and "set is \<subseteq> {..<n}"
  shows "rx_lru_from es is slot < n"
    "k \<in> insert slot (set is) \<Longrightarrow> re_last_active (es ! rx_lru_from es is slot) \<le> re_last_active (es ! k)"
proof -
  have "rx_lru_from es is slot < n \<and>
    (\<forall>k \<in> insert slot (set is). re_last_active (es ! rx_lru_from es is slot) \<le> re_last_active (es ! k))"
    using assms
  proof (induction "is" arbitrary: slot)
    case (Cons i "is")
    define s where "s = (if re_last_active (es ! i) < re_last_active (es ! slot) then i else slot)"
    have "s < n" "set is \<subseteq> {..<n}" using Cons.prems by (auto simp: s_def)
    note IH = Cons.IH [OF this]
    have "re_last_active (es ! s) \<le> re_last_active (es ! i)" "re_last_active (es ! s) \<le> re_last_active (es ! slot)"
      by (auto simp: s_def)
    moreover have "rx_lru_from es (i # is) slot = rx_lru_from es is s" by (simp add: s_def)
    ultimately show ?case using IH by (auto intro: order_trans)
  qed simp
  then show "rx_lru_from es is slot < n"
    "k \<in> insert slot (set is) \<Longrightarrow> re_last_active (es ! rx_lru_from es is slot) \<le> re_last_active (es ! k)"
    by blast+
qed

lemma close_opt_opens:
  assumes "conn_env_ok env ops"
  shows "ops (close_opt env c w) = ops w - set_option c"
  using conn_envD(3) [OF assms] by (simp add: close_opt_def split: option.splits)

text \<open>
  The slot that \<open>cspcl_rx_table_store\<close> uses: the peer's, an unused one, or the least recently active
  one; the connection that was in it is closed.
\<close>

lemma rx_store_slot:
  assumes env: "conn_env_ok env ops" and inv: "rx_table_inv (ci_rx_conns i)" and h: "h \<notin> rx_set (ci_rx_conns i)"
    and r: "rx_table_store env h sa sp i w = (i', w')"
  obtains slot where "slot < RX_TABLE_SIZE"
    "ci_rx_conns i' = (ci_rx_conns i)[slot := \<lparr>re_used = True, re_conn = Some h, re_src_addr = sa, re_src_port = sp,
       re_last_active = ci_rx_tick i + 1\<rparr>]"
    "ci_rx_socket i' = ci_rx_socket i"
    "ops w' = ops w - set_option (re_conn (ci_rx_conns i ! slot))"
    "\<And>j. j < RX_TABLE_SIZE \<Longrightarrow> j \<noteq> slot \<Longrightarrow> \<not> of_peer sa sp (ci_rx_conns i ! j)"
proof -
  let ?es = "ci_rx_conns i"
  note d = rx_table_invD [OF inv]
  obtain found free where sc: "rx_scan sa sp 0 ?es None = (found, free)" by fastforce
  note scan = rx_scan_drop [of 0 ?es sa sp None found free, simplified, OF sc, unfolded d(1)]
  have set: "re_conn (?es ! k) \<noteq> Some h" if "k < RX_TABLE_SIZE" for k
  proof
    assume *: "re_conn (?es ! k) = Some h"
    then have "rx_slots ?es ! k = Some h" using d(4) [OF that] by simp
    then show False using h that d(2) slot_setI [of k "rx_slots ?es" h] by (simp add: rx_set_def)
  qed
  let ?lru = "rx_lru_from ?es [1..<RX_TABLE_SIZE] 0"
  have lru: "?lru < RX_TABLE_SIZE" by (rule rx_lru_from_least) (auto simp: RX_TABLE_SIZE_def)
  consider k where "found = Some k" | k where "found = None" "free = Some k" | "found = None" "free = None"
    by (cases found; cases free) auto
  then show thesis
  proof cases
    case (1 k)
    then have k: "k < RX_TABLE_SIZE" "of_peer sa sp (?es ! k)" using scan by simp_all
    have "\<not> of_peer sa sp (?es ! j)" if "j < RX_TABLE_SIZE" "j \<noteq> k" for j
      using inv k that d(1) unfolding rx_table_inv_def by metis
    then show thesis
      using that [of k] r 1 sc k set [OF k(1)] close_opt_opens [OF env]
      by (auto simp: rx_table_store_def Let_def)
  next
    case (2 k)
    then have k: "k < RX_TABLE_SIZE" "\<not> re_used (?es ! k)" and p: "\<forall>j < RX_TABLE_SIZE. \<not> of_peer sa sp (?es ! j)"
      using scan by simp_all
    have "re_conn (?es ! k) = None" using d(5) [OF k(1)] k(2) by simp
    then show thesis using that [of k] r 2 sc k p by (auto simp: rx_table_store_def Let_def)
  next
    case 3
    then have "\<forall>j < RX_TABLE_SIZE. \<not> of_peer sa sp (?es ! j)" using scan by simp
    then show thesis using that [of ?lru] r 3 sc lru close_opt_opens [OF env] by (auto simp: rx_table_store_def Let_def)
  qed
qed

lemma rx_store_keeps:
  assumes env: "conn_env_ok env ops" and o: "rx_owns ops (ci_rx_conns i) w0"
    and w: "h \<notin> ops w0" "ops w = insert h (ops w0)" and r: "rx_table_store env h sa sp i w = (i', w')"
  shows "rx_keeps ops (ci_rx_conns i) w0 (ci_rx_conns i') w'" "ci_rx_socket i' = ci_rx_socket i"
proof -
  have inv: "rx_table_inv (ci_rx_conns i)" and sub: "rx_set (ci_rx_conns i) \<subseteq> ops w0" using o by (simp_all add: rx_owns_def)
  have h: "h \<notin> rx_set (ci_rx_conns i)" using sub w(1) by blast
  obtain slot where s: "slot < RX_TABLE_SIZE"
    "ci_rx_conns i' = (ci_rx_conns i)[slot := \<lparr>re_used = True, re_conn = Some h, re_src_addr = sa, re_src_port = sp,
       re_last_active = ci_rx_tick i + 1\<rparr>]"
    "ci_rx_socket i' = ci_rx_socket i"
    "ops w' = ops w - set_option (re_conn (ci_rx_conns i ! slot))"
    "\<And>j. j < RX_TABLE_SIZE \<Longrightarrow> j \<noteq> slot \<Longrightarrow> \<not> of_peer sa sp (ci_rx_conns i ! j)"
    using rx_store_slot [OF env inv h r] by metis
  let ?e = "\<lparr>re_used = True, re_conn = Some h, re_src_addr = sa, re_src_port = sp, re_last_active = ci_rx_tick i + 1\<rparr>"
  note t = rx_take [OF inv s(1) h, of ?e, simplified, OF s(5), folded s(2)]
  have c: "set_option (re_conn (ci_rx_conns i ! slot)) \<subseteq> rx_set (ci_rx_conns i)"
    using rx_table_invD(2) [OF inv] rx_table_invD(4) [OF inv s(1)] s(1) by (auto simp: rx_set_def in_slot_set)
  then show "rx_keeps ops (ci_rx_conns i) w0 (ci_rx_conns i') w'"
    using t sub w s(4) unfolding rx_keeps_def rx_owns_def by auto
  show "ci_rx_socket i' = ci_rx_socket i" by (rule s(3))
qed

section \<open>What receiving relies on\<close>

text \<open>
  Sockets and connections are the same kind of object in libcsp. Creating a socket and accepting
  open a new one, \<open>csp_close\<close> closes it, and the other calls open and close nothing.
\<close>

definition rx_env_ok :: "('w, 'm) recv_env_scheme \<Rightarrow> ('w \<Rightarrow> conn set) \<Rightarrow> bool" where
  "rx_env_ok env ops \<longleftrightarrow> conn_env_ok env ops \<and>
     (\<forall>h t w. ops (snd (csp_sfp_recv env h t w)) = ops w) \<and>
     (\<forall>d w. ops (csp_free env d w) = ops w) \<and>
     (\<forall>n w. ops (snd (csp_buffer_get env n w)) = ops w) \<and>
     (\<forall>pk w. ops (csp_buffer_free env pk w) = ops w) \<and>
     (\<forall>h pk t w. ops (snd (csp_send env h pk t w)) = ops w) \<and>
     (\<forall>s p w. ops (snd (csp_bind env s p w)) = ops w) \<and>
     (\<forall>s n w. ops (snd (csp_listen env s n w)) = ops w) \<and>
     (\<forall>w c w'. csp_socket env w = (c, w') \<longrightarrow> ops w' = ops w \<union> set_option c \<and> ops w \<inter> set_option c = {}) \<and>
     (\<forall>s t w c w'. csp_accept env s t w = (c, w') \<longrightarrow> ops w' = ops w \<union> set_option c \<and> ops w \<inter> set_option c = {})"

lemma rx_envD:
  assumes "rx_env_ok env ops"
  shows "csp_sfp_recv env h t w = (r1, w') \<Longrightarrow> ops w' = ops w"
    "ops (csp_free env d w) = ops w" "csp_buffer_get env n w = (r2, w') \<Longrightarrow> ops w' = ops w"
    "ops (csp_buffer_free env d w) = ops w" "csp_send env h d t w = (r3, w') \<Longrightarrow> ops w' = ops w"
    "csp_bind env sock p w = (r4, w') \<Longrightarrow> ops w' = ops w" "csp_listen env sock n w = (r4, w') \<Longrightarrow> ops w' = ops w"
    "csp_socket env w = (c, w') \<Longrightarrow> ops w' = ops w \<union> set_option c \<and> ops w \<inter> set_option c = {}"
    "csp_accept env sock t w = (c, w') \<Longrightarrow> ops w' = ops w \<union> set_option c \<and> ops w \<inter> set_option c = {}"
    "conn_env_ok env ops"
  using assms unfolding rx_env_ok_def by (metis snd_conv)+

lemma send_ack_opens:
  assumes "rx_env_ok env ops" and "send_ack env h w = (r, w')"
  shows "ops w' = ops w"
proof -
  obtain b w1 where b: "csp_buffer_get env 1 w = (b, w1)" by fastforce
  obtain ok w2 where s: "csp_send env h [CSPCL_ACK_MAGIC] CSPCL_CSP_TIMEOUT_MS w1 = (ok, w2)" by fastforce
  note e = rx_envD [OF assms(1)]
  show ?thesis
    using assms(2) b s e(3) [OF b] e(5) [OF s] e(4) by (cases b) (auto simp: send_ack_def split: if_splits)
qed

lemma recv_from_conn_opens:
  assumes env: "rx_env_ok env ops"
    and r: "recv_from_conn_timeout env c buf len sa sp pa pp t w = (code, buf', len', sa', sp', w')"
  shows "ops w' = ops w" "code = CSPCL_OK \<Longrightarrow> sa' = pa \<and> sp' = pp \<and> 0 < len' \<and> len' \<le> len"
proof -
  note e = rx_envD [OF env]
  have "ops w' = ops w \<and> (code = CSPCL_OK \<longrightarrow> sa' = pa \<and> sp' = pp \<and> 0 < len' \<and> len' \<le> len)"
  proof (cases c)
    case None
    with r show ?thesis by (auto simp: recv_from_conn_timeout_def)
  next
    case (Some h)
    obtain ret d n w1 where f: "csp_sfp_recv env h t w = ((ret, d, n), w1)" by (metis surj_pair)
    obtain ret' w3 where s: "send_ack env h (csp_free env (the d) w1) = (ret', w3)" by fastforce
    show ?thesis
      using r Some f s e(1) [OF f] e(2) send_ack_opens [OF env s]
      by (auto simp: recv_from_conn_timeout_def Let_def split: if_splits option.splits)
  qed
  then show "ops w' = ops w" "code = CSPCL_OK \<Longrightarrow> sa' = pa \<and> sp' = pp \<and> 0 < len' \<and> len' \<le> len" by blast+
qed

lemma open_rx_socket_opens:
  assumes env: "rx_env_ok env ops" and r: "open_rx_socket env s g w = (code, s', g', w')"
  shows "ops w \<subseteq> ops w'" "ops w' \<subseteq> ops w \<union> set_option (rx_socket s')"
    "rx_socket s \<noteq> None \<Longrightarrow> ops w' = ops w" "code \<noteq> CSPCL_OK \<Longrightarrow> ops w' = ops w"
proof -
  obtain c w1 where c: "csp_socket env w = (c, w1)" by fastforce
  obtain br w2 where br: "csp_bind env (the c) (rx_csp_port s) w1 = (br, w2)" by fastforce
  obtain lr w3 where lr: "csp_listen env (the c) 5 w2 = (lr, w3)" by fastforce
  note e = rx_envD [OF env]
  have o: "ops w1 = ops w \<union> set_option c \<and> ops w \<inter> set_option c = {}" "ops w2 = ops w1" "ops w3 = ops w1"
    using e(8) [OF c] e(6) [OF br] e(7) [OF lr] by auto
  have cl: "ops (csp_close env h v) = ops v - {h}" for h v by (rule conn_envD(3) [OF e(10)])
  have "ops w \<subseteq> ops w' \<and> ops w' \<subseteq> ops w \<union> set_option (rx_socket s') \<and> (rx_socket s \<noteq> None \<longrightarrow> ops w' = ops w) \<and>
    (code \<noteq> CSPCL_OK \<longrightarrow> ops w' = ops w)"
  proof (cases "rx_initialized s \<and> rx_socket s = None \<and> \<not> (global_rx_socket g \<noteq> None \<and> global_rx_port g = rx_csp_port s)")
    case True
    with r c br lr o cl show ?thesis
      by (cases c; cases "br = csp_err_none env"; cases "lr = csp_err_none env") (auto simp: open_rx_socket_def)
  next
    case False
    with r show ?thesis by (auto simp: open_rx_socket_def split: if_splits)
  qed
  then show "ops w \<subseteq> ops w'" "ops w' \<subseteq> ops w \<union> set_option (rx_socket s')" "rx_socket s \<noteq> None \<Longrightarrow> ops w' = ops w"
    "code \<noteq> CSPCL_OK \<Longrightarrow> ops w' = ops w" by blast+
qed

text \<open>Accepting opens the socket if it has to, and a connection if it succeeds.\<close>

lemma c_accept_conn_opens:
  assumes env: "rx_env_ok env ops"
    and r: "c_accept_conn env None sa sp t (s, g, w) = (code, c, sa', sp', s', g', w')"
  obtains v where "ops w \<subseteq> ops v" "ops v \<subseteq> ops w \<union> set_option (rx_socket s')" "ops w' = ops v \<union> set_option c" "ops v \<inter> set_option c = {}"
    "code = CSPCL_OK \<longleftrightarrow> c \<noteq> None"
proof (cases "rx_initialized s")
  case False
  then show thesis using that [of w] r by (auto simp: c_accept_conn_def)
next
  case True
  obtain err s1 g1 w1 where o: "(if rx_socket s = None then open_rx_socket env s g w else (CSPCL_OK, s, g, w)) = (err, s1, g1, w1)"
    by (metis prod_cases4)
  obtain a w2 where a: "csp_accept env (the (rx_socket s1)) (if 0 < t then t else CSPCL_CSP_TIMEOUT_MS) w1 = (a, w2)"
    by fastforce
  have o1: "ops w \<subseteq> ops w1 \<and> ops w1 \<subseteq> ops w \<union> set_option (rx_socket s1)"
    using o open_rx_socket_opens [OF env, of s g w err s1 g1 w1] by (cases "rx_socket s = None") auto
  have a1: "ops w2 = ops w1 \<union> set_option a \<and> ops w1 \<inter> set_option a = {}" by (rule rx_envD(9) [OF env a])
  show thesis
  proof (cases "err = CSPCL_OK")
    case ok: True
    have res: "s' = s1 \<and> w' = w2 \<and> c = a \<and> (code = CSPCL_OK \<longleftrightarrow> a \<noteq> None)"
      using r True o a ok by (cases a) (auto simp: c_accept_conn_def)
    show thesis by (rule that [of w1]) (use res o1 a1 in auto)
  next
    case False
    have res: "s' = s1 \<and> w' = w1 \<and> c = None \<and> code \<noteq> CSPCL_OK" using r True o False by (simp add: c_accept_conn_def)
    show thesis by (rule that [of w1]) (use res o1 in auto)
  qed
qed

section \<open>The round over the table\<close>

lemma rx_keeps_refl: "rx_owns ops es w \<Longrightarrow> rx_keeps ops es w es w"
  by (simp add: rx_keeps_def)

lemma rx_keeps_trans: "rx_keeps ops es w es' w' \<Longrightarrow> rx_keeps ops es' w' es'' w'' \<Longrightarrow> rx_keeps ops es w es'' w''"
  by (simp add: rx_keeps_def)

text \<open>One entry of the round: its connection stays, becomes the most recently active one, or is dropped.\<close>

lemma rx_drop_keeps:
  assumes env: "rx_env_ok env ops" and o: "rx_owns ops es w" and k: "k < RX_TABLE_SIZE" and w: "ops w' = ops w"
  shows "rx_keeps ops es w (es[k := e\<lparr>re_conn := None, re_used := False\<rparr>]) (close_opt env (re_conn (es ! k)) w')"
proof -
  have inv: "rx_table_inv es" and sub: "rx_set es \<subseteq> ops w" using o by (simp_all add: rx_owns_def)
  have "set_option (re_conn (es ! k)) \<subseteq> rx_set es"
    using rx_table_invD(2) [OF inv] rx_table_invD(4) [OF inv k] k by (auto simp: rx_set_def in_slot_set)
  then show ?thesis
    using rx_drop [OF inv k, of e] sub w close_opt_opens [OF rx_envD(10) [OF env]]
    unfolding rx_keeps_def rx_owns_def by auto
qed

lemma rx_poll_keeps:
  assumes env: "rx_env_ok env ops"
  shows "rx_poll env t max_len ks buf sa sp i w = (code, buf', len', sa', sp', i', w') \<Longrightarrow>
    rx_owns ops (ci_rx_conns i) w \<Longrightarrow> set ks \<subseteq> {..<RX_TABLE_SIZE} \<Longrightarrow>
    rx_keeps ops (ci_rx_conns i) w (ci_rx_conns i') w' \<and> ci_rx_socket i' = ci_rx_socket i \<and>
    (code = CSPCL_OK \<longrightarrow> 0 < len' \<and> len' \<le> max_len \<and> (\<exists>e \<in> set (ci_rx_conns i'). of_peer sa' sp' e)) \<and>
    (code \<noteq> CSPCL_OK \<longrightarrow> code = CSPCL_ERR_TIMEOUT \<and> len' = 0)"
proof (induction ks arbitrary: buf sa sp i w)
  case Nil
  then show ?case by (auto intro: rx_keeps_refl)
next
  case (Cons k ks)
  let ?es = "ci_rx_conns i" and ?e = "ci_rx_conns i ! k"
  have k: "k < RX_TABLE_SIZE" and ks: "set ks \<subseteq> {..<RX_TABLE_SIZE}" using Cons.prems(3) by auto
  have inv: "rx_table_inv ?es" and sub: "rx_set ?es \<subseteq> ops w" using Cons.prems(2) by (simp_all add: rx_owns_def)
  obtain err b1 l1 s1 p1 w1 where rc: "recv_from_conn_timeout env (re_conn ?e) buf max_len sa sp (re_src_addr ?e)
      (re_src_port ?e) t w = (err, b1, l1, s1, p1, w1)" by (metis prod_cases6)
  note r = recv_from_conn_opens [OF env rc]
  have o1: "rx_owns ops ?es w1" using Cons.prems(2) r(1) by (simp add: rx_owns_def)
  consider "\<not> re_used ?e" | "re_used ?e" "err = CSPCL_OK" | "re_used ?e" "err = CSPCL_ERR_TIMEOUT"
    | "re_used ?e" "err \<noteq> CSPCL_OK" "err \<noteq> CSPCL_ERR_TIMEOUT" by blast
  then show ?case
  proof cases
    case 1
    with Cons.prems(1) have "rx_poll env t max_len ks buf sa sp i w = (code, buf', len', sa', sp', i', w')" by simp
    from Cons.IH [OF this Cons.prems(2) ks] show ?thesis .
  next
    case 2
    let ?es' = "?es[k := ?e\<lparr>re_last_active := ci_rx_tick i + 1\<rparr>]"
    have res: "code = CSPCL_OK" "len' = l1" "sa' = s1" "sp' = p1" "ci_rx_conns i' = ?es'" "ci_rx_socket i' = ci_rx_socket i" "w' = w1"
      using Cons.prems(1) 2 rc by (auto simp: Let_def)
    have "rx_keeps ops ?es w ?es' w1"
      using rx_active [OF inv k, of "ci_rx_tick i + 1"] o1 r(1) by (simp add: rx_keeps_def rx_owns_def)
    moreover have "?e\<lparr>re_last_active := ci_rx_tick i + 1\<rparr> \<in> set ?es'" using k rx_table_invD(1) [OF inv] by (simp add: set_update_memI)
    moreover have "of_peer sa' sp' (?e\<lparr>re_last_active := ci_rx_tick i + 1\<rparr>)"
      using r(2) [OF 2(2)] 2(1) res by (simp add: of_peer_def)
    ultimately show ?thesis using r(2) [OF 2(2)] res by auto
  next
    case 3
    with Cons.prems(1) rc have "rx_poll env t max_len ks b1 s1 p1 i w1 = (code, buf', len', sa', sp', i', w')" by simp
    from Cons.IH [OF this o1 ks] r(1) show ?thesis by (simp add: rx_keeps_def)
  next
    case 4
    let ?i = "i\<lparr>ci_rx_conns := ?es[k := ?e\<lparr>re_conn := None, re_used := False\<rparr>]\<rparr>"
    have step: "rx_poll env t max_len ks b1 s1 p1 ?i (close_opt env (re_conn ?e) w1) = (code, buf', len', sa', sp', i', w')"
      using Cons.prems(1) 4 rc by (simp add: Let_def)
    have d: "rx_keeps ops ?es w (ci_rx_conns ?i) (close_opt env (re_conn ?e) w1)"
      using rx_drop_keeps [OF env Cons.prems(2) k r(1)] by simp
    then have "rx_owns ops (ci_rx_conns ?i) (close_opt env (re_conn ?e) w1)" by (simp add: rx_keeps_def)
    from Cons.IH [OF step this ks] show ?thesis using rx_keeps_trans [OF d] by auto
  qed
qed

text \<open>A round visits every entry once, in the order of the table rotated.\<close>

lemma poll_order_rotate: "poll_order t = rotate (unat t mod RX_TABLE_SIZE) [0..<RX_TABLE_SIZE]"
  by (rule nth_equalityI) (auto simp: poll_order_def nth_rotate RX_TABLE_SIZE_def)

lemma poll_order_once: "distinct (poll_order t)" "set (poll_order t) = {..<RX_TABLE_SIZE}"
  by (auto simp: poll_order_rotate)

lemma rx_of_sel [simp]: "rx_socket (rx_of i) = ci_rx_socket i" "rx_initialized (rx_of i) = ci_initialized i"
  by (simp_all add: rx_of_def)

lemma recv_bundle_table:
  assumes "rx_env_ok env ops" and "rx_owns ops (ci_rx_conns i) w"
    and "c_recv_bundle env buf len sa sp timeout (i, g, w) = (code, buf', len', sa', sp', i', g', w')"
  shows "rx_owns ops (ci_rx_conns i') w' \<and>
    ops w - rx_set (ci_rx_conns i) \<subseteq> ops w' - rx_set (ci_rx_conns i') \<and>
    ops w' - rx_set (ci_rx_conns i') \<subseteq> (ops w - rx_set (ci_rx_conns i)) \<union> set_option (ci_rx_socket i') \<and>
    (code = CSPCL_OK \<longrightarrow> 0 < len' \<and> len' \<le> len \<and> (\<exists>e \<in> set (ci_rx_conns i'). of_peer sa' sp' e))"
proof (cases "ci_initialized i")
  case False
  with assms(2,3) show ?thesis by (auto simp: c_recv_bundle_def)
next
  case True
  let ?t = "if timeout = 0 then CSPCL_CSP_TIMEOUT_MS else timeout"
  let ?a = "accept_timeout ?t (live_count (ci_rx_conns i))"
  obtain err c na np s rg w1 where acc: "c_accept_conn env None 0 0 ?a (rx_of i, g_rx g, w) = (err, c, na, np, s, rg, w1)"
    by (metis prod_cases7)
  obtain v where v: "ops w \<subseteq> ops v" "ops v \<subseteq> ops w \<union> set_option (rx_socket s)" "ops w1 = ops v \<union> set_option c"
    "ops v \<inter> set_option c = {}" "err = CSPCL_OK \<longleftrightarrow> c \<noteq> None" by (rule c_accept_conn_opens [OF assms(1) acc])
  let ?i = "i\<lparr>ci_rx_socket := rx_socket s\<rparr>"
  obtain i2 w2 where st: "(if err = CSPCL_OK then rx_table_store env (the c) na np ?i w1 else (?i, w1)) = (i2, w2)" by fastforce
  obtain code3 b3 l3 a3 p3 i3 w3 where po: "rx_poll env (read_timeout ?t ?a (live_count (ci_rx_conns i2))) len
      (poll_order (ci_rx_tick i2)) buf sa sp i2 w2 = (code3, b3, l3, a3, p3, i3, w3)" by (metis prod_cases7)
  have o: "rx_owns ops (ci_rx_conns ?i) v" using assms(2) v(1) by (auto simp: rx_owns_def)
  have k2: "rx_keeps ops (ci_rx_conns ?i) v (ci_rx_conns i2) w2 \<and> ci_rx_socket i2 = rx_socket s"
  proof (cases c)
    case None
    with st v o show ?thesis by (auto simp: rx_keeps_def rx_owns_def)
  next
    case (Some h)
    with st v(5) have "rx_table_store env h na np ?i w1 = (i2, w2)" by simp
    from rx_store_keeps [OF rx_envD(10) [OF assms(1)] o _ _ this] v(3,4) Some show ?thesis by auto
  qed
  then have o2: "rx_owns ops (ci_rx_conns i2) w2" by (simp add: rx_keeps_def)
  note k3 = rx_poll_keeps [OF assms(1) po o2 eq_refl [OF poll_order_once(2)]]
  have "(i' = i2 \<and> w' = w2 \<and> code \<noteq> CSPCL_OK) \<or> (i' = i3 \<and> w' = w3 \<and> code = code3 \<and> len' = l3 \<and> sa' = a3 \<and> sp' = p3)"
    using assms(3) True acc st po by (auto simp: c_recv_bundle_def Let_def split: if_splits)
  then have "rx_keeps ops (ci_rx_conns i) v (ci_rx_conns i') w' \<and> ci_rx_socket i' = rx_socket s \<and>
      (code = CSPCL_OK \<longrightarrow> 0 < len' \<and> len' \<le> len \<and> (\<exists>e \<in> set (ci_rx_conns i'). of_peer sa' sp' e))"
    using k2 k3 by (auto simp: rx_keeps_def)
  then show ?thesis using v(1,2) by (auto simp: rx_keeps_def)
qed

text \<open>
  C16: receiving from any peer keeps the table of inbound connections: every connection in it is
  open, in one entry, and no two entries are of the same peer; connections that are not the
  table's are neither closed nor left open, except that the receive socket may have been opened.
  A bundle that is returned fits the buffer and comes from a peer of the table.
\<close>

theorem recv_bundle_keeps_table:
  assumes "rx_env_ok env ops" and "rx_owns ops (ci_rx_conns i) w"
    and "c_recv_bundle env buf len sa sp timeout (i, g, w) = (code, buf', len', sa', sp', i', g', w')"
  shows "rx_owns ops (ci_rx_conns i') w' \<and>
    ops w - rx_set (ci_rx_conns i) \<subseteq> ops w' - rx_set (ci_rx_conns i') \<and>
    ops w' - rx_set (ci_rx_conns i') \<subseteq> (ops w - rx_set (ci_rx_conns i)) \<union> set_option (ci_rx_socket i') \<and>
    (code = CSPCL_OK \<longrightarrow> 0 < len' \<and> len' \<le> len \<and> (\<exists>e \<in> set (ci_rx_conns i'). of_peer sa' sp' e))"
  by (rule recv_bundle_table [OF assms])

section \<open>How long receiving waits\<close>

text \<open>
  \<open>waited\<close> is the time spent in libcsp, in milliseconds, and \<open>got\<close> the number of fragments read by SFP.
  Accepting waits at most for its timeout. A read on an RDP connection waits for the RDP connection
  timeout \<open>rdp\<close> if that is longer than the one asked for, once for every fragment of a bundle and once more when
  none comes; a send waits for the longer one too. The other calls do not wait.
\<close>

definition wait_ok ::
  "('w, 'm) recv_env_scheme \<Rightarrow> nat \<Rightarrow> ('w \<Rightarrow> nat) \<Rightarrow> ('w \<Rightarrow> nat) \<Rightarrow> bool" where
  "wait_ok env rdp got waited \<longleftrightarrow>
     (\<forall>h t w r w'. csp_sfp_recv env h t w = (r, w') \<longrightarrow>
        (\<exists>d. got w' = got w + d \<and> waited w' \<le> waited w + (d + 1) * max (unat t) rdp)) \<and>
     (\<forall>s t w r w'. csp_accept env s t w = (r, w') \<longrightarrow> got w' = got w \<and> waited w' \<le> waited w + unat t) \<and>
     (\<forall>h pk t w r w'. csp_send env h pk t w = (r, w') \<longrightarrow> got w' = got w \<and> waited w' \<le> waited w + max (unat t) rdp) \<and>
     (\<forall>d w. got (csp_free env d w) = got w \<and> waited (csp_free env d w) = waited w) \<and>
     (\<forall>n w r w'. csp_buffer_get env n w = (r, w') \<longrightarrow> got w' = got w \<and> waited w' = waited w) \<and>
     (\<forall>pk w. got (csp_buffer_free env pk w) = got w \<and> waited (csp_buffer_free env pk w) = waited w) \<and>
     (\<forall>w r w'. csp_socket env w = (r, w') \<longrightarrow> got w' = got w \<and> waited w' = waited w) \<and>
     (\<forall>s p w r w'. csp_bind env s p w = (r, w') \<longrightarrow> got w' = got w \<and> waited w' = waited w) \<and>
     (\<forall>s n w r w'. csp_listen env s n w = (r, w') \<longrightarrow> got w' = got w \<and> waited w' = waited w) \<and>
     (\<forall>h w. got (csp_close env h w) = got w \<and> waited (csp_close env h w) = waited w)"

lemma waitD:
  assumes "wait_ok env rdp got waited"
  shows "csp_sfp_recv env h t w = (r1, w') \<Longrightarrow> \<exists>d. got w' = got w + d \<and> waited w' \<le> waited w + (d + 1) * max (unat t) rdp"
    "csp_accept env sock t w = (c, w') \<Longrightarrow> got w' = got w \<and> waited w' \<le> waited w + unat t"
    "csp_send env h d t w = (r3, w') \<Longrightarrow> got w' = got w \<and> waited w' \<le> waited w + max (unat t) rdp"
    "got (csp_free env d w) = got w \<and> waited (csp_free env d w) = waited w"
    "csp_buffer_get env n w = (r2, w') \<Longrightarrow> got w' = got w \<and> waited w' = waited w"
    "got (csp_buffer_free env d w) = got w \<and> waited (csp_buffer_free env d w) = waited w"
    "csp_socket env w = (c, w') \<Longrightarrow> got w' = got w \<and> waited w' = waited w"
    "csp_bind env sock p w = (r4, w') \<Longrightarrow> got w' = got w \<and> waited w' = waited w"
    "csp_listen env sock n w = (r4, w') \<Longrightarrow> got w' = got w \<and> waited w' = waited w"
    "got (csp_close env h w) = got w \<and> waited (csp_close env h w) = waited w"
  using assms unfolding wait_ok_def by metis+

lemma close_opt_waits:
  "wait_ok env rdp got waited \<Longrightarrow> got (close_opt env c w) = got w \<and> waited (close_opt env c w) = waited w"
  by (simp add: close_opt_def waitD(10) split: option.splits)

lemma send_ack_waits:
  assumes "wait_ok env rdp got waited" and "send_ack env h w = (r, w')"
  shows "got w' = got w \<and> waited w' \<le> waited w + max 1000 rdp"
proof -
  obtain b w1 where b: "csp_buffer_get env 1 w = (b, w1)" by fastforce
  obtain ok w2 where s: "csp_send env h [CSPCL_ACK_MAGIC] CSPCL_CSP_TIMEOUT_MS w1 = (ok, w2)" by fastforce
  note e = waitD [OF assms(1)]
  have "got w2 = got w \<and> waited w2 \<le> waited w + max 1000 rdp"
    using e(5) [OF b] e(3) [OF s] by (simp add: CSPCL_CSP_TIMEOUT_MS_def)
  with assms(2) b s e(5) [OF b] e(6) show ?thesis by (cases b) (auto simp: send_ack_def split: if_splits)
qed

lemma recv_from_conn_waits:
  assumes env: "wait_ok env rdp got waited"
    and r: "recv_from_conn_timeout env c buf len sa sp pa pp t w = (code, buf', len', sa', sp', w')"
  shows "\<exists>d. got w' = got w + d \<and>
    waited w' \<le> waited w + (d + 1) * max (unat t) rdp + (if code = CSPCL_OK then max 1000 rdp else 0)"
proof (cases c)
  case None
  with r show ?thesis by (intro exI [of _ 0]) (auto simp: recv_from_conn_timeout_def)
next
  case (Some h)
  obtain ret d n w1 where f: "csp_sfp_recv env h t w = ((ret, d, n), w1)" by (metis surj_pair)
  obtain ret' w3 where s: "send_ack env h (csp_free env (the d) w1) = (ret', w3)" by fastforce
  note e = waitD [OF env]
  obtain k where k: "got w1 = got w + k" "waited w1 \<le> waited w + (k + 1) * max (unat t) rdp" using e(1) [OF f] by blast
  have "w' = w1 \<or> (\<exists>b. w' = csp_free env b w1) \<or> w' = w3 \<and> code = CSPCL_OK"
    using r Some f s by (auto simp: recv_from_conn_timeout_def Let_def split: if_splits option.splits)
  then show ?thesis
    using k e(4) send_ack_waits [OF env s] by (intro exI [of _ k]) (auto intro: le_trans simp: trans_le_add1)
qed

lemma c_accept_conn_waits:
  assumes env: "wait_ok env rdp got waited"
    and r: "c_accept_conn env None sa sp t (s, g, w) = (code, c, sa', sp', s', g', w')"
  shows "got w' = got w \<and> waited w' \<le> waited w + unat (if 0 < t then t else CSPCL_CSP_TIMEOUT_MS)"
proof (cases "rx_initialized s")
  case False
  then show ?thesis using r by (auto simp: c_accept_conn_def)
next
  case True
  obtain c1 v1 where c: "csp_socket env w = (c1, v1)" by fastforce
  obtain br v2 where br: "csp_bind env (the c1) (rx_csp_port s) v1 = (br, v2)" by fastforce
  obtain lr v3 where lr: "csp_listen env (the c1) 5 v2 = (lr, v3)" by fastforce
  obtain err s1 g1 w1 where o: "(if rx_socket s = None then open_rx_socket env s g w else (CSPCL_OK, s, g, w)) = (err, s1, g1, w1)"
    by (metis prod_cases4)
  obtain a w2 where a: "csp_accept env (the (rx_socket s1)) (if 0 < t then t else CSPCL_CSP_TIMEOUT_MS) w1 = (a, w2)"
    by fastforce
  note e = waitD [OF env]
  have "got w1 = got w \<and> waited w1 = waited w"
    using o c br lr e(7) [OF c] e(8) [OF br] e(9) [OF lr] e(10)
    by (cases c1) (auto simp: open_rx_socket_def split: if_splits)
  moreover have "w' = w1 \<or> w' = w2"
    using r True o a by (cases a) (auto simp: c_accept_conn_def split: if_splits)
  ultimately show ?thesis using e(2) [OF a] by auto
qed

lemma rx_poll_waits:
  assumes env: "wait_ok env rdp got waited"
  shows "rx_poll env t max_len ks buf sa sp i w = (code, buf', len', sa', sp', i', w') \<Longrightarrow> distinct ks \<Longrightarrow>
    \<exists>d. got w' = got w + d \<and>
      waited w' \<le> waited w + (length (filter (\<lambda>k. re_used (ci_rx_conns i ! k)) ks) + d) * max (unat t) rdp + max 1000 rdp"
proof (induction ks arbitrary: buf sa sp i w)
  case (Cons k ks)
  let ?e = "ci_rx_conns i ! k"
  obtain err b1 l1 s1 p1 w1 where rc: "recv_from_conn_timeout env (re_conn ?e) buf max_len sa sp (re_src_addr ?e)
      (re_src_port ?e) t w = (err, b1, l1, s1, p1, w1)" by (metis prod_cases6)
  obtain d1 where r: "got w1 = got w + d1"
    "waited w1 \<le> waited w + (d1 + 1) * max (unat t) rdp + (if err = CSPCL_OK then max 1000 rdp else 0)"
    using recv_from_conn_waits [OF env rc] by blast
  let ?i = "i\<lparr>ci_rx_conns := (ci_rx_conns i)[k := ?e\<lparr>re_conn := None, re_used := False\<rparr>]\<rparr>"
  have same: "filter (\<lambda>j. re_used (ci_rx_conns ?i ! j)) ks = filter (\<lambda>j. re_used (ci_rx_conns i ! j)) ks"
  proof (rule filter_cong [OF refl])
    fix j
    assume "j \<in> set ks"
    with Cons.prems(2) have "k \<noteq> j" by auto
    then show "re_used (ci_rx_conns ?i ! j) = re_used (ci_rx_conns i ! j)" by simp
  qed
  have d: "distinct ks" using Cons.prems(2) by simp
  show ?case
  proof (cases "re_used ?e")
    case False
    with Cons.prems(1) Cons.IH [OF _ d] show ?thesis by simp
  next
    case True
    let ?n = "length (filter (\<lambda>j. re_used (ci_rx_conns i ! j)) ks)" and ?m = "max (unat t) rdp"
    have rest: ?thesis if "err \<noteq> CSPCL_OK" "got v = got w1" "waited v = waited w1"
      "got w' = got v + d2" "waited w' \<le> waited v + (?n + d2) * ?m + max 1000 rdp" for v d2
    proof (intro exI [of _ "d1 + d2"] conjI)
      show "got w' = got w + (d1 + d2)" using that r(1) by simp
      have "waited w' \<le> waited w + (d1 + 1) * ?m + (?n + d2) * ?m + max 1000 rdp" using that r(2) by simp
      also have "\<dots> = waited w + (Suc ?n + (d1 + d2)) * ?m + max 1000 rdp" by (simp add: algebra_simps)
      finally show "waited w' \<le> waited w + (length (filter (\<lambda>j. re_used (ci_rx_conns i ! j)) (k # ks)) + (d1 + d2)) * ?m + max 1000 rdp"
        using True by simp
    qed
    consider "err = CSPCL_OK" "w' = w1"
      | "err \<noteq> CSPCL_OK" "rx_poll env t max_len ks b1 s1 p1 i w1 = (code, buf', len', sa', sp', i', w')"
      | "err \<noteq> CSPCL_OK"
        "rx_poll env t max_len ks b1 s1 p1 ?i (close_opt env (re_conn ?e) w1) = (code, buf', len', sa', sp', i', w')"
      using Cons.prems(1) True rc by (auto simp: Let_def split: if_splits)
    then show ?thesis
    proof cases
      case 1
      have "d1 * ?m \<le> (?n + d1) * ?m" by (rule mult_le_mono1) simp
      with r 1 True show ?thesis by (intro exI [of _ d1]) (simp add: add_mult_distrib)
    next
      case 2
      from Cons.IH [OF 2(2) d] rest [OF 2(1) refl refl] show ?thesis by blast
    next
      case 3
      from Cons.IH [OF 3(2) d] rest [OF 3(1)] close_opt_waits [OF env, of "re_conn ?e" w1] same show ?thesis by metis
    qed
  qed
qed simp

text \<open>The live entries are those a round visits, and the read timeout shares the time among them.\<close>

lemma live_count_order:
  assumes "length es = RX_TABLE_SIZE"
  shows "length (filter (\<lambda>k. re_used (es ! k)) (poll_order t)) = live_count es" "live_count es \<le> 8"
proof -
  have "length (filter (\<lambda>k. re_used (es ! k)) (poll_order t)) = card {k \<in> {..<RX_TABLE_SIZE}. re_used (es ! k)}"
    using poll_order_once [of t] by (simp add: distinct_length_filter Int_def conj_commute)
  also have "\<dots> = live_count es" by (simp add: live_count_def length_filter_conv_card assms)
  finally show "length (filter (\<lambda>k. re_used (es ! k)) (poll_order t)) = live_count es" .
  show "live_count es \<le> 8" using length_filter_le [of re_used es] assms by (simp add: live_count_def RX_TABLE_SIZE_def)
qed

lemma accept_timeout_le: "accept_timeout t live \<le> t"
proof -
  have "t div 2 \<le> t" by (simp add: word_le_nat_alt unat_div)
  then show ?thesis by (auto simp: accept_timeout_def not_less)
qed

lemma accept_timeout_zero: "accept_timeout t live = 0 \<Longrightarrow> t \<noteq> 0 \<Longrightarrow> t = 1 \<and> 0 < live"
proof -
  assume z: "accept_timeout t live = 0" and t: "t \<noteq> 0"
  then have "t div 2 = 0" "0 < live" by (auto simp: accept_timeout_def RX_ACCEPT_POLL_MS_def split: if_splits)
  then have "unat t div 2 = 0" using unat_div [of t 2] by simp
  moreover have "unat t \<noteq> 0" using t by (simp add: unsigned_eq_0_iff)
  ultimately have "unat t = unat (1 :: u32)" by simp
  with \<open>0 < live\<close> show ?thesis by (simp add: word_unat_eq_iff)
qed

lemma read_timeout_total:
  assumes "0 < live" and "live \<le> 8" and "a \<le> t"
  shows "live * unat (read_timeout t a live) \<le> max 400 (unat t - unat a)"
proof -
  have u: "unat (of_nat live :: u32) = live" using assms(2) by (simp add: unat_of_nat)
  have d: "unat ((t - a) div of_nat live) = (unat t - unat a) div live" using assms(3) by (simp add: unat_div u unat_sub)
  have "live * ((unat t - unat a) div live) \<le> unat t - unat a" by (rule times_div_less_eq_dividend)
  then have "live * unat ((t - a) div of_nat live) \<le> max 400 (unat t - unat a)" unfolding d by (rule max.coboundedI2)
  moreover have "live * 50 \<le> max 400 (unat t - unat a)" using assms(2) by (intro max.coboundedI1) simp
  ultimately show ?thesis by (simp add: read_timeout_def Let_def)
qed

lemma read_timeout_le:
  assumes "0 < live" and "live \<le> 8" and "a \<le> t"
  shows "unat (read_timeout t a live) \<le> max 50 (unat t)"
proof -
  have u: "unat (of_nat live :: u32) = live" using assms(2) by (simp add: unat_of_nat)
  have "unat ((t - a) div of_nat live) = (unat t - unat a) div live" using assms(3) by (simp add: unat_div u unat_sub)
  also have "\<dots> \<le> unat t" by (rule le_trans [OF div_le_dividend]) simp
  finally show ?thesis by (auto simp: read_timeout_def Let_def max_def)
qed

text \<open>
  C33: how long a call of \<open>cspcl_recv_bundle\<close> with a timeout of \<open>T\<close> ms (1000 for 0) waits. It asks libcsp to wait for
  \<open>a\<close> ms to accept and \<open>rt\<close> ms to read on each of \<open>n\<close> connections, at most 8, in total at most \<open>T\<close> and 400 ms for short
  reads. With \<open>T\<close> = 1 and live connections it asks to accept without waiting, which means a further second. Since libcsp
  raises the timeout of a read or a send to that of the RDP connection, and takes it again for each fragment, the call waits at most
  \<open>a\<close>, and the longer of \<open>rt\<close> and the RDP timeout for each connection and each fragment read, and one send.
\<close>

theorem recv_bundle_waits:
  assumes "wait_ok env rdp got waited" and "length (ci_rx_conns i) = RX_TABLE_SIZE"
    and "c_recv_bundle env buf len sa sp timeout (i, g, w) = (code, buf', len', sa', sp', i', g', w')"
    and "T = (if timeout = 0 then 1000 else unat timeout)"
  shows "\<exists>a n rt d. n \<le> 8 \<and> rt \<le> max 50 T \<and>
    a + n * rt \<le> T + 400 + (if timeout = 1 \<and> 0 < live_count (ci_rx_conns i) then 1000 else 0) \<and>
    got w' = got w + d \<and> waited w' \<le> waited w + a + (n + d) * max rt rdp + max 1000 rdp"
proof (cases "ci_initialized i")
  case False
  with assms(3) show ?thesis by (intro exI [of _ 0]) (auto simp: c_recv_bundle_def)
next
  case True
  define t where "t = (if timeout = 0 then CSPCL_CSP_TIMEOUT_MS else timeout)"
  define a where "a = accept_timeout t (live_count (ci_rx_conns i))"
  obtain err c na np s rg w1 where acc: "c_accept_conn env None 0 0 a (rx_of i, g_rx g, w) = (err, c, na, np, s, rg, w1)"
    by (metis prod_cases7)
  let ?i = "i\<lparr>ci_rx_socket := rx_socket s\<rparr>" and ?a = "if a = 0 then 1000 else unat a"
  obtain i2 w2 where st: "(if err = CSPCL_OK then rx_table_store env (the c) na np ?i w1 else (?i, w1)) = (i2, w2)" by fastforce
  define n where "n = live_count (ci_rx_conns i2)"
  obtain code3 b3 l3 a3 p3 i3 w3 where po: "rx_poll env (read_timeout t a n) len
      (poll_order (ci_rx_tick i2)) buf sa sp i2 w2 = (code3, b3, l3, a3, p3, i3, w3)" by (metis prod_cases7)
  have w1: "got w1 = got w" "waited w1 \<le> waited w + ?a"
    using c_accept_conn_waits [OF assms(1) acc] by (simp_all add: CSPCL_CSP_TIMEOUT_MS_def word_gt_0 split: if_splits)
  have w2: "got w2 = got w1" "waited w2 = waited w1" "length (ci_rx_conns i2) = RX_TABLE_SIZE"
    using st assms(2) close_opt_waits [OF assms(1)]
    by (auto simp: rx_table_store_def Let_def split: if_splits option.splits prod.splits)
  note lc = live_count_order [OF w2(3), folded n_def]
  obtain d where w3: "got w3 = got w2 + d" "waited w3 \<le> waited w2 + (n + d) * max (unat (read_timeout t a n)) rdp + max 1000 rdp"
    using rx_poll_waits [OF assms(1) po poll_order_once(1)] lc(1) by auto
  have t: "unat t = T" by (simp add: t_def assms(4) CSPCL_CSP_TIMEOUT_MS_def)
  have at: "a \<le> t" "unat a \<le> T" using accept_timeout_le [of t] t by (simp_all add: a_def word_le_nat_alt)
  let ?x = "if timeout = 1 \<and> 0 < live_count (ci_rx_conns i) then 1000 else 0 :: nat"
  have ax: "?a \<le> unat a + ?x"
    using accept_timeout_zero [of t "live_count (ci_rx_conns i)"]
    by (auto simp: a_def t_def CSPCL_CSP_TIMEOUT_MS_def split: if_splits)
  have "w' = w1 \<or> w' = w2 \<or> w' = w3 \<and> 0 < n"
    using assms(3) True acc st po by (auto simp: c_recv_bundle_def Let_def t_def [symmetric] a_def [symmetric] n_def [symmetric] split: if_splits)
  then consider "got w' = got w" "waited w' \<le> waited w + ?a" | "w' = w3" "0 < n" using w1 w2 by auto
  then show ?thesis
  proof cases
    case 1
    with ax at(2) show ?thesis by (intro exI [of _ ?a] exI [of _ 0] conjI) (simp_all add: trans_le_add1)
  next
    case 2
    let ?rt = "unat (read_timeout t a n)"
    have "n * ?rt \<le> max 400 (T - unat a)" using read_timeout_total [OF 2(2) lc(2) at(1)] t by simp
    then have "?a + n * ?rt \<le> T + 400 + ?x" using ax at(2) by simp
    moreover have "?rt \<le> max 50 T" using read_timeout_le [OF 2(2) lc(2) at(1)] t by simp
    moreover have "got w' = got w + d" "waited w' \<le> waited w + ?a + (n + d) * max ?rt rdp + max 1000 rdp"
      using w1 w2 w3 2(1) by simp_all
    ultimately show ?thesis using lc(2) by blast
  qed
qed

section \<open>Witnesses\<close>

text \<open>
  A world for receiving: the open connections, the peers that connect, the bundles that arrive and
  the time waited. Every call that has nothing to wait for takes its whole timeout.
\<close>

record rx_world =
  rw_open :: nat
  rw_closed :: "nat list"
  rw_bundles :: "u8 list list"
  rw_peers :: nat
  rw_waited :: nat

definition rw_conns :: "rx_world \<Rightarrow> nat set" where
  "rw_conns w = {..<rw_open w} - set (rw_closed w)"

definition rx_sample_env :: "rx_world init_env" where
  "rx_sample_env = recv_env.extend
     \<lparr>csp_connect = (\<lambda>_ _ w. (None, w)), csp_close = (\<lambda>h w. w\<lparr>rw_closed := h # rw_closed w\<rparr>), time_now = (\<lambda>w. (0, w)),
     mutex_init = (\<lambda>w. (True, w)), mutex_lock = (\<lambda>w. (True, w)), mutex_unlock = (\<lambda>w. (True, w)), mutex_destroy = (\<lambda>w. w),
     csp_sfp_send = (\<lambda>_ _ _ _ _ w. (-1, w)), csp_read = (\<lambda>_ _ w. (None, w)), csp_buffer_free = (\<lambda>_ w. w),
     csp_err_none = 0, csp_err_timedout = -3,
     csp_sfp_recv = (\<lambda>_ t w. case rw_bundles w of
         [] \<Rightarrow> ((-3, None, 0), w\<lparr>rw_waited := rw_waited w + unat t\<rparr>)
       | d # ds \<Rightarrow> ((0, Some d, int (length d)), w\<lparr>rw_bundles := ds\<rparr>)),
     csp_free = (\<lambda>_ w. w), csp_buffer_get = (\<lambda>_ w. (Some [], w)), csp_send = (\<lambda>_ _ _ w. (True, w)),
     csp_socket = (\<lambda>w. (None, w)), csp_bind = (\<lambda>_ _ w. (0, w)), csp_listen = (\<lambda>_ _ w. (0, w)),
     csp_accept = (\<lambda>_ t w. if rw_peers w = 0 then (None, w\<lparr>rw_waited := rw_waited w + unat t\<rparr>)
       else if rw_open w \<in> set (rw_closed w) then (None, w)
       else (Some (rw_open w), w\<lparr>rw_open := rw_open w + 1, rw_peers := rw_peers w - 1\<rparr>)),
     csp_conn_src = (\<lambda>_ _. 5), csp_conn_sport = (\<lambda>_ _. 60), csp_err_nomem = -1\<rparr>
     (init_env.fields (\<lambda>_ w. (0, w)) (\<lambda>_ _ f w. (0, f, w)) (\<lambda>_ f w. (0, f, w)) False (\<lambda>_ w. w) (\<lambda>w. (0, w)) (\<lambda>_. None))"

lemmas rx_sample_defs = rx_sample_env_def recv_env.defs init_env.defs rw_conns_def

lemma rx_sample_ok: "rx_env_ok rx_sample_env rw_conns" "wait_ok rx_sample_env 10000 (\<lambda>_. 0) rw_waited"
proof -
  have "conn_env_ok rx_sample_env rw_conns" unfolding conn_env_ok_def by (auto simp: rx_sample_defs)
  then show "rx_env_ok rx_sample_env rw_conns"
    unfolding rx_env_ok_def by (auto simp: rx_sample_defs split: list.splits if_splits)
  show "wait_ok rx_sample_env 10000 (\<lambda>_. 0) rw_waited"
    unfolding wait_ok_def by (auto simp: rx_sample_defs split: list.splits)
qed

definition rx_sample_instance :: c_instance where
  "rx_sample_instance = (loop_instance 10)\<lparr>ci_initialized := True, ci_rx_socket := Some 0\<rparr>"

definition rx_sample_globals :: c_globals where
  "rx_sample_globals = \<lparr>g_stack_initialized = True, g_router_started = True, g_addr = 5, g_iface_type = CSP_IFACE_LOOPBACK,
     g_iface = None, g_rx = \<lparr>global_rx_socket = Some 0, global_rx_port = 10\<rparr>\<rparr>"

definition rx_sample_world :: rx_world where
  "rx_sample_world = \<lparr>rw_open = 1, rw_closed = [], rw_bundles = [[7, 8]], rw_peers = 1, rw_waited = 0\<rparr>"

lemma rx_zero_inv: "rx_table_inv rx_zero" "rx_set rx_zero = {}"
proof -
  have "rx_slots rx_zero = replicate 8 None" by (simp add: rx_slots_def rx_zero_def)
  then show "rx_table_inv rx_zero" "rx_set rx_zero = {}"
    by (auto simp: rx_table_inv_def rx_set_def slot_set_def slots_distinct_def rx_zero_def RX_TABLE_SIZE_def of_peer_def)
qed

lemma rx_zero_list: "rx_zero = [z, z, z, z, z, z, z, z]"
  if "z = \<lparr>re_used = False, re_conn = None, re_src_addr = 0, re_src_port = 0, re_last_active = 0\<rparr>"
  by (simp add: rx_zero_def that numeral_eq_Suc)

lemma poll_order_1: "poll_order 1 = [1, 2, 3, 4, 5, 6, 7, 0]"
  by (simp add: poll_order_def RX_TABLE_SIZE_def upt_rec)

lemma rx_sample_run:
  obtains i' g' w' where
    "c_recv_bundle rx_sample_env [0, 0, 0] 3 0 0 200 (rx_sample_instance, rx_sample_globals, rx_sample_world) =
       (CSPCL_OK, [7, 8, 0], 2, 5, 60, i', g', w')"
proof -
  let ?z = "\<lparr>re_used = False, re_conn = None, re_src_addr = 0, re_src_port = 0, re_last_active = 0\<rparr>"
  let ?e = "\<lparr>re_used = True, re_conn = Some 1, re_src_addr = 5, re_src_port = 60, re_last_active = 1\<rparr>"
  let ?w = "rx_sample_world\<lparr>rw_open := 2, rw_peers := 0\<rparr>" and ?i = "rx_sample_instance"
  let ?i2 = "?i\<lparr>ci_rx_conns := [?e, ?z, ?z, ?z, ?z, ?z, ?z, ?z], ci_rx_tick := 1\<rparr>"
  have i: "ci_rx_conns ?i = [?z, ?z, ?z, ?z, ?z, ?z, ?z, ?z]" "ci_rx_tick ?i = 0" "ci_rx_socket ?i = Some 0" "ci_initialized ?i"
    by (simp_all add: rx_sample_instance_def loop_instance_def rx_zero_list [OF refl])
  have acc: "c_accept_conn rx_sample_env None 0 0 200 (rx_of ?i, g_rx rx_sample_globals, rx_sample_world) =
      (CSPCL_OK, Some 1, 5, 60, rx_of ?i, g_rx rx_sample_globals, ?w)"
    by (simp add: c_accept_conn_def i rx_sample_defs rx_sample_world_def)
  have st: "rx_table_store rx_sample_env 1 5 60 ?i ?w = (?i2, ?w)"
    by (simp add: rx_table_store_def i)
  have po: "\<exists>i' w'. rx_poll rx_sample_env 50 3 (poll_order 1) [0, 0, 0] 0 0 ?i2 ?w = (CSPCL_OK, [7, 8, 0], 2, 5, 60, i', w')"
    by (simp add: poll_order_1 recv_from_conn_timeout_def send_ack_def rx_sample_defs rx_sample_world_def Let_def)
  have "accept_timeout 200 (live_count (ci_rx_conns ?i)) = 200" "live_count (ci_rx_conns ?i2) = 1" "read_timeout 200 200 1 = 50"
    by (simp_all add: accept_timeout_def live_count_def i read_timeout_def)
  moreover have "?i\<lparr>ci_rx_socket := rx_socket (rx_of ?i)\<rparr> = ?i" by (simp add: i)
  ultimately show thesis using that po acc st i(4) by (auto simp: c_recv_bundle_def Let_def)
qed

theorem recv_bundle_keeps_table_witness:
  "\<exists>i' g' w'. c_recv_bundle rx_sample_env [0, 0, 0] 3 0 0 200 (rx_sample_instance, rx_sample_globals, rx_sample_world) =
     (CSPCL_OK, [7, 8, 0], 2, 5, 60, i', g', w') \<and> rx_owns rw_conns (ci_rx_conns i') w' \<and>
     (\<exists>e \<in> set (ci_rx_conns i'). of_peer 5 60 e)"
proof -
  have o: "rx_owns rw_conns (ci_rx_conns rx_sample_instance) rx_sample_world"
    using rx_zero_inv by (simp add: rx_owns_def rx_sample_instance_def loop_instance_def)
  obtain i' g' w' where r: "c_recv_bundle rx_sample_env [0, 0, 0] 3 0 0 200
      (rx_sample_instance, rx_sample_globals, rx_sample_world) = (CSPCL_OK, [7, 8, 0], 2, 5, 60, i', g', w')"
    by (rule rx_sample_run)
  from recv_bundle_keeps_table [OF rx_sample_ok(1) o r] r show ?thesis by blast
qed

theorem recv_bundle_waits_witness:
  "\<exists>i' g' w'. c_recv_bundle rx_sample_env [0, 0, 0] 3 0 0 200 (rx_sample_instance, rx_sample_globals, rx_sample_world) =
     (CSPCL_OK, [7, 8, 0], 2, 5, 60, i', g', w') \<and>
     (\<exists>a n rt. n \<le> 8 \<and> a + n * rt \<le> 600 \<and> rw_waited w' \<le> a + n * max rt 10000 + 10000)"
proof -
  have l: "length (ci_rx_conns rx_sample_instance) = RX_TABLE_SIZE"
    by (simp add: rx_sample_instance_def loop_instance_def rx_zero_def RX_TABLE_SIZE_def)
  obtain i' g' w' where r: "c_recv_bundle rx_sample_env [0, 0, 0] 3 0 0 200
      (rx_sample_instance, rx_sample_globals, rx_sample_world) = (CSPCL_OK, [7, 8, 0], 2, 5, 60, i', g', w')"
    by (rule rx_sample_run)
  from recv_bundle_waits [OF rx_sample_ok(2) l r refl] obtain a n rt where
    "n \<le> 8" "a + n * rt \<le> 600" "rw_waited w' \<le> rw_waited rx_sample_world + a + n * max rt 10000 + 10000" by auto
  with r show ?thesis by (intro exI conjI) (assumption, simp_all add: rx_sample_world_def)
qed

end
