(* ===== verification/CLife.thy ===== *)
theory CLife
  imports CRxTable
begin

text \<open>
  The life of an instance of the C core (\<open>src/cspcl.c\<close>): starting, sending, receiving and stopping in
  any order. It composes the connection pool, sends, the table of inbound connections and
  initialization, and follows every connection that an instance opens.
\<close>

section \<open>The environment\<close>

text \<open>
  Beyond what receiving relies on: the calls of a send and of the start of the stack open and close
  nothing, and locking an initialized mutex succeeds.
\<close>

definition life_env_ok :: "('w, 'm) init_env_scheme \<Rightarrow> ('w \<Rightarrow> conn set) \<Rightarrow> bool" where
  "life_env_ok env ops \<longleftrightarrow> rx_env_ok env ops \<and> (\<forall>w. fst (mutex_lock env w)) \<and>
     (\<forall>h b n m t w. ops (snd (csp_sfp_send env h b n m t w)) = ops w) \<and>
     (\<forall>h t w. ops (snd (csp_read env h t w)) = ops w) \<and>
     (\<forall>a w. ops (snd (csp_init env a w)) = ops w) \<and>
     (\<forall>a n f w. ops (snd (snd (csp_zmqhub_init env a n f w))) = ops w) \<and>
     (\<forall>n f w. ops (snd (snd (csp_can_open env n f w))) = ops w) \<and>
     (\<forall>f w. ops (csp_rtable_set env f w) = ops w) \<and>
     (\<forall>w. ops (snd (csp_route_start_task env w)) = ops w)"

lemma life_envD:
  assumes "life_env_ok env ops"
  shows "rx_env_ok env ops" "conn_env_ok env ops" "fst (mutex_lock env w)"
    "csp_sfp_send env h b n m t w = (r1, w') \<Longrightarrow> ops w' = ops w" "csp_read env h t w = (r2, w') \<Longrightarrow> ops w' = ops w"
    "ops (csp_buffer_free env d w) = ops w" "csp_init env a w = (r1, w') \<Longrightarrow> ops w' = ops w"
    "csp_zmqhub_init env a c f w = (r1, f', w') \<Longrightarrow> ops w' = ops w" "csp_can_open env c f w = (r1, f', w') \<Longrightarrow> ops w' = ops w"
    "ops (csp_rtable_set env k w) = ops w" "csp_route_start_task env w = (r1, w') \<Longrightarrow> ops w' = ops w"
  using assms rx_envD(4,10) [of env ops] unfolding life_env_ok_def by (metis snd_conv)+

section \<open>Sends\<close>

lemma send_and_confirm_opens:
  assumes "life_env_ok env ops" and "send_and_confirm env h b len w = (r, w')"
  shows "ops w' = ops w"
  using assms(2) life_envD(4-6) [OF assms(1)]
  by (auto simp: send_and_confirm_def wait_ack_def split: prod.splits option.splits if_splits)

lemma send_attempts_keeps:
  assumes env: "life_env_ok env ops"
  shows "send_attempts env b len da dp attempt ret p w = (failed, ret', p', w') \<Longrightarrow> pool_owns ops p w \<Longrightarrow>
    keeps ops p w p' w'"
proof (induction "2 - attempt" arbitrary: attempt ret p w)
  case 0
  then show ?case by (simp add: send_attempts.simps [of env b len da dp attempt] keeps_def)
next
  case (Suc n)
  note e = life_envD(2) [OF env]
  obtain c p1 w1 where g: "pool_get_or_create env da dp p w = (c, p1, w1)" by (metis prod_cases3)
  note k1 = pool_get_or_create_keeps [OF e Suc.prems(2) g]
  have att: "attempt < 2" using Suc.hyps(2) by simp
  show ?case
  proof (cases c)
    case None
    with Suc.prems(1) att g k1(1) show ?thesis by (simp add: send_attempts.simps [of env b len da dp attempt])
  next
    case (Some h)
    obtain r w2 where s: "send_and_confirm env h b len w1 = (r, w2)" by fastforce
    have o2: "ops w2 = ops w1" by (rule send_and_confirm_opens [OF env s])
    have k2: "keeps ops p w p1 w2" using k1(1) o2 by (simp add: keeps_def pool_owns_def foreign_def)
    show ?thesis
    proof (cases "r = csp_err_none env")
      case True
      with Suc.prems(1) att g Some s k2 show ?thesis by (simp add: send_attempts.simps [of env b len da dp attempt])
    next
      case False
      obtain p2 w3 where iv: "pool_invalidate env da dp p1 w2 = (p2, w3)" by fastforce
      have p1: "pool_owns ops p1 w2" using k2 by (simp add: keeps_def)
      note i = pool_invalidate_owns [OF e p1 iv]
      have "send_attempts env b len da dp (attempt + 1) r p2 w3 = (failed, ret', p', w')"
        using Suc.prems(1) att g Some s False iv by (simp add: send_attempts.simps [of env b len da dp attempt])
      from Suc.hyps(1) [OF _ this] i Suc.hyps(2) show ?thesis using keeps_trans [OF k2] by (auto simp: keeps_def)
    qed
  qed
qed

lemma c_send_bundle_keeps:
  assumes env: "life_env_ok env ops" and p: "pool_owns ops (pool s) w"
    and r: "c_send_bundle env b len da dp (s, w) = (code, s', w')"
  shows "keeps ops (pool s) w (pool s') w'"
proof -
  have m: "ops (snd (mutex_lock env v)) = ops v" "ops (snd (mutex_unlock env v)) = ops v" for v
    using life_envD(2) [OF env] by (simp_all add: conn_env_ok_def)
  have l: "pool_owns ops (pool s) (snd (mutex_lock env w))" using p m by (simp add: pool_owns_def)
  from r show ?thesis
  proof (cases rule: c_send_bundle_cases)
    case (attempts bun failed ret p' w2)
    from send_attempts_keeps [OF env attempts(4) l] show ?thesis
      by (simp add: attempts(5,6) keeps_def pool_owns_def foreign_def m)
  qed (use p m in \<open>simp_all add: keeps_def pool_owns_def foreign_def\<close>)
qed

section \<open>What an instance owns\<close>

definition inst_conns :: "c_instance \<Rightarrow> conn set" where
  "inst_conns i = pool_conns (ci_pool i) \<union> rx_set (ci_rx_conns i)"

text \<open>The pool and the table own their connections and share none; a pool that is not initialized has none.\<close>

definition inst_owns :: "('w \<Rightarrow> conn set) \<Rightarrow> c_instance \<Rightarrow> 'w \<Rightarrow> bool" where
  "inst_owns ops i w \<longleftrightarrow> pool_owns ops (ci_pool i) w \<and> rx_owns ops (ci_rx_conns i) w \<and>
     pool_conns (ci_pool i) \<inter> rx_set (ci_rx_conns i) = {} \<and> (pool_initialized (ci_pool i) \<or> pool_conns (ci_pool i) = {})"

text \<open>An instance that is not initialized has no connection, and its pool accepts none.\<close>

definition idle_ok :: "c_instance \<Rightarrow> bool" where
  "idle_ok i \<longleftrightarrow> ci_initialized i \<or> inst_conns i = {} \<and> \<not> pool_initialized (ci_pool i)"

lemma inst_owns_same:
  assumes "inst_owns ops i w" and "ops w \<subseteq> ops w'" and "ci_pool i' = ci_pool i" and "ci_rx_conns i' = ci_rx_conns i"
  shows "inst_owns ops i' w'" "inst_conns i' = inst_conns i"
  using assms by (auto simp: inst_owns_def inst_conns_def pool_owns_def rx_owns_def)

lemma pool_initialized_kept:
  "pool_get_or_create env da dp p w = (c, p', w') \<Longrightarrow> pool_initialized p' = pool_initialized p"
  "pool_invalidate env da dp p w = (p', w') \<Longrightarrow> pool_initialized p' = pool_initialized p"
proof -
  have c: "pool_initialized q = pool_initialized p" if "clear_entry env i p w = (q, v)" for i p w q v
    using that by (auto simp: clear_entry_def)
  have s: "pool_initialized q = pool_initialized p" if "pool_slot env free p w = (i, q, v)" for free p w i q v
    using that c by (auto simp: pool_slot_def pool_evict_def Let_def split: option.splits prod.splits)
  have n: "pool_initialized p' = pool_initialized p" if "pool_create env da dp free p w = (c, p', w')" for free p w c p' w'
    using that by (cases rule: pool_create_cases) (use s in auto)
  show "pool_get_or_create env da dp p w = (c, p', w') \<Longrightarrow> pool_initialized p' = pool_initialized p"
    unfolding pool_get_or_create_def Let_def
    by (auto split: prod.splits option.splits if_splits dest!: n c)
  show "pool_invalidate env da dp p w = (p', w') \<Longrightarrow> pool_initialized p' = pool_initialized p"
    using c by (auto simp: pool_invalidate_def split: option.splits prod.splits)
qed

lemma send_attempts_initialized:
  "send_attempts env b len da dp attempt ret p w = (failed, ret', p', w') \<Longrightarrow> pool_initialized p' = pool_initialized p"
proof (induction "2 - attempt" arbitrary: attempt ret p w)
  case 0
  then show ?case by (simp add: send_attempts.simps [of env b len da dp attempt])
next
  case (Suc n)
  then have att: "attempt < 2" and n: "n = 2 - Suc attempt" by auto
  show ?case
    using Suc.prems att
    by (auto simp: send_attempts.simps [of env b len da dp attempt] split: prod.splits option.splits if_splits
        dest!: pool_initialized_kept Suc.hyps(1) [OF n])
qed

text \<open>The fields of \<open>cspcl_t\<close> that a send uses, as \<open>rx_of\<close> for receiving.\<close>

definition send_of :: "c_instance \<Rightarrow> send_state" where
  "send_of i = \<lparr>initialized = ci_initialized i, pool = ci_pool i\<rparr>"

lemma inst_send:
  assumes env: "life_env_ok env ops" and o: "inst_owns ops i w"
    and r: "c_send_bundle env b len da dp (send_of i, w) = (code, s', w')"
  shows "inst_owns ops (i\<lparr>ci_pool := pool s'\<rparr>) w'"
    "ops w' - inst_conns (i\<lparr>ci_pool := pool s'\<rparr>) = ops w - inst_conns i"
proof -
  have p: "pool_owns ops (pool (send_of i)) w" using o by (simp add: inst_owns_def send_of_def)
  have k: "keeps ops (ci_pool i) w (pool s') w'"
    using c_send_bundle_keeps [OF env p r] by (simp add: send_of_def)
  have "pool_initialized (pool s') \<or> pool_conns (pool s') = {}"
    using r
  proof (cases rule: c_send_bundle_cases)
    case (attempts bun failed ret p' w2)
    have "pool_initialized (ci_pool i)" using r attempts(1-3) o
      by (cases "pool_initialized (ci_pool i)") (auto simp: c_send_bundle_def send_of_def attempts(7) split: if_splits)
    with send_attempts_initialized [OF attempts(4)] show ?thesis by (simp add: attempts(5) send_of_def)
  qed (use o in \<open>simp_all add: inst_owns_def send_of_def\<close>)
  with k o show "inst_owns ops (i\<lparr>ci_pool := pool s'\<rparr>) w'"
    "ops w' - inst_conns (i\<lparr>ci_pool := pool s'\<rparr>) = ops w - inst_conns i"
    unfolding inst_owns_def inst_conns_def keeps_def foreign_def rx_owns_def by auto
qed

section \<open>Receiving and stopping\<close>

lemma rx_poll_sel:
  "rx_poll env t max_len ks buf sa sp i w = (code, buf', len', sa', sp', i', w') \<Longrightarrow>
   ci_pool i' = ci_pool i \<and> ci_initialized i' = ci_initialized i"
proof (induction ks arbitrary: buf sa sp i w)
  case (Cons k ks)
  then show ?case by (auto simp: Let_def split: if_splits prod.splits dest!: Cons.IH)
qed simp

lemma c_recv_bundle_sel:
  assumes "c_recv_bundle env buf len sa sp timeout (i, g, w) = (code, buf', len', sa', sp', i', g', w')"
  shows "ci_pool i' = ci_pool i" "ci_initialized i' = ci_initialized i"
proof -
  have st: "ci_pool j' = ci_pool j \<and> ci_initialized j' = ci_initialized j"
    if "rx_table_store env h na np j v = (j', v')" for h na np j v j' v'
    using that by (auto simp: rx_table_store_def Let_def split: prod.splits)
  have "ci_pool i' = ci_pool i \<and> ci_initialized i' = ci_initialized i"
    using assms
    by (auto simp: c_recv_bundle_def Let_def split: if_splits prod.splits dest!: st rx_poll_sel)
  then show "ci_pool i' = ci_pool i" "ci_initialized i' = ci_initialized i" by blast+
qed

lemma inst_recv:
  assumes env: "life_env_ok env ops" and o: "inst_owns ops i w"
    and r: "c_recv_bundle env buf len sa sp timeout (i, g, w) = (code, buf', len', sa', sp', i', g', w')"
  shows "inst_owns ops i' w'" "ops w - inst_conns i \<subseteq> ops w' - inst_conns i'"
    "ops w' - inst_conns i' \<subseteq> (ops w - inst_conns i) \<union> set_option (ci_rx_socket i')"
proof -
  have ro: "rx_owns ops (ci_rx_conns i) w" using o by (simp add: inst_owns_def)
  note t = recv_bundle_table [OF life_envD(1) [OF env] ro r] and sel = c_recv_bundle_sel [OF r]
  show "inst_owns ops i' w'" "ops w - inst_conns i \<subseteq> ops w' - inst_conns i'"
    "ops w' - inst_conns i' \<subseteq> (ops w - inst_conns i) \<union> set_option (ci_rx_socket i')"
    using t o unfolding inst_owns_def inst_conns_def sel pool_owns_def by auto
qed

lemma close_rx_conns_result:
  assumes "conn_env_ok env ops"
  shows "close_rx_conns env es w = (es', w') \<Longrightarrow>
    es' = map (\<lambda>e. e\<lparr>re_conn := None, re_used := False\<rparr>) es \<and> ops w' = ops w - rx_set es"
proof (induction es arbitrary: w es' w')
  case Nil
  then show ?case by (simp add: rx_set_def rx_slots_def slot_set_def)
next
  case (Cons e es)
  let ?w = "if re_used e then case re_conn e of Some h \<Rightarrow> csp_close env h w | None \<Rightarrow> w else w"
  obtain fs v where r: "close_rx_conns env es ?w = (fs, v)" by fastforce
  have "ops ?w = ops w - set_option (if re_used e then re_conn e else None)"
    using conn_envD(3) [OF assms] by (auto split: option.splits)
  moreover have "rx_set (e # es) = set_option (if re_used e then re_conn e else None) \<union> rx_set es"
    by (auto simp: rx_set_def rx_slots_def slot_set_def)
  ultimately show ?case using Cons.IH [OF r] Cons.prems r by (auto simp: Let_def split: prod.splits)
qed

lemma rx_cleared:
  assumes "length es = RX_TABLE_SIZE"
  shows "rx_table_inv (map (\<lambda>e. e\<lparr>re_conn := None, re_used := False\<rparr>) es)"
    "rx_set (map (\<lambda>e. e\<lparr>re_conn := None, re_used := False\<rparr>) es) = {}"
proof -
  have sl: "rx_slots (map (\<lambda>e. e\<lparr>re_conn := None, re_used := False\<rparr>) es) = map (\<lambda>_. None) es"
    by (simp add: rx_slots_def comp_def)
  show "rx_set (map (\<lambda>e. e\<lparr>re_conn := None, re_used := False\<rparr>) es) = {}"
    by (auto simp: rx_set_def sl slot_set_def)
  show "rx_table_inv (map (\<lambda>e. e\<lparr>re_conn := None, re_used := False\<rparr>) es)"
    unfolding rx_table_inv_def sl using assms by (auto simp: slots_distinct_def of_peer_def)
qed

text \<open>Releasing the pool closes its connections, and cleaning up those of the instance.\<close>

lemma inst_release:
  assumes env: "life_env_ok env ops" and o: "inst_owns ops i w" and r: "release_conn_pool env i w = (i', w')"
  shows "inst_owns ops i' w'" "pool_conns (ci_pool i') = {}" "ops w' = ops w - pool_conns (ci_pool i)"
    "ci_rx_conns i' = ci_rx_conns i" "\<not> pool_initialized (ci_pool i')"
proof -
  obtain p v where c: "conn_pool_cleanup env (ci_pool i) w = (p, v)" by fastforce
  have i': "i' = i\<lparr>ci_pool := p\<rparr>" "w' = v" using r c by (simp_all add: release_conn_pool_def)
  have po: "pool_owns ops (ci_pool i) w" using o by (simp add: inst_owns_def)
  have "pool_owns ops p v \<and> pool_conns p = {} \<and> ops v = ops w - pool_conns (ci_pool i) \<and> \<not> pool_initialized p"
  proof (cases "pool_initialized (ci_pool i)")
    case True
    from conn_pool_cleanup_closes [OF life_envD(2) [OF env] po True life_envD(3) [OF env] c]
    show ?thesis by (simp add: foreign_def)
  next
    case False
    with c o show ?thesis by (auto simp: conn_pool_cleanup_def inst_owns_def)
  qed
  with o show "inst_owns ops i' w'" "pool_conns (ci_pool i') = {}" "ops w' = ops w - pool_conns (ci_pool i)"
    "ci_rx_conns i' = ci_rx_conns i" "\<not> pool_initialized (ci_pool i')"
    unfolding inst_owns_def i' rx_owns_def by auto
qed

lemma inst_cleanup:
  assumes env: "life_env_ok env ops" and o: "inst_owns ops i w" and r: "c_cleanup env i w = (i', w')"
  shows "inst_owns ops i' w'" "inst_conns i' = {}" "ops w' = ops w - inst_conns i" "ci_rx_socket i' = None" "\<not> ci_initialized i'"
    "\<not> pool_initialized (ci_pool i')"
proof -
  let ?i = "i\<lparr>ci_rx_socket := rx_socket (c_close_rx_socket (rx_of i))\<rparr>"
  obtain i2 w1 where p: "release_conn_pool env ?i w = (i2, w1)" by fastforce
  obtain es w2 where c: "close_rx_conns env (ci_rx_conns i2) w1 = (es, w2)" by fastforce
  have i': "i' = i2\<lparr>ci_rx_conns := es, ci_initialized := False\<rparr>" "w' = w2"
    using r p c by (simp_all add: c_cleanup_def Let_def)
  have o1: "inst_owns ops ?i w" using inst_owns_same(1) [OF o, of w ?i] by simp
  note rl = inst_release [OF env o1 p] and cl = close_rx_conns_result [OF life_envD(2) [OF env] c]
  have len: "length (ci_rx_conns i2) = RX_TABLE_SIZE" using rl(1) by (simp add: inst_owns_def rx_owns_def rx_table_inv_def)
  have es: "rx_table_inv es" "rx_set es = {}" using rx_cleared [OF len] cl by simp_all
  have sock: "ci_rx_socket i2 = None" using p by (auto simp: release_conn_pool_def c_close_rx_socket_def split: prod.splits)
  show "inst_conns i' = {}" using rl(2) es(2) by (simp add: inst_conns_def i')
  show "ops w' = ops w - inst_conns i" using rl(3,4) cl by (auto simp: inst_conns_def i')
  show "inst_owns ops i' w'" using rl(1,2) es by (simp add: inst_owns_def rx_owns_def pool_owns_def i')
  show "ci_rx_socket i' = None" "\<not> ci_initialized i'" "\<not> pool_initialized (ci_pool i')" using rl(5) by (simp_all add: i' sock)
qed

section \<open>Starting\<close>

lemma start_stack_opens:
  assumes env: "life_env_ok env ops" and r: "start_stack env i g w = (err, i', g', w')"
  shows "ops w' = ops w \<and> ci_pool i' = ci_pool i \<and> ci_rx_conns i' = ci_rx_conns i \<and> ci_rx_socket i' = ci_rx_socket i"
proof -
  note e = life_envD [OF env]
  have si: "ops v' = ops v \<and> ci_pool j' = ci_pool j \<and> ci_rx_conns j' = ci_rx_conns j \<and> ci_rx_socket j' = ci_rx_socket j"
    if "start_iface env j v = (c, j', v')" for j v c j' v'
    using that e(8,9) by (auto simp: start_iface_def Let_def split: if_splits prod.splits)
  have ro: "ops (case f of Some k \<Rightarrow> csp_rtable_set env k v | None \<Rightarrow> v) = ops v" for f v
    using e(10) by (simp split: option.splits)
  show ?thesis
    using r by (auto simp: start_stack_def Let_def ro split: if_splits prod.splits dest!: e(7) e(11) si)
qed

lemma inst_init_instance:
  assumes env: "life_env_ok env ops" and o: "inst_owns ops i w" "inst_conns i = {}"
    and r: "init_instance env i g w = (code, i', g', w')"
  shows "inst_owns ops i' w' \<and> inst_conns i' = {} \<and> ops w' = ops w \<and> (code = CSPCL_OK \<or> \<not> pool_initialized (ci_pool i'))"
proof -
  obtain perr p w1 where p: "conn_pool_init env (max_conn_age env w) w = (perr, p, w1)" by (metis prod_cases3)
  let ?i = "i\<lparr>ci_pool := p, ci_rx_conns := rx_zero, ci_rx_tick := 0\<rparr>"
  have w1: "ops w1 = ops w" using conn_pool_init_entries(3) [OF p] life_envD(2) [OF env] by (simp add: conn_env_ok_def)
  have fp: "pool_owns ops p v \<and> pool_conns p = {} \<and> unique_dest p" for v
    by (rule fresh_pool [OF conn_pool_init_entries(1) [OF p]])
  then have o1: "inst_owns ops (i\<lparr>ci_pool := p\<rparr>) w1" "inst_conns (i\<lparr>ci_pool := p\<rparr>) = {}" "inst_owns ops ?i w1" "inst_conns ?i = {}"
    using o w1 rx_zero_inv by (simp_all add: inst_owns_def inst_conns_def rx_owns_def)
  show ?thesis
  proof (cases "perr = CSPCL_OK")
    case False
    with r p o1 w1 conn_pool_init_entries(2) [OF p] show ?thesis by (auto simp: init_instance_def)
  next
    case True
    obtain err i2 g2 w2 where s: "(if \<not> g_stack_initialized g then start_stack env ?i g w1
        else let (err, i2) = join_stack ?i g in (err, i2, g, w1)) = (err, i2, g2, w2)" by (metis prod_cases4)
    obtain i3 w3 where rl: "release_conn_pool env i2 w2 = (i3, w3)" by fastforce
    have i2: "ops w2 = ops w1 \<and> ci_pool i2 = ci_pool ?i \<and> ci_rx_conns i2 = ci_rx_conns ?i"
      using s start_stack_opens [OF env, of ?i g w1 err i2 g2 w2] by (auto simp: join_stack_def split: if_splits)
    then have o2: "inst_owns ops i2 w2" "inst_conns i2 = {}" using inst_owns_same [OF o1(3), of w2 i2] o1(4) by simp_all
    note o3 = inst_release [OF env o2(1) rl]
    have "(i' = i3 \<and> w' = w3) \<or> (i' = i2\<lparr>ci_initialized := True\<rparr> \<and> w' = w2 \<and> code = CSPCL_OK)"
      using r p True s rl by (auto simp: init_instance_def Let_def split: if_splits prod.splits)
    then show ?thesis
      using o2 o3 i2 w1 inst_owns_same [OF o2(1), of w2 "i2\<lparr>ci_initialized := True\<rparr>"] by (auto simp: inst_conns_def)
  qed
qed

lemma inst_init:
  assumes env: "life_env_ok env ops" and o: "inst_owns ops i w" and n: "idle_ok i"
    and r: "c_init env i g w = (code, i', g', w')"
  shows "inst_owns ops i' w'" "ops w - inst_conns i \<subseteq> ops w' - inst_conns i'"
    "ops w' - inst_conns i' \<subseteq> (ops w - inst_conns i) \<union> set_option (ci_rx_socket i')"
    "idle_ok i'"
proof -
  obtain err i1 g1 w1 where a: "(if ci_initialized i then (CSPCL_OK, i, g, w) else init_instance env i g w) = (err, i1, g1, w1)"
    by (metis prod_cases4)
  obtain err2 s rg w2 where b: "open_rx_socket env (rx_of i1) (g_rx g1) w1 = (err2, s, rg, w2)" by (metis prod_cases4)
  let ?i = "i1\<lparr>ci_rx_socket := rx_socket s\<rparr>"
  obtain i3 w3 where c: "c_cleanup env ?i w2 = (i3, w3)" by fastforce
  have i1: "inst_owns ops i1 w1" "ops w1 - inst_conns i1 = ops w - inst_conns i"
    "err = CSPCL_OK \<or> inst_conns i1 = {} \<and> \<not> pool_initialized (ci_pool i1)"
    using a o inst_init_instance [OF env o, of g err i1 g1 w1] n by (auto simp: idle_ok_def split: if_splits)
  have i1n: "err = CSPCL_OK \<Longrightarrow> ci_initialized i1"
    using a by (cases "ci_initialized i") (auto simp: init_instance_def Let_def split: if_splits prod.splits)
  note op = open_rx_socket_opens [OF life_envD(1) [OF env] b]
  have oi: "inst_owns ops ?i w2" "inst_conns ?i = inst_conns i1" using inst_owns_same [OF i1(1) op(1), of ?i] by simp_all
  note cl = inst_cleanup [OF env oi(1) c]
  have sub: "inst_conns i1 \<subseteq> ops w1" using i1(1) by (auto simp: inst_owns_def inst_conns_def pool_owns_def rx_owns_def)
  consider "err \<noteq> CSPCL_OK" "i' = i1" "w' = w1" | "err = CSPCL_OK" "err2 \<noteq> CSPCL_OK" "i' = i3" "w' = w3"
    | "err = CSPCL_OK" "err2 = CSPCL_OK" "i' = ?i" "w' = w2"
    using r a b c by (auto simp: c_init_def Let_def split: if_splits)
  then have "inst_owns ops i' w' \<and> ops w - inst_conns i \<subseteq> ops w' - inst_conns i' \<and>
    ops w' - inst_conns i' \<subseteq> (ops w - inst_conns i) \<union> set_option (ci_rx_socket i') \<and>
    idle_ok i'"
  proof cases
    case 1
    with i1 show ?thesis by (auto simp: idle_ok_def)
  next
    case 2
    with cl i1(2) oi(2) op(4) show ?thesis by (auto simp: idle_ok_def)
  next
    case 3
    with i1(2) oi op(1,2) sub i1n show ?thesis by (auto simp: idle_ok_def)
  qed
  then show "inst_owns ops i' w'" "ops w - inst_conns i \<subseteq> ops w' - inst_conns i'"
    "ops w' - inst_conns i' \<subseteq> (ops w - inst_conns i) \<union> set_option (ci_rx_socket i')"
    "idle_ok i'" by blast+
qed

section \<open>Connections of the caller\<close>

text \<open>Opening the socket and accepting a connection, which is the caller's and not the instance's.\<close>

lemma inst_open:
  assumes env: "life_env_ok env ops" and o: "inst_owns ops i w"
    and r: "open_rx_socket env (rx_of i) g w = (code, s, g', w')"
  shows "inst_owns ops (i\<lparr>ci_rx_socket := rx_socket s\<rparr>) w'" "inst_conns (i\<lparr>ci_rx_socket := rx_socket s\<rparr>) = inst_conns i"
    "ops w \<subseteq> ops w'" "ops w' \<subseteq> ops w \<union> set_option (rx_socket s)"
proof -
  note op = open_rx_socket_opens [OF life_envD(1) [OF env] r]
  show "inst_owns ops (i\<lparr>ci_rx_socket := rx_socket s\<rparr>) w'" "inst_conns (i\<lparr>ci_rx_socket := rx_socket s\<rparr>) = inst_conns i"
    using inst_owns_same [OF o op(1), of "i\<lparr>ci_rx_socket := rx_socket s\<rparr>"] by simp_all
  show "ops w \<subseteq> ops w'" "ops w' \<subseteq> ops w \<union> set_option (rx_socket s)" by (rule op)+
qed

lemma inst_accept:
  assumes env: "life_env_ok env ops" and o: "inst_owns ops i w"
    and r: "c_accept_conn env None sa sp t (rx_of i, g, w) = (code, c, sa', sp', s, g', w')"
  shows "inst_owns ops (i\<lparr>ci_rx_socket := rx_socket s\<rparr>) w'" "inst_conns (i\<lparr>ci_rx_socket := rx_socket s\<rparr>) = inst_conns i"
    "ops w \<union> set_option c \<subseteq> ops w'" "ops w' \<subseteq> ops w \<union> set_option c \<union> set_option (rx_socket s)" "ops w \<inter> set_option c = {}"
proof -
  obtain v where v: "ops w \<subseteq> ops v" "ops v \<subseteq> ops w \<union> set_option (rx_socket s)" "ops w' = ops v \<union> set_option c"
    "ops v \<inter> set_option c = {}" by (rule c_accept_conn_opens [OF life_envD(1) [OF env] r])
  then have "ops w \<subseteq> ops w'" by blast
  from inst_owns_same [OF o this, of "i\<lparr>ci_rx_socket := rx_socket s\<rparr>"]
  show "inst_owns ops (i\<lparr>ci_rx_socket := rx_socket s\<rparr>) w'" "inst_conns (i\<lparr>ci_rx_socket := rx_socket s\<rparr>) = inst_conns i"
    by simp_all
  show "ops w \<union> set_option c \<subseteq> ops w'" "ops w' \<subseteq> ops w \<union> set_option c \<union> set_option (rx_socket s)" "ops w \<inter> set_option c = {}"
    using v by auto
qed

text \<open>Closing a connection of the caller, and giving it to the pool.\<close>

lemma inst_close_foreign:
  assumes env: "life_env_ok env ops" and o: "inst_owns ops i w" and h: "h \<notin> inst_conns i"
  shows "inst_owns ops i (csp_close env h w)" "ops (csp_close env h w) = ops w - {h}"
  using o h conn_envD(3) [OF life_envD(2) [OF env], of h w]
  by (auto simp: inst_owns_def inst_conns_def pool_owns_def rx_owns_def)

lemma inst_pool_add:
  assumes env: "life_env_ok env ops" and o: "inst_owns ops i w" "idle_ok i" and h: "h \<in> ops w - inst_conns i"
    and r: "conn_pool_add env (ci_pool i) da dp (Some h) w = (code, p', w')"
  shows "inst_owns ops (i\<lparr>ci_pool := p'\<rparr>) w'" "idle_ok (i\<lparr>ci_pool := p'\<rparr>)"
    "ops w' - inst_conns (i\<lparr>ci_pool := p'\<rparr>) = ops w - inst_conns i - (if code = CSPCL_OK then {h} else {})"
proof -
  have e: "conn_env_ok env ops" by (rule life_envD(2) [OF env])
  have p: "pool_owns ops (ci_pool i) w" and hp: "h \<in> foreign ops (ci_pool i) w"
    using o h by (auto simp: inst_owns_def foreign_def inst_conns_def)
  have "inst_owns ops (i\<lparr>ci_pool := p'\<rparr>) w' \<and> idle_ok (i\<lparr>ci_pool := p'\<rparr>) \<and>
    ops w' - inst_conns (i\<lparr>ci_pool := p'\<rparr>) = ops w - inst_conns i - (if code = CSPCL_OK then {h} else {})"
  proof (cases "code = CSPCL_OK")
    case True
    have add: "pool_owns ops p' w'" "foreign ops p' w' = foreign ops (ci_pool i) w - {h}"
      using conn_pool_add_owns [OF e p hp] r True by auto
    have s: "pool_initialized q = pool_initialized p" if "find_free_or_evict env p v = (k, q, v')" for p v k q v'
      using that by (auto simp: find_free_or_evict_def pool_slot_def pool_evict_def clear_entry_def Let_def split: option.splits)
    have "pool_initialized (ci_pool i)" "pool_initialized p'"
      using r True by (auto simp: conn_pool_add_def Let_def split: if_splits prod.splits dest!: s)
    with add o h True show ?thesis
      unfolding inst_owns_def inst_conns_def foreign_def idle_ok_def rx_owns_def by auto
  next
    case False
    have "ops (snd (mutex_lock env w)) = ops w" using e by (simp add: conn_env_ok_def)
    moreover have "p' = ci_pool i" "w' = w \<or> w' = snd (mutex_lock env w)"
      using r False by (auto simp: conn_pool_add_def Let_def split: if_splits prod.splits)
    ultimately show ?thesis
      using o False unfolding inst_owns_def inst_conns_def idle_ok_def rx_owns_def pool_owns_def by auto
  qed
  then show "inst_owns ops (i\<lparr>ci_pool := p'\<rparr>) w'" "idle_ok (i\<lparr>ci_pool := p'\<rparr>)"
    "ops w' - inst_conns (i\<lparr>ci_pool := p'\<rparr>) = ops w - inst_conns i - (if code = CSPCL_OK then {h} else {})" by blast+
qed

section \<open>Any order of calls\<close>

text \<open>
  An instance with the global variables, the world, the receive sockets it has had, and the connections
  of the caller: those it accepted or made and has neither closed nor given to the pool.
\<close>

record 'w life =
  li_inst :: c_instance
  li_globals :: c_globals
  li_world :: 'w
  li_socks :: "conn set"
  li_held :: "conn set"

definition life_next :: "'w life \<Rightarrow> c_instance \<Rightarrow> c_globals \<Rightarrow> 'w \<Rightarrow> conn set \<Rightarrow> 'w life" where
  "life_next s i g w held = \<lparr>li_inst = i, li_globals = g, li_world = w,
     li_socks = li_socks s \<union> set_option (ci_rx_socket i), li_held = held\<rparr>"

text \<open>
  The calls of the C interface that change an instance or the world. The caller reads from, closes and
  adds to the pool only connections it has; the pool is initialized by \<open>cspcl_init\<close> only.
\<close>

inductive life_step :: "('w, 'm) init_env_scheme \<Rightarrow> 'w life \<Rightarrow> 'w life \<Rightarrow> bool" for env where
  life_init: "c_init env (li_inst s) (li_globals s) (li_world s) = (code, i', g', w') \<Longrightarrow>
    life_step env s (life_next s i' g' w' (li_held s))"
| life_send: "c_send_bundle env b len da dp (send_of (li_inst s), li_world s) = (code, s', w') \<Longrightarrow>
    life_step env s (life_next s ((li_inst s)\<lparr>ci_pool := pool s'\<rparr>) (li_globals s) w' (li_held s))"
| life_recv: "c_recv_bundle env buf len sa sp timeout (li_inst s, li_globals s, li_world s) = (code, buf', len', sa', sp', i', g', w') \<Longrightarrow>
    life_step env s (life_next s i' g' w' (li_held s))"
| life_open: "open_rx_socket env (rx_of (li_inst s)) (g_rx (li_globals s)) (li_world s) = (code, r, rg, w') \<Longrightarrow>
    life_step env s (life_next s ((li_inst s)\<lparr>ci_rx_socket := rx_socket r\<rparr>) ((li_globals s)\<lparr>g_rx := rg\<rparr>) w' (li_held s))"
| life_close: "life_step env s (life_next s
    ((li_inst s)\<lparr>ci_rx_socket := rx_socket (c_close_rx_socket (rx_of (li_inst s)))\<rparr>) (li_globals s) (li_world s) (li_held s))"
| life_accept: "c_accept_conn env None 0 0 timeout (rx_of (li_inst s), g_rx (li_globals s), li_world s) =
      (code, c, sa', sp', r, rg, w') \<Longrightarrow>
    life_step env s (life_next s ((li_inst s)\<lparr>ci_rx_socket := rx_socket r\<rparr>) ((li_globals s)\<lparr>g_rx := rg\<rparr>) w'
      (li_held s \<union> set_option c))"
| life_read: "h \<in> li_held s \<Longrightarrow>
    c_recv_bundle_from_conn env (Some h) buf len sa sp pa pp (li_world s) = (code, buf', len', sa', sp', w') \<Longrightarrow>
    life_step env s (life_next s (li_inst s) (li_globals s) w' (li_held s))"
| life_conn_close: "h \<in> li_held s \<Longrightarrow>
    life_step env s (life_next s (li_inst s) (li_globals s) (csp_close env h (li_world s)) (li_held s - {h}))"
| life_connect: "csp_connect env da dp (li_world s) = (c, w') \<Longrightarrow>
    life_step env s (life_next s (li_inst s) (li_globals s) w' (li_held s \<union> set_option c))"
| life_pool_add: "h \<in> li_held s \<Longrightarrow> conn_pool_add env (ci_pool (li_inst s)) da dp (Some h) (li_world s) = (code, p', w') \<Longrightarrow>
    life_step env s (life_next s ((li_inst s)\<lparr>ci_pool := p'\<rparr>) (li_globals s) w'
      (if code = CSPCL_OK then li_held s - {h} else li_held s))"
| life_pool_cleanup: "release_conn_pool env (li_inst s) (li_world s) = (i', w') \<Longrightarrow>
    life_step env s (life_next s i' (li_globals s) w' (li_held s))"
| life_cleanup: "c_cleanup env (li_inst s) (li_world s) = (i', w') \<Longrightarrow>
    life_step env s (life_next s i' (li_globals s) w' (li_held s))"

text \<open>The zeroed instance that \<open>cspcl_init\<close> is given, with its configuration.\<close>

definition life_start :: "c_instance \<Rightarrow> c_globals \<Rightarrow> 'w \<Rightarrow> 'w life" where
  "life_start i g w = \<lparr>li_inst = i\<lparr>ci_initialized := False, ci_pool := pool_zero, ci_rx_conns := rx_zero\<rparr>, li_globals = g,
     li_world = w, li_socks = {}, li_held = {}\<rparr>"

text \<open>\<open>F\<close> are the connections that were open in the beginning.\<close>

definition life_ok :: "('w \<Rightarrow> conn set) \<Rightarrow> conn set \<Rightarrow> 'w life \<Rightarrow> bool" where
  "life_ok ops F s \<longleftrightarrow> inst_owns ops (li_inst s) (li_world s) \<and> idle_ok (li_inst s) \<and>
     li_held s \<subseteq> ops (li_world s) - inst_conns (li_inst s) \<and>
     F \<subseteq> ops (li_world s) - inst_conns (li_inst s) - li_held s \<and>
     ops (li_world s) - inst_conns (li_inst s) - li_held s \<subseteq> F \<union> li_socks s"

definition life_inv :: "('w, 'm) init_env_scheme \<Rightarrow> ('w \<Rightarrow> conn set) \<Rightarrow> conn set \<Rightarrow> 'w life \<Rightarrow> bool" where
  "life_inv env ops F s \<longleftrightarrow> (life_env_ok env ops \<longrightarrow> life_ok ops F s)"

lemma life_next_sel [simp]:
  "li_inst (life_next s i g w held) = i" "li_world (life_next s i g w held) = w" "li_held (life_next s i g w held) = held"
  "li_socks (life_next s i g w held) = li_socks s \<union> set_option (ci_rx_socket i)"
  by (simp_all add: life_next_def)

text \<open>
  A call keeps the invariant if it leaves what is not the instance's as it is, receive sockets and
  connections of the caller apart.
\<close>

lemma life_ok_next:
  assumes "life_ok ops F s"
    and "inst_owns ops i w \<and> idle_ok i"
    and "ops (li_world s) - inst_conns (li_inst s) - (li_held s - held) \<union> (held - li_held s) \<subseteq> ops w - inst_conns i"
    and "ops w - inst_conns i \<subseteq>
      (ops (li_world s) - inst_conns (li_inst s) - (li_held s - held)) \<union> (held - li_held s) \<union> set_option (ci_rx_socket i)"
    and "(held - li_held s) \<inter> ops (li_world s) = {}"
  shows "life_ok ops F (life_next s i g w held)"
  unfolding life_ok_def life_next_sel using assms unfolding life_ok_def by blast

lemma life_ok_step:
  assumes env: "life_env_ok env ops"
  shows "life_step env s t \<Longrightarrow> life_ok ops F s \<Longrightarrow> life_ok ops F t"
proof (induction rule: life_step.induct)
  case (life_init s code i' g' w')
  then have o: "inst_owns ops (li_inst s) (li_world s)" "idle_ok (li_inst s)" by (simp_all add: life_ok_def)
  show ?case by (rule life_ok_next [OF life_init.prems]) (use inst_init [OF env o life_init.hyps] in auto)
next
  case (life_send b len da dp s code s' w')
  then have o: "inst_owns ops (li_inst s) (li_world s)" "idle_ok (li_inst s)" by (simp_all add: life_ok_def)
  have "\<not> ci_initialized (li_inst s) \<longrightarrow> pool s' = ci_pool (li_inst s)"
    using life_send.hyps by (cases b) (auto simp: c_send_bundle_def send_of_def split: if_splits)
  then have "idle_ok ((li_inst s)\<lparr>ci_pool := pool s'\<rparr>)" using o(2) by (auto simp: idle_ok_def inst_conns_def)
  then show ?case by (intro life_ok_next [OF life_send.prems]) (use inst_send [OF env o(1) life_send.hyps] in auto)
next
  case (life_recv buf len sa sp timeout s code buf' len' sa' sp' i' g' w')
  then have o: "inst_owns ops (li_inst s) (li_world s)" "idle_ok (li_inst s)" by (simp_all add: life_ok_def)
  have "\<not> ci_initialized (li_inst s) \<longrightarrow> i' = li_inst s" using life_recv.hyps by (auto simp: c_recv_bundle_def)
  then have "idle_ok i'" using o(2) c_recv_bundle_sel(2) [OF life_recv.hyps] by (auto simp: idle_ok_def)
  then show ?case by (intro life_ok_next [OF life_recv.prems]) (use inst_recv [OF env o(1) life_recv.hyps] in auto)
next
  case (life_open s code r rg w')
  then have o: "inst_owns ops (li_inst s) (li_world s)" "idle_ok (li_inst s)" by (simp_all add: life_ok_def)
  note i = inst_open [OF env o(1) life_open.hyps]
  have "idle_ok ((li_inst s)\<lparr>ci_rx_socket := rx_socket r\<rparr>)" using o(2) i(2) by (simp add: idle_ok_def)
  then show ?case by (intro life_ok_next [OF life_open.prems]) (use i in auto)
next
  case (life_close s)
  let ?i = "(li_inst s)\<lparr>ci_rx_socket := rx_socket (c_close_rx_socket (rx_of (li_inst s)))\<rparr>"
  have o: "inst_owns ops (li_inst s) (li_world s)" "idle_ok (li_inst s)" using life_close by (simp_all add: life_ok_def)
  note i = inst_owns_same [OF o(1) order_refl, of ?i]
  have "idle_ok ?i" using o(2) i(2) by (simp add: idle_ok_def)
  then show ?case by (intro life_ok_next [OF life_close]) (use i in auto)
next
  case (life_accept timeout s code c sa' sp' r rg w')
  then have o: "inst_owns ops (li_inst s) (li_world s)" "idle_ok (li_inst s)" "li_held s \<subseteq> ops (li_world s)"
    by (auto simp: life_ok_def)
  note i = inst_accept [OF env o(1) life_accept.hyps]
  have sub: "inst_conns (li_inst s) \<subseteq> ops (li_world s)"
    using o(1) by (auto simp: inst_owns_def inst_conns_def pool_owns_def rx_owns_def)
  have "idle_ok ((li_inst s)\<lparr>ci_rx_socket := rx_socket r\<rparr>)" using o(2) i(2) by (simp add: idle_ok_def)
  then show ?case by (intro life_ok_next [OF life_accept.prems]) (use i o(3) sub in auto)
next
  case (life_read h s buf len sa sp pa pp code buf' len' sa' sp' w')
  then have o: "inst_owns ops (li_inst s) (li_world s)" "idle_ok (li_inst s)" by (simp_all add: life_ok_def)
  have w: "ops w' = ops (li_world s)"
    using recv_from_conn_opens(1) [OF life_envD(1) [OF env]] life_read.hyps(2) by (auto simp: c_recv_bundle_from_conn_def)
  show ?case by (rule life_ok_next [OF life_read.prems]) (use o w inst_owns_same(1) [OF o(1), of w' "li_inst s"] in auto)
next
  case (life_conn_close h s)
  then have o: "inst_owns ops (li_inst s) (li_world s)" "idle_ok (li_inst s)" "h \<notin> inst_conns (li_inst s)"
    by (auto simp: life_ok_def)
  show ?case by (rule life_ok_next [OF life_conn_close.prems]) (use life_conn_close.hyps o(2) inst_close_foreign [OF env o(1,3)] in auto)
next
  case (life_connect da dp s c w')
  then have o: "inst_owns ops (li_inst s) (li_world s)" "idle_ok (li_inst s)" "li_held s \<subseteq> ops (li_world s)"
    by (auto simp: life_ok_def)
  have w: "ops w' = ops (li_world s) \<union> set_option c" "ops (li_world s) \<inter> set_option c = {}"
    using conn_envD(1,2) [OF life_envD(2) [OF env]] life_connect.hyps by (cases c; force)+
  have sub: "inst_conns (li_inst s) \<subseteq> ops (li_world s)"
    using o(1) by (auto simp: inst_owns_def inst_conns_def pool_owns_def rx_owns_def)
  show ?case
    by (rule life_ok_next [OF life_connect.prems]) (use w o(2,3) sub inst_owns_same(1) [OF o(1), of w' "li_inst s"] in auto)
next
  case (life_pool_add h s da dp code p' w')
  then have o: "inst_owns ops (li_inst s) (li_world s)" "idle_ok (li_inst s)" "h \<in> ops (li_world s) - inst_conns (li_inst s)"
    by (auto simp: life_ok_def)
  note i = inst_pool_add [OF env o life_pool_add.hyps(2)]
  show ?case by (rule life_ok_next [OF life_pool_add.prems]) (use i life_pool_add.hyps(1) in \<open>auto split: if_splits\<close>)
next
  case (life_pool_cleanup s i' w')
  then have o: "inst_owns ops (li_inst s) (li_world s)" "idle_ok (li_inst s)" by (simp_all add: life_ok_def)
  note i = inst_release [OF env o(1) life_pool_cleanup.hyps]
  have "ci_initialized i' = ci_initialized (li_inst s)" "ci_rx_socket i' = ci_rx_socket (li_inst s)"
    using life_pool_cleanup.hyps by (auto simp: release_conn_pool_def split: prod.splits)
  then have "idle_ok i'" "ops w' - inst_conns i' = ops (li_world s) - inst_conns (li_inst s)"
    using o i by (auto simp: idle_ok_def inst_conns_def inst_owns_def)
  then show ?case by (intro life_ok_next [OF life_pool_cleanup.prems]) (use i(1) in auto)
next
  case (life_cleanup s i' w')
  then have o: "inst_owns ops (li_inst s) (li_world s)" by (simp add: life_ok_def)
  note i = inst_cleanup [OF env o life_cleanup.hyps]
  have "idle_ok i'" using i(2,6) by (simp add: idle_ok_def)
  then show ?case by (intro life_ok_next [OF life_cleanup.prems]) (use i in auto)
qed

interpretation life: invariant_system "life_start i g w" "life_step env" "life_inv env ops (ops w)" for i g w env ops
proof
  have "entries pool_zero = replicate CSPCL_CONN_POOL_SIZE entry_zero" by (simp add: pool_zero_def)
  note p = fresh_pool [OF this, of ops w]
  have "\<not> pool_initialized pool_zero" by (simp add: pool_zero_def)
  then show "life_inv env ops (ops w) (life_start i g w)"
    using p rx_zero_inv
    by (simp add: life_inv_def life_ok_def idle_ok_def life_start_def inst_owns_def inst_conns_def rx_owns_def)
qed (simp add: life_inv_def life_ok_step)

text \<open>
  C14: an instance leaks no connection, whatever the order in which it is started, sends, receives,
  opens and closes its socket, accepts connections, is given some for its pool, and is stopped, restarts and failed
  starts included: the open connections are always those that were open in the beginning, those of its pool
  and of its table, its receive sockets, and those the caller accepted or made and still has. It has no connection unless
  it is initialized, so a stopped instance leaves at most receive sockets behind. No connection is in two of these places.
\<close>

theorem instance_leaks_no_connection:
  assumes "life_env_ok env ops" and "reach (life_start i g w) (life_step env) s"
  shows "ops w \<union> li_held s \<subseteq> ops (li_world s) \<and>
    ops (li_world s) \<subseteq> ops w \<union> li_socks s \<union> pool_conns (ci_pool (li_inst s)) \<union> rx_set (ci_rx_conns (li_inst s)) \<union> li_held s \<and>
    pool_conns (ci_pool (li_inst s)) \<inter> rx_set (ci_rx_conns (li_inst s)) = {} \<and>
    li_held s \<inter> (pool_conns (ci_pool (li_inst s)) \<union> rx_set (ci_rx_conns (li_inst s))) = {} \<and>
    (\<not> ci_initialized (li_inst s) \<longrightarrow> ops (li_world s) \<subseteq> ops w \<union> li_socks s \<union> li_held s)"
  using life.inv_reach [OF assms(2), of ops] assms(1) unfolding life_inv_def life_ok_def idle_ok_def inst_owns_def inst_conns_def
  by blast

section \<open>Witness\<close>

text \<open>The world of the witnesses for receiving, in which sockets can be made.\<close>

definition life_env :: "rx_world init_env" where
  "life_env = rx_sample_env\<lparr>csp_socket := (\<lambda>w. if rw_open w \<in> set (rw_closed w) then (None, w)
     else (Some (rw_open w), w\<lparr>rw_open := rw_open w + 1\<rparr>))\<rparr>"

lemma life_env_sel: "life_env_ok life_env rw_conns"
proof -
  have "conn_env_ok life_env rw_conns" unfolding conn_env_ok_def by (auto simp: life_env_def rx_sample_defs)
  then have "rx_env_ok life_env rw_conns"
    unfolding rx_env_ok_def by (auto simp: life_env_def rx_sample_defs split: list.splits if_splits)
  then show ?thesis unfolding life_env_ok_def by (auto simp: life_env_def rx_sample_defs)
qed

definition life_world :: rx_world where
  "life_world = \<lparr>rw_open = 0, rw_closed = [], rw_bundles = [], rw_peers = 1, rw_waited = 0\<rparr>"

definition life_globals :: c_globals where
  "life_globals = \<lparr>g_stack_initialized = False, g_router_started = False, g_addr = 0, g_iface_type = CSP_IFACE_LOOPBACK,
     g_iface = None, g_rx = \<lparr>global_rx_socket = None, global_rx_port = 0\<rparr>\<rparr>"

theorem instance_leaks_no_connection_witness:
  "\<exists>s. reach (life_start (loop_instance 10) life_globals life_world) (life_step life_env) s \<and>
     \<not> ci_initialized (li_inst s) \<and> li_socks s = {0} \<and> rw_conns (li_world s) \<subseteq> {0}"
proof -
  let ?s0 = "life_start (loop_instance 10) life_globals life_world"
  obtain i1 g1 w1 where i: "c_init life_env (li_inst ?s0) (li_globals ?s0) (li_world ?s0) = (CSPCL_OK, i1, g1, w1)"
      "ci_rx_socket i1 = Some 0"
    by (simp add: life_start_def loop_instance_def c_init_def init_instance_def conn_pool_init_def life_env_def rx_sample_defs
        life_globals_def life_world_def start_stack_def start_iface_def open_rx_socket_def rx_of_def)
  let ?s1 = "life_next ?s0 i1 g1 w1 (li_held ?s0)"
  obtain i2 w2 where c: "c_cleanup life_env (li_inst ?s1) (li_world ?s1) = (i2, w2)" by fastforce
  let ?s2 = "life_next ?s1 i2 (li_globals ?s1) w2 (li_held ?s1)"
  have r: "reach ?s0 (life_step life_env) ?s2"
    by (rule reach_step, rule reach_step, rule reach_init, rule life_init [OF i(1)], rule life_cleanup [OF c])
  have "ci_rx_socket i2 = None"
    using c by (auto simp: c_cleanup_def release_conn_pool_def c_close_rx_socket_def Let_def split: prod.splits)
  then have "li_socks ?s2 = {0}" "li_held ?s2 = {}" by (simp_all add: i(2)) (simp_all add: life_start_def)
  moreover have "\<not> ci_initialized (li_inst ?s2)" using c_cleanup_sel [OF c] by simp
  moreover have "rw_conns life_world = {}" by (simp add: rw_conns_def life_world_def)
  ultimately show ?thesis using instance_leaks_no_connection [OF life_env_sel r] r by blast
qed

end
