(* ===== verification/RustLife.thy ===== *)
theory RustLife
  imports CLife Instance
begin

text \<open>
  The Rust instance over the C core: \<open>Cspcl::new\<close>, its \<open>Drop\<close> and the receiving wrapper of \<open>cspcl-sys\<close>,
  with the functions of \<open>src/cspcl.c\<close> as the C functions that they call.
\<close>

section \<open>The C functions as Rust calls them\<close>

text \<open>
  The instance of C for the \<open>cspcl_t\<close> of Rust, whose other fields are zero (\<open>cspcl_t::default\<close>), and back:
  the fields that the Rust code sees.
\<close>

definition instance_of :: "cspcl_t \<Rightarrow> c_instance" where
  "instance_of c = \<lparr>ci_initialized = c_initialized c, ci_local_addr = c_local_addr c, ci_rx_socket = None,
     ci_csp_port = c_csp_port c, ci_iface_type = c_iface_type c, ci_zmqhub_addr = c_zmqhub_addr c,
     ci_can_iface = c_can_iface c, ci_pool = pool_zero, ci_rx_conns = rx_zero, ci_rx_tick = 0, ci_active_iface = None\<rparr>"

definition cspcl_of :: "c_instance \<Rightarrow> cspcl_t" where
  "cspcl_of i = \<lparr>c_initialized = ci_initialized i, c_local_addr = ci_local_addr i, c_rx_socket = (ci_rx_socket i \<noteq> None),
     c_csp_port = ci_csp_port i, c_iface_type = ci_iface_type i, c_zmqhub_addr = ci_zmqhub_addr i,
     c_can_iface = ci_can_iface i\<rparr>"

text \<open>The world of the Rust code has the memory of its instance, the globals of C and the rest.\<close>

definition c_init_of :: "('w, 'm) init_env_scheme \<Rightarrow> (c_instance \<times> c_globals \<times> 'w) c_init" where
  "c_init_of env c = (\<lambda>(_, g, w).
     let (code, i', g', w') = c_init env (instance_of c) g w in (code, cspcl_of i', i', g', w'))"

section \<open>Starting and dropping\<close>

lemma init_from_config_of:
  assumes "init_from_config (c_init_of env) config (i0, g, w) = (r, i, g', w')"
  obtains code where "c_init env (instance_of (configure config)) g w = (code, i, g', w')"
    "r = (if code = CSPCL_OK then Inr (cspcl_of i) else Inl code)"
proof -
  obtain code i1 g1 w1 where c: "c_init env (instance_of (configure config)) g w = (code, i1, g1, w1)" by (metis prod_cases4)
  show thesis
    by (rule that [of code])
      (use assms c in \<open>auto simp: init_from_config_def sys_init_instance_def prim_init_def c_init_of_def ok_or_err_def
        split: if_splits\<close>)
qed

text \<open>An instance that was started has a receive socket, one that was not has nothing.\<close>

lemma c_init_outcome:
  assumes env: "life_env_ok env ops" and o: "inst_owns ops i w" "inst_conns i = {}" "ci_rx_socket i = None" "\<not> ci_initialized i"
    and r: "c_init env i g w = (code, i', g', w')"
  shows "inst_owns ops i' w'" "inst_conns i' = {}" "ops w \<subseteq> ops w'" "ops w' \<subseteq> ops w \<union> set_option (ci_rx_socket i')"
    "code = CSPCL_OK \<longleftrightarrow> ci_initialized i'" "code = CSPCL_OK \<longleftrightarrow> ci_rx_socket i' \<noteq> None"
proof -
  obtain err i1 g1 w1 where a: "init_instance env i g w = (err, i1, g1, w1)" by (metis prod_cases4)
  obtain err2 s rg w2 where b: "open_rx_socket env (rx_of i1) (g_rx g1) w1 = (err2, s, rg, w2)" by (metis prod_cases4)
  let ?i = "i1\<lparr>ci_rx_socket := rx_socket s\<rparr>"
  obtain i3 w3 where c: "c_cleanup env ?i w2 = (i3, w3)" by fastforce
  have i1: "inst_owns ops i1 w1" "inst_conns i1 = {}" "ops w1 = ops w" using inst_init_instance [OF env o(1,2) a] by blast+
  note op = open_rx_socket_opens [OF life_envD(1) [OF env] b]
  have oi: "inst_owns ops ?i w2" "inst_conns ?i = inst_conns i1" using inst_owns_same [OF i1(1) op(1), of ?i] by simp_all
  note cl = inst_cleanup [OF env oi(1) c]
  have st: "ci_rx_socket j' = ci_rx_socket j" if "start_stack env j h v = (e, j', h', v')" for j h v e j' h' v'
    using start_stack_opens [OF env that] by simp
  have i1s: "ci_rx_socket i1 = None" "ci_initialized i1 \<longleftrightarrow> err = CSPCL_OK"
    using a o(3) init_instance_result(1) [OF a o(4)]
    by (auto simp: init_instance_def release_conn_pool_def join_stack_def Let_def split: if_splits prod.splits dest!: st)
  have so: "err2 = CSPCL_OK \<Longrightarrow> rx_socket s \<noteq> None" using b by (auto simp: open_rx_socket_def split: if_splits prod.splits option.splits)
  consider "err \<noteq> CSPCL_OK" "code = err" "i' = i1" "w' = w1" | "err = CSPCL_OK" "err2 \<noteq> CSPCL_OK" "code = err2" "i' = i3" "w' = w3"
    | "err = CSPCL_OK" "err2 = CSPCL_OK" "code = CSPCL_OK" "i' = ?i" "w' = w2"
    using r o(4) a b c by (auto simp: c_init_def Let_def split: if_splits)
  then have "inst_owns ops i' w' \<and> inst_conns i' = {} \<and> ops w \<subseteq> ops w' \<and> ops w' \<subseteq> ops w \<union> set_option (ci_rx_socket i') \<and>
    (code = CSPCL_OK \<longleftrightarrow> ci_initialized i') \<and> (code = CSPCL_OK \<longleftrightarrow> ci_rx_socket i' \<noteq> None)"
  proof cases
    case 1
    with i1 i1s show ?thesis by auto
  next
    case 2
    with cl op(4) i1 oi(2) show ?thesis by auto
  next
    case 3
    with oi op(1,2) i1 i1s so show ?thesis by auto
  qed
  then show "inst_owns ops i' w'" "inst_conns i' = {}" "ops w \<subseteq> ops w'" "ops w' \<subseteq> ops w \<union> set_option (ci_rx_socket i')"
    "code = CSPCL_OK \<longleftrightarrow> ci_initialized i'" "code = CSPCL_OK \<longleftrightarrow> ci_rx_socket i' \<noteq> None" by blast+
qed

lemma instance_of_start:
  "li_inst (life_start (instance_of (configure config)) g w) = instance_of (configure config)"
  by (simp add: life_start_def instance_of_def configure_def cspcl_t_default_def Let_def split: interface_config.splits)

lemma configured_owns:
  "inst_owns ops (instance_of (configure config)) w" "inst_conns (instance_of (configure config)) = {}"
  "ci_rx_socket (instance_of (configure config)) = None" "\<not> ci_initialized (instance_of (configure config))"
proof -
  have "entries pool_zero = replicate CSPCL_CONN_POOL_SIZE entry_zero" by (simp add: pool_zero_def)
  note p = fresh_pool [OF this, of ops w]
  show "inst_owns ops (instance_of (configure config)) w" "inst_conns (instance_of (configure config)) = {}"
    using p rx_zero_inv by (simp_all add: instance_of_def inst_owns_def inst_conns_def rx_owns_def)
  show "ci_rx_socket (instance_of (configure config)) = None" by (simp add: instance_of_def)
  show "\<not> ci_initialized (instance_of (configure config))"
    by (simp add: instance_of_def configure_def cspcl_t_default_def Let_def split: interface_config.splits)
qed

text \<open>
  C15: the Rust instance over the C core: if \<open>Cspcl::new\<close> fails, nothing is left open, although the Rust
  code does not clean the instance up then. If it succeeds, the instance is initialized with an open
  receive socket, and dropping it after any sequence of sends, receives, accepts, reads from and closes of accepted
  connections, additions to the pool, and openings and closings of the receive socket leaves open only what was open
  before \<open>Cspcl::new\<close>, receive sockets, and the accepted connections that the caller still has (every \<open>AcceptedConn\<close>
  that was not dropped).
\<close>

theorem cspcl_new_and_drop:
  assumes "life_env_ok env ops"
    and "cspcl_new (c_init_of env) local iface (i0, g, w) = (r, i, g', w')"
    and "start = life_start (instance_of (configure \<lparr>cfg_local_addr = addr local, cfg_csp_port = port local,
        cfg_interface = iface\<rparr>)) g w"
  shows "case r of
      Inl e \<Rightarrow> ops w' = ops w
    | Inr c \<Rightarrow> is_initialized c \<and> c_rx_socket c \<and>
        (\<forall>s i2 w2. reach (life_next start i g' w' {}) (life_step env) s \<longrightarrow>
           cspcl_drop (c_cleanup env) (li_inst s) (li_world s) = (i2, w2) \<longrightarrow>
           ops w \<union> li_held s \<subseteq> ops w2 \<and> ops w2 \<subseteq> ops w \<union> li_socks s \<union> li_held s)"
proof -
  let ?c = "\<lparr>cfg_local_addr = addr local, cfg_csp_port = port local, cfg_interface = iface\<rparr>"
  obtain r1 where f: "init_from_config (c_init_of env) ?c (i0, g, w) = (r1, i, g', w')" and r: "r = map_err from_raw r1"
    using assms(2) by (auto simp: cspcl_new_def split: prod.splits)
  obtain code where c: "c_init env (instance_of (configure ?c)) g w = (code, i, g', w')"
    and r1: "r1 = (if code = CSPCL_OK then Inr (cspcl_of i) else Inl code)" by (rule init_from_config_of [OF f])
  note o = c_init_outcome [OF assms(1) configured_owns c]
  have st: "li_inst start = instance_of (configure ?c)" "li_globals start = g" "li_world start = w"
    using instance_of_start [of ?c g w] by (simp_all add: assms(3)) (simp_all add: life_start_def)
  have "li_held start = {}" by (simp add: assms(3) life_start_def)
  then have "reach start (life_step env) (life_next start i g' w' {})"
    using life_init [of env start code i g' w'] c by (simp add: st reach_step [OF reach_init])
  then have inv: "life_ok ops (ops w) s" if "reach (life_next start i g' w' {}) (life_step env) s" for s
    using life.inv_reach [of _ g w env s ops] that reach_trans assms(1) unfolding assms(3) life_inv_def by metis
  have "ops w \<union> li_held s \<subseteq> ops w2 \<and> ops w2 \<subseteq> ops w \<union> li_socks s \<union> li_held s"
    if s: "reach (life_next start i g' w' {}) (life_step env) s"
      and d: "cspcl_drop (c_cleanup env) (li_inst s) (li_world s) = (i2, w2)"
    for s i2 w2
  proof -
    have cl: "c_cleanup env (li_inst s) (li_world s) = (i2, w2)" using d by (simp add: cspcl_drop_def sys_cleanup_def prim_defs)
    note v = inv [OF s, unfolded life_ok_def]
    show ?thesis using inst_cleanup(3) [OF assms(1) conjunct1 [OF v] cl] v by blast
  qed
  then show ?thesis
    using o(3-6) unfolding r r1 by (auto simp: is_initialized_def cspcl_of_def)
qed

theorem cspcl_new_and_drop_witness:
  "\<exists>c i g' w'. cspcl_new (c_init_of life_env) (CspAddress 5 10) Loopback (loop_instance 10, life_globals, life_world) =
       (Inr c, i, g', w') \<and> is_initialized c \<and> c_rx_socket c \<and>
     rw_conns (snd (cspcl_drop (c_cleanup life_env) i w')) \<subseteq> {0}"
proof -
  let ?c = "\<lparr>cfg_local_addr = 5, cfg_csp_port = 10, cfg_interface = Loopback\<rparr>"
  let ?start = "life_start (instance_of (configure ?c)) life_globals life_world"
  obtain i g' w' where i: "c_init life_env (instance_of (configure ?c)) life_globals life_world = (CSPCL_OK, i, g', w')"
      "ci_rx_socket i = Some 0"
    by (simp add: instance_of_def configure_def cspcl_t_default_def c_init_def init_instance_def conn_pool_init_def
        life_env_def rx_sample_defs life_globals_def life_world_def start_stack_def start_iface_def open_rx_socket_def rx_of_def)
  have n: "cspcl_new (c_init_of life_env) (CspAddress 5 10) Loopback (loop_instance 10, life_globals, life_world) =
      (Inr (cspcl_of i), i, g', w')"
    by (simp add: cspcl_new_def init_from_config_def sys_init_instance_def prim_init_def c_init_of_def i ok_or_err_def)
  have e: "rw_conns life_world = {}" by (simp add: rw_conns_def life_world_def)
  obtain i2 w2 where d: "cspcl_drop (c_cleanup life_env) i w' = (i2, w2)" by fastforce
  have k: "li_socks (life_next ?start i g' w' {}) = {0}" by (simp add: i(2)) (simp add: life_start_def)
  have t: "is_initialized (cspcl_of i) \<and> c_rx_socket (cspcl_of i) \<and>
      (\<forall>s i2 w2. reach (life_next ?start i g' w' {}) (life_step life_env) s \<longrightarrow>
         cspcl_drop (c_cleanup life_env) (li_inst s) (li_world s) = (i2, w2) \<longrightarrow>
         rw_conns life_world \<union> li_held s \<subseteq> rw_conns w2 \<and> rw_conns w2 \<subseteq> rw_conns life_world \<union> li_socks s \<union> li_held s)"
    using cspcl_new_and_drop [OF life_env_sel n refl] by simp
  from t [THEN conjunct2, THEN conjunct2, rule_format, OF reach_init, of i2 w2] d k e
  have "rw_conns w2 \<subseteq> {0}" by simp
  with t n d show ?thesis by (intro exI [of _ "cspcl_of i"] exI [of _ i] exI [of _ g'] exI [of _ w']) simp
qed

section \<open>Well-formed instances\<close>

text \<open>No call changes the interface names of an instance.\<close>

definition same_names :: "c_instance \<Rightarrow> c_instance \<Rightarrow> bool" where
  "same_names i i' \<longleftrightarrow> ci_zmqhub_addr i' = ci_zmqhub_addr i \<and> ci_can_iface i' = ci_can_iface i"

lemma same_names_release: "release_conn_pool env i w = (i', w') \<Longrightarrow> same_names i i'"
  by (auto simp: release_conn_pool_def same_names_def split: prod.splits)

lemma same_names_cleanup: "c_cleanup env i w = (i', w') \<Longrightarrow> same_names i i'"
  by (auto simp: c_cleanup_def same_names_def release_conn_pool_def Let_def split: prod.splits)

lemma same_names_start: "start_stack env i g w = (code, i', g', w') \<Longrightarrow> same_names i i'"
proof -
  have "same_names j j'" if "start_iface env j v = (c, j', v')" for j v c j' v'
    using that by (auto simp: start_iface_def same_names_def Let_def split: if_splits prod.splits)
  then show "start_stack env i g w = (code, i', g', w') \<Longrightarrow> same_names i i'"
    by (auto simp: start_stack_def Let_def split: if_splits prod.splits) (auto simp: same_names_def)
qed

lemma same_names_init: "c_init env i g w = (code, i', g', w') \<Longrightarrow> same_names i i'"
proof -
  assume r: "c_init env i g w = (code, i', g', w')"
  have n: "same_names i i1" if "init_instance env i g w = (e, i1, g1, w1)" for e i1 g1 w1
    using that by (auto simp: init_instance_def join_stack_def Let_def split: if_splits prod.splits
        dest!: same_names_start same_names_release) (simp_all add: same_names_def)
  show ?thesis
    using r by (auto simp: c_init_def Let_def split: if_splits prod.splits dest!: n same_names_cleanup)
      (simp_all add: same_names_def)
qed

lemma same_names_recv:
  "c_recv_bundle env buf len sa sp timeout (i, g, w) = (code, buf', len', sa', sp', i', g', w') \<Longrightarrow> same_names i i'"
proof -
  have p: "same_names i i'" if "rx_poll env t k ks buf sa sp i w = (code, buf', len', sa', sp', i', w')"
    for t k ks buf sa sp i w code buf' len' sa' sp' i' w'
    using that
  proof (induction ks arbitrary: buf sa sp i w)
    case (Cons k ks)
    then show ?case by (auto simp: Let_def split: if_splits prod.splits dest!: Cons.IH) (simp_all add: same_names_def)
  qed (simp add: same_names_def)
  have s: "same_names j j'" if "rx_table_store env h na np j v = (j', v')" for h na np j v j' v'
    using that by (auto simp: rx_table_store_def same_names_def Let_def split: prod.splits)
  show "c_recv_bundle env buf len sa sp timeout (i, g, w) = (code, buf', len', sa', sp', i', g', w') \<Longrightarrow> same_names i i'"
    by (auto simp: c_recv_bundle_def Let_def split: if_splits prod.splits dest!: s p) (simp_all add: same_names_def)
qed

interpretation names: invariant_system "life_start i g w" "life_step env" "\<lambda>s. same_names i (li_inst s)" for i g w env
proof
  show "same_names i (li_inst (life_start i g w))" by (simp add: same_names_def life_start_def)
  show "same_names i (li_inst t)" if "life_step env s t" "same_names i (li_inst s)" for s t
    using that by (induction rule: life_step.induct)
      (auto dest!: same_names_init same_names_recv same_names_cleanup same_names_release simp: same_names_def)
qed

text \<open>The arrays of a configured instance: 64 bytes with a zero at the end.\<close>

lemma configured_names:
  assumes "arr = ci_zmqhub_addr (instance_of (configure config)) \<or> arr = ci_can_iface (instance_of (configure config))"
  shows "length arr = CSP_IFACE_PARAM_MAX \<and> last arr = 0"
proof -
  have z: "length (replicate CSP_IFACE_PARAM_MAX (0 :: u8)) = CSP_IFACE_PARAM_MAX" "last (replicate CSP_IFACE_PARAM_MAX (0 :: u8)) = 0"
    by (simp_all add: CSP_IFACE_PARAM_MAX_def last_conv_nth)
  have "length (copy_c_string CSP_IFACE_PARAM_MAX s) = CSP_IFACE_PARAM_MAX \<and> last (copy_c_string CSP_IFACE_PARAM_MAX s) = 0" for s
    using copy_c_string_terminated [of CSP_IFACE_PARAM_MAX s] by (simp add: CSP_IFACE_PARAM_MAX_def)
  with z assms show ?thesis
    by (auto simp: instance_of_def configure_def cspcl_t_default_def Let_def split: interface_config.splits)
qed

text \<open>
  C32: an instance configured by the Rust code stays well-formed over any sequence of the calls of \<open>life_step\<close> (starting, sending,
  receiving, accepting, adding connections to the pool, cleaning it up, opening and closing the socket, stopping): the pool has
  16 entries and the table 8, in which exactly the used ones have a connection, and both interface
  names are arrays of 64 bytes that end with a zero, so that C reads them as strings.
\<close>

theorem instance_well_formed:
  assumes "life_env_ok env ops" and "reach (life_start (instance_of (configure config)) g w) (life_step env) s"
  shows "length (entries (ci_pool (li_inst s))) = 16 \<and> length (ci_rx_conns (li_inst s)) = 8 \<and>
    (\<forall>e \<in> set (entries (ci_pool (li_inst s))). used e \<longleftrightarrow> conn e \<noteq> None) \<and>
    (\<forall>e \<in> set (ci_rx_conns (li_inst s)). re_used e \<longleftrightarrow> re_conn e \<noteq> None) \<and>
    length (ci_zmqhub_addr (li_inst s)) = 64 \<and> last (ci_zmqhub_addr (li_inst s)) = 0 \<and>
    length (ci_can_iface (li_inst s)) = 64 \<and> last (ci_can_iface (li_inst s)) = 0"
proof -
  have o: "inst_owns ops (li_inst s) (li_world s)"
    using life.inv_reach [OF assms(2), of ops] assms(1) by (simp add: life_inv_def life_ok_def)
  then have p: "pool_inv (ci_pool (li_inst s))" and t: "rx_table_inv (ci_rx_conns (li_inst s))"
    by (simp_all add: inst_owns_def pool_owns_def rx_owns_def)
  have "\<forall>e \<in> set (entries (ci_pool (li_inst s))). used e \<longleftrightarrow> conn e \<noteq> None"
    using p by (metis in_set_conv_nth pool_invD(1,5))
  moreover have n: "same_names (instance_of (configure config)) (li_inst s)" by (rule names.inv_reach [OF assms(2)])
  moreover have "CSP_IFACE_PARAM_MAX = 64" "CSPCL_CONN_POOL_SIZE = 16" "RX_TABLE_SIZE = 8"
    by (simp_all add: CSP_IFACE_PARAM_MAX_def CSPCL_CONN_POOL_SIZE_def RX_TABLE_SIZE_def)
  ultimately show ?thesis
    using pool_invD(1) [OF p] t configured_names unfolding rx_table_inv_def same_names_def by metis
qed

theorem instance_well_formed_witness:
  "\<exists>s. reach (life_start (instance_of (configure \<lparr>cfg_local_addr = 5, cfg_csp_port = 10, cfg_interface = Can ''vcan0''\<rparr>))
       life_globals life_world) (life_step life_env) s \<and>
     length (entries (ci_pool (li_inst s))) = 16 \<and> last (ci_can_iface (li_inst s)) = 0"
proof -
  let ?s0 = "life_start (instance_of (configure \<lparr>cfg_local_addr = 5, cfg_csp_port = 10, cfg_interface = Can ''vcan0''\<rparr>))
       life_globals life_world"
  obtain code i g w where i: "c_init life_env (li_inst ?s0) (li_globals ?s0) (li_world ?s0) = (code, i, g, w)"
    by (metis prod_cases4)
  have r: "reach ?s0 (life_step life_env) (life_next ?s0 i g w (li_held ?s0))"
    by (rule reach_step, rule reach_init, rule life_init [OF i])
  from instance_well_formed [OF life_env_sel this] r show ?thesis by blast
qed

end
