(* ===== verification/RecvBundle.thy ===== *)
theory RecvBundle
  imports CRxTable SysTypes
begin

text \<open>
  \<open>recv_bundle\<close> of the crate \<open>cspcl-sys\<close> over \<open>cspcl_recv_bundle\<close> of the C core: the Rust side slices the
  buffer at the length that C reports, so the length must never pass the buffer.
\<close>

section \<open>What the C core leaves in the buffer\<close>

text \<open>The data of \<open>csp_sfp_recv\<close> has the size it reports.\<close>

definition sfp_sizes :: "('w, 'm) recv_env_scheme \<Rightarrow> bool" where
  "sfp_sizes env \<longleftrightarrow>
     (\<forall>h t w ret bytes n w'. csp_sfp_recv env h t w = ((ret, Some bytes, n), w') \<longrightarrow> n \<le> int (length bytes))"

text \<open>The buffer and the source of a read from one connection.\<close>

lemma recv_from_conn_data:
  assumes "sfp_sizes env" and "recv_from_conn_timeout env c buf len sa sp pa pp t w = (code, buf', len', sa', sp', w')"
  shows "if code = CSPCL_OK
    then sa' = pa \<and> sp' = pp \<and> (\<exists>h bytes n v. c = Some h \<and> csp_sfp_recv env h t w = ((csp_err_none env, Some bytes, n), v) \<and>
      0 < n \<and> nat n \<le> len \<and> nat n \<le> length bytes \<and> len' = nat n \<and> buf' = take (nat n) bytes @ drop (nat n) buf)
    else buf' = buf"
proof (cases c)
  case None
  with assms(2) show ?thesis by (auto simp: recv_from_conn_timeout_def)
next
  case (Some h)
  obtain ret d n v where f: "csp_sfp_recv env h t w = ((ret, d, n), v)" by (metis surj_pair)
  have "d = Some bytes \<Longrightarrow> n \<le> int (length bytes)" for bytes using assms(1) f unfolding sfp_sizes_def by blast
  then show ?thesis
    using assms(2) Some f by (auto simp: recv_from_conn_timeout_def Let_def split: option.splits if_splits prod.splits)
qed

text \<open>
  A bundle that the core reports: SFP reassembled it on a connection of the table, it is at the start
  of the buffer, and its source is the peer of that connection.
\<close>

definition received_from ::
  "('w, 'm) recv_env_scheme \<Rightarrow> c_instance \<Rightarrow> u8 list \<Rightarrow> u8 \<Rightarrow> u8 \<Rightarrow> bool" where
  "received_from env i bundle sa sp \<longleftrightarrow>
     (\<exists>e h t bytes n v v'. e \<in> set (ci_rx_conns i) \<and> of_peer sa sp e \<and> re_conn e = Some h \<and>
        csp_sfp_recv env h t v = ((csp_err_none env, Some bytes, n), v') \<and> bundle = take (nat n) bytes \<and> bundle \<noteq> [])"

lemma rx_poll_data:
  assumes env: "sfp_sizes env"
  shows "rx_poll env t len ks buf sa sp i w = (CSPCL_OK, buf', len', sa', sp', i', w') \<Longrightarrow> len \<le> length buf \<Longrightarrow>
    set ks \<subseteq> {..<length (ci_rx_conns i)} \<Longrightarrow>
    length buf' = length buf \<and> len' \<le> length buf \<and> received_from env i' (take len' buf') sa' sp'"
proof (induction ks arbitrary: buf sa sp i w)
  case (Cons k ks)
  let ?e = "ci_rx_conns i ! k"
  have k: "k < length (ci_rx_conns i)" and ks: "set ks \<subseteq> {..<length (ci_rx_conns i)}" using Cons.prems(3) by auto
  obtain err b1 l1 s1 p1 w1 where rc: "recv_from_conn_timeout env (re_conn ?e) buf len sa sp (re_src_addr ?e)
      (re_src_port ?e) t w = (err, b1, l1, s1, p1, w1)" by (metis prod_cases6)
  note rs = recv_from_conn_data [OF env rc]
  show ?case
  proof (cases "re_used ?e \<and> err = CSPCL_OK")
    case True
    let ?e' = "?e\<lparr>re_last_active := ci_rx_tick i + 1\<rparr>"
    obtain h bytes n v' where h: "re_conn ?e = Some h" "csp_sfp_recv env h t w = ((csp_err_none env, Some bytes, n), v')"
      "0 < n" "nat n \<le> len" "nat n \<le> length bytes" "l1 = nat n" "b1 = take (nat n) bytes @ drop (nat n) buf"
      using rs True by auto
    have eq: "buf' = b1" "len' = l1" "sa' = re_src_addr ?e" "sp' = re_src_port ?e"
      "ci_rx_conns i' = (ci_rx_conns i)[k := ?e']"
      using Cons.prems(1) True rc rs by (auto simp: Let_def)
    have "?e' \<in> set (ci_rx_conns i')" "of_peer sa' sp' ?e'" "re_conn ?e' = Some h"
      using k True h(1) eq by (simp_all add: set_update_memI of_peer_def)
    moreover have "take len' buf' = take (nat n) bytes" "take (nat n) bytes \<noteq> []" "length buf' = length buf" "len' \<le> length buf"
      using h Cons.prems(2) eq by auto
    ultimately show ?thesis unfolding received_from_def using h(2) by metis
  next
    case False
    then have "\<not> re_used ?e \<or> re_used ?e \<and> err \<noteq> CSPCL_OK \<and> b1 = buf" using rs by (simp split: if_splits)
    then consider "\<not> re_used ?e" | "re_used ?e" "err = CSPCL_ERR_TIMEOUT" "b1 = buf"
      | "re_used ?e" "err \<noteq> CSPCL_OK" "err \<noteq> CSPCL_ERR_TIMEOUT" "b1 = buf" by blast
    then have "\<exists>j v s p. rx_poll env t len ks buf s p j v = (CSPCL_OK, buf', len', sa', sp', i', w') \<and>
        length (ci_rx_conns j) = length (ci_rx_conns i)"
      using Cons.prems(1) rc by cases (force simp: Let_def)+
    with Cons.IH [of buf] Cons.prems(2) ks show ?thesis by metis
  qed
qed simp

lemma rx_table_store_length:
  "rx_table_store env h sa sp i w = (i', w') \<Longrightarrow> length (ci_rx_conns i') = length (ci_rx_conns i)"
  by (auto simp: rx_table_store_def Let_def split: prod.splits)

lemma c_recv_bundle_data:
  assumes env: "sfp_sizes env" and len: "len \<le> length buf" and tab: "length (ci_rx_conns i) = RX_TABLE_SIZE"
    and r: "c_recv_bundle env buf len sa sp timeout (i, g, w) = (CSPCL_OK, buf', len', sa', sp', i', g', w')"
  shows "length buf' = length buf" "len' \<le> length buf" "received_from env i' (take len' buf') sa' sp'"
proof -
  let ?t = "if timeout = 0 then CSPCL_CSP_TIMEOUT_MS else timeout"
  let ?a = "accept_timeout ?t (live_count (ci_rx_conns i))"
  obtain err c na np s rg w1 where acc: "c_accept_conn env None 0 0 ?a (rx_of i, g_rx g, w) = (err, c, na, np, s, rg, w1)"
    by (metis prod_cases7)
  let ?i = "i\<lparr>ci_rx_socket := rx_socket s\<rparr>"
  obtain i2 w2 where st: "(if err = CSPCL_OK then rx_table_store env (the c) na np ?i w1 else (?i, w1)) = (i2, w2)" by fastforce
  obtain code3 b3 l3 a3 p3 i3 w3 where po: "rx_poll env (read_timeout ?t ?a (live_count (ci_rx_conns i2))) len
      (poll_order (ci_rx_tick i2)) buf sa sp i2 w2 = (code3, b3, l3, a3, p3, i3, w3)" by (metis prod_cases7)
  have eq: "code3 = CSPCL_OK" "buf' = b3" "len' = l3" "sa' = a3" "sp' = p3" "i' = i3"
    using r acc st po by (auto simp: c_recv_bundle_def Let_def split: if_splits)
  have "length (ci_rx_conns i2) = RX_TABLE_SIZE"
    using st tab rx_table_store_length [of env "the c" na np ?i w1] by (auto split: if_splits)
  with rx_poll_data [OF env po [unfolded eq(1)] len] poll_order_once(2) [of "ci_rx_tick i2"] eq
  show "length buf' = length buf" "len' \<le> length buf" "received_from env i' (take len' buf') sa' sp'" by simp_all
qed

section \<open>The Rust wrapper\<close>

text \<open>
  C17: a bundle received through \<open>recv_bundle\<close> can be read: its length is within the buffer, so \<open>data()\<close>
  never panics, and gives a bundle that SFP reassembled on a connection of the table, from the
  peer the bundle names. The caller's buffer keeps its size.
\<close>

theorem received_data_complete:
  assumes "sfp_sizes env" and "length (ci_rx_conns i) = RX_TABLE_SIZE"
    and "recv_bundle (c_recv_bundle env) buffer timeout (i, g, w) = (Inr rb, buffer', i', g', w')"
  shows "\<exists>bundle. received_bundle_data rb = Returns bundle \<and> length bundle = rb_len rb \<and>
    length buffer' = length buffer \<and> received_from env i' bundle (rb_src_addr rb) (rb_src_port rb)"
proof -
  obtain code len sa sp where c: "c_recv_bundle env buffer (length buffer) 0 0 timeout (i, g, w) =
      (code, buffer', len, sa, sp, i', g', w')" and ok: "code = CSPCL_OK"
    and rb: "rb = \<lparr>rb_buffer = buffer', rb_len = len, rb_src_addr = sa, rb_src_port = sp\<rparr>"
    using assms(3) by (auto simp: recv_bundle_def prim_defs ok_or_err_def split: prod.splits if_splits)
  note d = c_recv_bundle_data [OF assms(1) order_refl assms(2) c [unfolded ok]]
  then show ?thesis by (simp add: rb received_bundle_data_def slice_to_def)
qed

theorem received_data_complete_witness:
  "\<exists>rb buffer' i' g' w'. recv_bundle (c_recv_bundle rx_sample_env) [0, 0, 0] 200
       (rx_sample_instance, rx_sample_globals, rx_sample_world) = (Inr rb, buffer', i', g', w') \<and>
     received_bundle_data rb = Returns [7, 8] \<and> received_from rx_sample_env i' [7, 8] 5 60"
proof -
  have env: "sfp_sizes rx_sample_env" by (auto simp: sfp_sizes_def rx_sample_defs split: list.splits)
  have tab: "length (ci_rx_conns rx_sample_instance) = RX_TABLE_SIZE"
    by (simp add: rx_sample_instance_def loop_instance_def rx_zero_def RX_TABLE_SIZE_def)
  obtain i' g' w' where r: "c_recv_bundle rx_sample_env [0, 0, 0] 3 0 0 200
      (rx_sample_instance, rx_sample_globals, rx_sample_world) = (CSPCL_OK, [7, 8, 0], 2, 5, 60, i', g', w')"
    by (rule rx_sample_run)
  let ?rb = "\<lparr>rb_buffer = [7, 8, 0], rb_len = 2, rb_src_addr = 5, rb_src_port = 60\<rparr> :: received_bundle"
  have "recv_bundle (c_recv_bundle rx_sample_env) [0, 0, 0] 200 (rx_sample_instance, rx_sample_globals, rx_sample_world) =
      (Inr ?rb, [7, 8, 0], i', g', w')"
    using r by (simp add: recv_bundle_def prim_defs ok_or_err_def numeral_3_eq_3 [symmetric])
  with received_data_complete [OF env tab this] show ?thesis by (auto simp: received_bundle_data_def slice_to_def)
qed

end
