(* ===== verification/EndToEnd.thy ===== *)
theory EndToEnd
  imports CDelivery "HOL-Library.Sublist"
begin

text \<open>
  Delivery from one end to the other: the sender is the instance of the crate \<open>cspcl\<close> over the C core, and
  the peer reads the connection with \<open>recv_bundle_from_conn\<close> over the C core. libcsp is a parameter of both.
  What the peer does is followed through its calls of libcsp, so that the sender may look at any moment of
  it: the acknowledgement of a bundle leaves before the receive call that returns the bundle has ended.
\<close>

section \<open>The log of a connection on the peer's side\<close>

text \<open>SFP has handed over a bundle, or a packet was sent.\<close>

datatype peer_event = Took "u8 list" | Acked

fun taken_in :: "peer_event list \<Rightarrow> u8 list list" where
  "taken_in [] = []"
| "taken_in (Took b # q) = b # taken_in q"
| "taken_in (Acked # q) = taken_in q"

fun acks_in :: "peer_event list \<Rightarrow> nat" where
  "acks_in [] = 0"
| "acks_in (Took b # q) = acks_in q"
| "acks_in (Acked # q) = Suc (acks_in q)"

lemma in_append [simp]: "taken_in (q @ q') = taken_in q @ taken_in q'" "acks_in (q @ q') = acks_in q + acks_in q'"
  by (induction q rule: taken_in.induct) simp_all

text \<open>
  \<open>clog\<close> is the log of the connection \<open>h\<close> as libcsp sees it: an SFP read on it that succeeds adds the bundle
  it hands over, and sending a packet on it that succeeds adds the packet. Other calls, and calls for other
  connections, leave it alone, as each connection is read by one thread. The data of an SFP read has the size it reports.
\<close>

definition log_ok :: "('w, 'm) recv_env_scheme \<Rightarrow> conn \<Rightarrow> ('w \<Rightarrow> peer_event list) \<Rightarrow> bool" where
  "log_ok env h clog \<longleftrightarrow>
     (\<forall>g t w ret d n w'. csp_sfp_recv env g t w = ((ret, d, n), w') \<longrightarrow>
        (\<forall>bytes. d = Some bytes \<longrightarrow> n \<le> int (length bytes)) \<and>
        clog w' = clog w @ (case d of
            Some bytes \<Rightarrow> if g = h \<and> ret = csp_err_none env then [Took (take (nat n) bytes)] else []
          | None \<Rightarrow> [])) \<and>
     (\<forall>bytes w. clog (csp_free env bytes w) = clog w) \<and>
     (\<forall>n w r w'. csp_buffer_get env n w = (r, w') \<longrightarrow> clog w' = clog w) \<and>
     (\<forall>pk w. clog (csp_buffer_free env pk w) = clog w) \<and>
     (\<forall>g pk t w ok w'. csp_send env g pk t w = (ok, w') \<longrightarrow> clog w' = clog w @ (if ok \<and> g = h then [Acked] else []))"

lemma log_okD:
  assumes "log_ok env h clog"
  shows "csp_sfp_recv env g t w = ((ret, Some bytes, n), w') \<Longrightarrow> n \<le> int (length bytes)"
    "csp_sfp_recv env g t w = ((ret, d, n), w') \<Longrightarrow> clog w' = clog w @ (case d of
        Some bytes \<Rightarrow> if g = h \<and> ret = csp_err_none env then [Took (take (nat n) bytes)] else [] | None \<Rightarrow> [])"
    "clog (csp_free env bytes w) = clog w" "csp_buffer_get env k w = (b, w') \<Longrightarrow> clog w' = clog w"
    "clog (csp_buffer_free env bytes w) = clog w"
    "csp_send env g bytes t w = (ok, w') \<Longrightarrow> clog w' = clog w @ (if ok \<and> g = h then [Acked] else [])"
  using assms unfolding log_ok_def by metis+

lemma send_ack_log:
  assumes env: "log_ok env h clog" and r: "send_ack env g w = (ret, w')"
  shows "clog w' = clog w \<or> g = h \<and> clog w' = clog w @ [Acked]"
proof -
  obtain b w1 where b: "csp_buffer_get env 1 w = (b, w1)" by fastforce
  obtain ok w2 where s: "csp_send env g [CSPCL_ACK_MAGIC] CSPCL_CSP_TIMEOUT_MS w1 = (ok, w2)" by fastforce
  show ?thesis
    using log_okD(4) [OF env b] log_okD(6) [OF env s] log_okD(5) [OF env] r b s
    by (cases b) (auto simp: send_ack_def split: if_splits)
qed

text \<open>
  What a read adds to the log of its connection: nothing, a bundle that it does not return, or the bundle it
  returns and then, at most, one packet.
\<close>

lemma recv_from_conn_log:
  assumes env: "log_ok env h clog"
    and r: "recv_from_conn_timeout env c buf len sa sp pa pp t w = (code, buf', len', sa', sp', w')"
  shows "if c \<noteq> Some h then clog w' = clog w
    else if code = CSPCL_OK
    then clog w' = clog w @ [Took (take len' buf')] \<or> clog w' = clog w @ [Took (take len' buf'), Acked]
    else clog w' = clog w \<or> (\<exists>b. clog w' = clog w @ [Took b])"
    "code = CSPCL_OK \<Longrightarrow> len' \<le> length buf'"
proof -
  have "(if c \<noteq> Some h then clog w' = clog w
    else if code = CSPCL_OK
    then clog w' = clog w @ [Took (take len' buf')] \<or> clog w' = clog w @ [Took (take len' buf'), Acked]
    else clog w' = clog w \<or> (\<exists>b. clog w' = clog w @ [Took b])) \<and>
    (code = CSPCL_OK \<longrightarrow> len' \<le> length buf')"
  proof (cases c)
    case None
    with r show ?thesis by (auto simp: recv_from_conn_timeout_def)
  next
    case (Some g)
    obtain ret d n w1 where f: "csp_sfp_recv env g t w = ((ret, d, n), w1)" by (metis surj_pair)
    note f1 = log_okD(2) [OF env f] and fr = log_okD(3) [OF env]
    show ?thesis
    proof (cases "ret = csp_err_none env \<and> (\<exists>bytes. d = Some bytes) \<and> 0 < n \<and> nat n \<le> len")
      case True
      then obtain bytes where d: "d = Some bytes" by blast
      obtain ret' w3 where s: "send_ack env g (csp_free env bytes w1) = (ret', w3)" by fastforce
      have "n \<le> int (length bytes)" using log_okD(1) [OF env] f d by blast
      with send_ack_log [OF env s] r Some f True d s f1 fr show ?thesis by (auto simp: recv_from_conn_timeout_def)
    next
      case False
      with r Some f f1 fr show ?thesis
        by (auto simp: recv_from_conn_timeout_def Let_def split: option.splits if_splits prod.splits)
    qed
  qed
  then show "if c \<noteq> Some h then clog w' = clog w
    else if code = CSPCL_OK
    then clog w' = clog w @ [Took (take len' buf')] \<or> clog w' = clog w @ [Took (take len' buf'), Acked]
    else clog w' = clog w \<or> (\<exists>b. clog w' = clog w @ [Took b])"
    "code = CSPCL_OK \<Longrightarrow> len' \<le> length buf'" by blast+
qed

section \<open>The receive calls of the peer\<close>

text \<open>The bundles that the calls return from a connection, in order.\<close>

fun returned_on :: "conn \<Rightarrow> (conn accepted_conn \<times> bp_bundle cresult outcome) list \<Rightarrow> u8 list list" where
  "returned_on h [] = []"
| "returned_on h ((c, out) # outs) =
     (case out of
        Returns (Inr b) \<Rightarrow> if ac_conn c = Some h then data b # returned_on h outs else returned_on h outs
      | _ \<Rightarrow> returned_on h outs)"

lemma returned_on_Cons: "returned_on h (x # outs) = returned_on h [x] @ returned_on h outs"
  by (cases x) (simp split: outcome.splits sum.splits)

lemma recv_call_log:
  assumes env: "log_ok env h clog"
    and r: "recv_bundle_from_conn (c_recv_bundle_from_conn env) c buffer w = (out, buffer', w')"
  obtains seg where "clog w' = clog w @ seg"
    "case returned_on h [(c, out)] of
       [] \<Rightarrow> seg = [] \<or> (\<exists>b. seg = [Took b])
     | b # _ \<Rightarrow> returned_on h [(c, out)] = [b] \<and> (seg = [Took b] \<or> seg = [Took b, Acked])"
proof -
  obtain code buf' len' sa sp v where c: "recv_from_conn_timeout env (ac_conn c) buffer (length buffer) 0 0
      (ac_src_addr c) (ac_src_port c) C_SFP_TIMEOUT_MS w = (code, buf', len', sa, sp, v)" by (metis prod_cases6)
  note l = recv_from_conn_log [OF env c]
  have out: "v = w'" "code = CSPCL_OK \<Longrightarrow> \<exists>b. out = Returns (Inr b) \<and> data b = take len' buf'"
    "code \<noteq> CSPCL_OK \<Longrightarrow> \<exists>e. out = Returns (Inl e)"
    using r c l(2) by (auto simp: recv_bundle_from_conn_def recv_bundle_from_conn_into_def prim_defs
        c_recv_bundle_from_conn_def ok_or_err_def slice_to_def split: if_splits)
  show thesis
  proof (cases "code = CSPCL_OK")
    case True
    then obtain b where b: "out = Returns (Inr b)" "data b = take len' buf'" using out(2) by blast
    show thesis using that l(1) True b out(1) by (cases "ac_conn c = Some h") auto
  next
    case False
    then show thesis using that l(1) out(1,3) by (cases "ac_conn c = Some h") auto
  qed
qed

text \<open>The log at a moment of a call: what was acknowledged by then is what the call returns.\<close>

lemma recv_call_moment:
  assumes "case returned_on h [(c, out)] of
       [] \<Rightarrow> seg = [] \<or> (\<exists>b. seg = [Took b])
     | b # _ \<Rightarrow> returned_on h [(c, out)] = [b] \<and> (seg = [Took b] \<or> seg = [Took b, Acked])"
    and "seg = q @ rest"
  obtains r where "prefix r (returned_on h [(c, out)])" "subseq r (taken_in q)" "acks_in q \<le> length r"
    "rest = [] \<Longrightarrow> r = returned_on h [(c, out)]"
proof -
  let ?R = "returned_on h [(c, out)]"
  have seg: "(\<exists>b. ?R = [b] \<and> (seg = [Took b] \<or> seg = [Took b, Acked])) \<or> ?R = [] \<and> (seg = [] \<or> (\<exists>b. seg = [Took b]))"
    using assms(1) by (auto split: list.splits)
  consider "rest = []" | "rest \<noteq> []" "acks_in q = 0" using assms(2) seg by (auto simp: append_eq_Cons_conv)
  then show thesis
  proof cases
    case 1
    with assms(2) seg have "subseq ?R (taken_in q)" "acks_in q \<le> length ?R" by auto
    then show thesis by (intro that [of ?R]) simp_all
  next
    case 2
    then show thesis by (intro that [of "[]"]) simp_all
  qed
qed

lemma recv_run_log:
  assumes "log_ok env h clog"
  shows "recv_run env calls w = (outs, w') \<Longrightarrow> \<exists>seg. clog w' = clog w @ seg"
proof (induction calls arbitrary: w outs)
  case (Cons call calls)
  obtain c buffer where call: "call = (c, buffer)" by fastforce
  obtain out buf' w1 where r: "recv_bundle_from_conn (c_recv_bundle_from_conn env) c buffer w = (out, buf', w1)"
    by (metis prod_cases3)
  obtain seg where "clog w1 = clog w @ seg" by (rule recv_call_log [OF assms r])
  with Cons call r show ?case by (auto split: prod.splits) (metis append.assoc)
qed simp

text \<open>The log at a moment of a sequence of calls, by the calls before it and the one it falls into.\<close>

lemma recv_run_moment:
  assumes "log_ok env h clog" and "recv_run env calls w = (outs, w')" and "clog w' = clog w @ q @ rest"
  shows "\<exists>r. prefix r (returned_on h outs) \<and> subseq r (taken_in q) \<and> acks_in q \<le> length r"
  using assms(2,3)
proof (induction calls arbitrary: w outs q)
  case Nil
  then show ?case by simp
next
  case (Cons call calls)
  obtain c buffer where call: "call = (c, buffer)" by fastforce
  obtain out buf' w1 where r: "recv_bundle_from_conn (c_recv_bundle_from_conn env) c buffer w = (out, buf', w1)"
    by (metis prod_cases3)
  obtain more where run: "recv_run env calls w1 = (more, w')" and outs: "outs = (c, out) # more"
    using Cons.prems(1) call r by (auto split: prod.splits)
  obtain seg where seg: "clog w1 = clog w @ seg" "case returned_on h [(c, out)] of
       [] \<Rightarrow> seg = [] \<or> (\<exists>b. seg = [Took b])
     | b # _ \<Rightarrow> returned_on h [(c, out)] = [b] \<and> (seg = [Took b] \<or> seg = [Took b, Acked])"
    by (rule recv_call_log [OF assms(1) r])
  obtain seg2 where "clog w' = clog w1 @ seg2" using recv_run_log [OF assms(1) run] by blast
  with Cons.prems(2) seg(1) have eq: "q @ rest = seg @ seg2" by simp
  note R = returned_on_Cons [of h "(c, out)" more, folded outs]
  from eq consider (later) q2 where "q = seg @ q2" "seg2 = q2 @ rest" | (within) us where "seg = q @ us"
    by (auto simp: append_eq_append_conv2)
  then show ?case
  proof cases
    case later
    obtain r1 where r1: "subseq r1 (taken_in seg)" "acks_in seg \<le> length r1" "r1 = returned_on h [(c, out)]"
      by (rule recv_call_moment [OF seg(2), of seg "[]"]) simp_all
    obtain r2 where "prefix r2 (returned_on h more)" "subseq r2 (taken_in q2)" "acks_in q2 \<le> length r2"
      using Cons.IH [OF run, of q2] \<open>clog w' = clog w1 @ seg2\<close> later(2) by auto
    with r1 show ?thesis by (intro exI [of _ "r1 @ r2"]) (auto simp: R later(1) intro: list_emb_append_mono)
  next
    case within
    obtain r1 where "prefix r1 (returned_on h [(c, out)])" "subseq r1 (taken_in q)" "acks_in q \<le> length r1"
      by (rule recv_call_moment [OF seg(2) within])
    then show ?thesis by (intro exI [of _ r1]) (auto simp: R intro: prefix_prefix)
  qed
qed

text \<open>
  C3: what an acknowledgement of the peer means. Take any sequence of receive calls and any moment of it,
  in the middle of a call too, as the log \<open>q\<close> of a connection shows it. The bundles that the calls return
  from the connection, the call in progress included, start with at least as many as packets were sent on
  it by that moment, and SFP had handed these over by then, in that order: every acknowledgement stands for a
  bundle of its own that was received before it and that a call returns, once the call in progress has ended.
\<close>

theorem acks_follow_receipt:
  assumes "log_ok env h clog" and "recv_run env calls w = (outs, w')" and "clog w' = clog w @ q @ rest"
  shows "\<exists>r. prefix r (returned_on h outs) \<and> subseq r (taken_in q) \<and> acks_in q \<le> length r"
  by (rule recv_run_moment [OF assms])

text \<open>A peer that logs its SFP reads and its packets, of the one connection it has.\<close>

definition log_env :: "(u8 list list \<times> peer_event list) recv_env" where
  "log_env = \<lparr>csp_connect = (\<lambda>_ _ w. (None, w)), csp_close = (\<lambda>_ w. w), time_now = (\<lambda>w. (0, w)),
     mutex_init = (\<lambda>w. (True, w)), mutex_lock = (\<lambda>w. (True, w)), mutex_unlock = (\<lambda>w. (True, w)), mutex_destroy = (\<lambda>w. w),
     csp_sfp_send = (\<lambda>_ _ _ _ _ w. (-1, w)), csp_read = (\<lambda>_ _ w. (None, w)), csp_buffer_free = (\<lambda>_ w. w),
     csp_err_none = 0, csp_err_timedout = -3,
     csp_sfp_recv = (\<lambda>h _ (q, k). case q of [] \<Rightarrow> ((-3, None, 0), q, k)
       | d # ds \<Rightarrow> if h = 3 then ((0, Some d, int (length d)), ds, k @ [Took d]) else ((-3, None, 0), q, k)),
     csp_free = (\<lambda>_ w. w), csp_buffer_get = (\<lambda>_ w. (Some [], w)),
     csp_send = (\<lambda>h _ _ (q, k). if h = 3 then (True, q, k @ [Acked]) else (False, q, k)), csp_socket = (\<lambda>w. (None, w)),
     csp_bind = (\<lambda>_ _ w. (-4, w)), csp_listen = (\<lambda>_ _ w. (0, w)),
     csp_accept = (\<lambda>_ _ w. (None, w)), csp_conn_src = (\<lambda>_ _. 0), csp_conn_sport = (\<lambda>_ _. 0), csp_err_nomem = -1\<rparr>"

lemma log_env_ok: "log_ok log_env 3 snd"
  unfolding log_ok_def by (auto simp: log_env_def split: list.splits if_splits)

abbreviation log_conn :: "conn accepted_conn" where
  "log_conn \<equiv> \<lparr>ac_conn = Some 3, ac_src_addr = 5, ac_src_port = 60\<rparr>"

lemma log_env_run:
  "recv_run log_env [(log_conn, [0, 0, 0])] ([[7, 8]], []) =
     ([(log_conn, Returns (Inr \<lparr>data = [7, 8], src_addr = 5, src_port = 60\<rparr>))], [], [Took [7, 8], Acked])"
  by (simp add: recv_bundle_from_conn_def recv_bundle_from_conn_into_def prim_defs c_recv_bundle_from_conn_def
      recv_from_conn_timeout_def send_ack_def log_env_def ok_or_err_def slice_to_def)

theorem acks_follow_receipt_witness:
  "\<exists>r outs. recv_run log_env [(log_conn, [0, 0, 0])] ([[7, 8]], []) = (outs, [], [Took [7, 8], Acked]) \<and>
     prefix r (returned_on 3 outs) \<and> subseq r (taken_in [Took [7, 8], Acked]) \<and> 1 \<le> length r"
  using acks_follow_receipt [OF log_env_ok log_env_run, of "[Took [7, 8], Acked]" "[]"] log_env_run by auto

section \<open>From the sender to the peer\<close>

text \<open>
  How the RDP connection \<open>h\<close> of the sender and the peer's log are tied, at one moment of both: the packets that
  the sender has read are among the ones that the peer has sent, and SFP has handed over to the peer only
  bundles that were sent, in their order and each at most once.
\<close>

definition carries :: "'w link \<Rightarrow> 'w \<Rightarrow> conn \<Rightarrow> peer_event list \<Rightarrow> bool" where
  "carries L w h q \<longleftrightarrow> acked L w h \<le> acks_in q \<and> subseq (taken_in q) (sent L w h)"

text \<open>
  C2: delivery. The instance reports a bundle as sent at some moment of the peer's receive calls, \<open>q\<close>
  being what the peer has done on the connection by then. Then the bundle was the last one sent on the pool's connection
  to the destination, and the peer's receive calls return every bundle sent on that connection,
  this one included, in the order of sending and before anything else of the connection. The receive
  call in progress at that moment counts: the acknowledgement leaves before the call returns.
\<close>

theorem delivered_end_to_end:
  assumes "send_env_ok env L" and "sender_ok L (pool s) w"
    and "send_bundle_unless_cancelled (c_send_of env) bun dest flag (s, w) = (Inr (), s', w')"
    and "log_ok peer g clog" and "recv_run peer calls v = (outs, v')" and "clog v' = clog v @ q @ rest"
    and "\<forall>h. pool_has (addr dest) (port dest) h (pool s') \<longrightarrow> carries L w' h q"
  shows "\<exists>h earlier. pool_has (addr dest) (port dest) h (pool s') \<and> sent L w' h = earlier @ [bun] \<and>
    prefix (sent L w' h) (returned_on g outs)"
proof -
  note c = c_send_bundle_result [OF assms(1,2) instance_send_ok [OF assms(3)]]
  obtain h earlier where h: "pool_has (addr dest) (port dest) h (pool s')" "sent L w' h = earlier @ [bun]"
    using c(3) by (auto simp: confirmed_def)
  have "h \<in> pool_conns (pool s')" using c(1) h(1) pool_has_pool by (auto simp: sender_ok_def)
  then have "acked L w' h = length (sent L w' h)" using c(1) by (auto simp: sender_ok_def quiet_def)
  moreover obtain r where r: "prefix r (returned_on g outs)" "subseq r (taken_in q)" "acks_in q \<le> length r"
    using recv_run_moment [OF assms(4-6)] by blast
  moreover have "acked L w' h \<le> acks_in q" "subseq (taken_in q) (sent L w' h)"
    using assms(7) h(1) by (auto simp: carries_def)
  ultimately have "subseq r (sent L w' h)" "length (sent L w' h) \<le> length r"
    by (auto intro: subseq_order.order_trans)
  then have "r = sent L w' h" by (metis list_emb_length le_antisym subseq_same_length)
  with r(1) h show ?thesis by blast
qed

theorem delivered_end_to_end_witness:
  "\<exists>h earlier outs. pool_has 5 10 h first_pool \<and> sent wire_link [Some ([[7, 8]], [])] h = earlier @ [[7, 8]] \<and>
     recv_run log_env [(log_conn, [0, 0, 0])] ([[7, 8]], []) = (outs, [], [Took [7, 8], Acked]) \<and>
     prefix (sent wire_link [Some ([[7, 8]], [])] h) (returned_on 3 outs)"
proof -
  let ?s = "fresh_sender\<lparr>pool := first_pool\<rparr>" and ?w = "[Some ([[7, 8]], [])] :: wire"
  have r: "send_bundle_unless_cancelled (c_send_of wire_env) [7, 8] (CspAddress 5 10) None (fresh_sender, []) =
      (Inr (), ?s, ?w)"
    using fresh_send
    by (simp add: send_bundle_unless_cancelled_eq send_raw_def send_bundle_raw_def prim_defs c_send_of_def
        numeral_2_eq_2 [symmetric] ok_or_err_def)
  have "sender_ok wire_link first_pool ?w"
    using c_send_bundle_result(1) [OF wire_ok(1) fresh_sender_ok fresh_send] by simp
  then have "h \<in> opens wire_link ?w" if "pool_has 5 10 h first_pool" for h
    using that pool_has_pool by (force simp: sender_ok_def pool_owns_def)
  then have "carries wire_link ?w h [Took [7, 8], Acked]" if "pool_has 5 10 h first_pool" for h
    using that by (fastforce simp: carries_def wire_link_def wire_at_def split: if_splits)
  then show ?thesis
    using delivered_end_to_end [OF wire_ok(1) fresh_sender_ok r log_env_ok log_env_run, of "[Took [7, 8], Acked]" "[]"]
      log_env_run by auto
qed

end
