(* ===== verification/ReopenLoop.thy ===== *)
theory ReopenLoop
  imports Receiver
begin

text \<open>
  The receive loop of the picod3tn adapter (\<open>rust-bindings/picod3tn-cspcl/src/rx.rs\<close>) and the
  pause before an inbound stream is reopened, which picod3tn copied from hardy-cspcl
  (\<open>hardy-cspcl/src/dispatcher.rs\<close>). An \<open>await\<close> of the loop is an observation: what the
  source, the stream or the clock answered. The loop is a function over the observations, so
  that every order of answers is covered.
\<close>

section \<open>The pause\<close>

definition REOPEN_DELAY :: duration where "REOPEN_DELAY = from_millis 500"
definition MAX_REOPEN_DELAY :: duration where "MAX_REOPEN_DELAY = from_secs 30"

lemmas reopen_consts = REOPEN_DELAY_def MAX_REOPEN_DELAY_def

record backoff = delay :: duration

definition backoff_new :: backoff where
  "backoff_new = \<lparr>delay = REOPEN_DELAY\<rparr>"

text \<open>
  \<open>Backoff::wait\<close> up to its \<open>select!\<close>: the pause it makes and the backoff for the next
  failure.
\<close>

definition backoff_wait :: "backoff \<Rightarrow> duration \<times> backoff" where
  "backoff_wait b =
     (let d = delay b in (d, b\<lparr>delay := min (d * 2) MAX_REOPEN_DELAY\<rparr>))"

text \<open>
  What the loops rely on: a pause that starts at \<open>first\<close>, doubles on every failure, and never
  exceeds \<open>most\<close>.
\<close>

locale growing_pause =
  fixes new :: 'b
    and pause_of :: "'b \<Rightarrow> duration"
    and wait :: "'b \<Rightarrow> duration \<times> 'b"
    and first :: duration
    and most :: duration
  assumes new_pause: "pause_of new = first"
    and wait_pause: "fst (wait b) = pause_of b"
    and wait_next: "pause_of (snd (wait b)) = min (pause_of b * 2) most"
    and first_most: "0 < first" "first \<le> most"
begin

definition bounded :: "'b \<Rightarrow> bool" where
  "bounded b \<longleftrightarrow> first \<le> pause_of b \<and> pause_of b \<le> most"

lemma bounded_new: "bounded new"
  using first_most by (simp add: bounded_def new_pause)

lemma bounded_wait: "bounded b \<Longrightarrow> bounded (snd (wait b))"
  using first_most by (auto simp: bounded_def wait_next)

lemma bounded_pause: "bounded b \<Longrightarrow> first \<le> fst (wait b) \<and> fst (wait b) \<le> most"
  by (simp add: bounded_def wait_pause)

lemma pause_after: "pause_of (((snd \<circ> wait) ^^ n) new) = min (first * 2 ^ n) most"
proof (induction n)
  case 0
  then show ?case using first_most by (simp add: new_pause)
next
  case (Suc n)
  then show ?case by (auto simp: wait_next min_def)
qed

end

interpretation reopen: growing_pause backoff_new delay backoff_wait REOPEN_DELAY MAX_REOPEN_DELAY
  by unfold_locales (simp_all add: backoff_new_def backoff_wait_def reopen_consts time_defs Let_def)

section \<open>The loop\<close>

text \<open>\<open>rx::OpenError\<close>, and \<open>rx::Received\<close>.\<close>

datatype open_error = Closed | Failed

record pico_received =
  rx_data :: "u8 list"
  rx_src_addr :: u8
  rx_src_port :: u8

text \<open>
  Where the loop awaits: the open of a stream, the next item of the open one, or the end of a
  pause of the given length.
\<close>

datatype stage = Opening | Reading | Pausing duration

record rx_loop =
  stage :: stage
  opened_at :: instant
  backoff :: backoff

text \<open>
  An answer: of \<open>Source::open\<close> (with the clock), of the stream (with the clock and what
  \<open>is_closed\<close> would say), or of \<open>Backoff::wait\<close> (whether the source was closed first).
\<close>

datatype answer =
    Opened "(open_error, unit) rresult" instant
  | Item "item option" instant bool
  | Waited bool

datatype rx_result = Yields pico_received | Ends | Goes

definition received_from :: "bp_bundle \<Rightarrow> pico_received" where
  "received_from b = \<lparr>rx_data = data b, rx_src_addr = src_addr b, rx_src_port = src_port b\<rparr>"

text \<open>\<open>rx::receive\<close>: the state a new stream starts in.\<close>

definition rx_start :: "instant \<Rightarrow> rx_loop" where
  "rx_start now = \<lparr>stage = Opening, opened_at = now, backoff = backoff_new\<rparr>"

definition rx_pause :: "backoff \<Rightarrow> rx_loop \<Rightarrow> rx_loop" where
  "rx_pause b st = (let (d, b') = backoff_wait b in st\<lparr>stage := Pausing d, backoff := b'\<rparr>)"

text \<open>
  One turn of the loop of \<open>State::next\<close>: the answer to what it awaits. \<open>None\<close>: that is not
  what it awaits.
\<close>

fun rx_turn :: "rx_loop \<Rightarrow> answer \<Rightarrow> (rx_result \<times> rx_loop) option" where
  "rx_turn st (Opened r now) =
     (if stage st \<noteq> Opening then None
      else Some (case r of
             Inr _ \<Rightarrow> (Goes, st\<lparr>stage := Reading, opened_at := now\<rparr>)
           | Inl Closed \<Rightarrow> (Ends, st)
           | Inl Failed \<Rightarrow> (Goes, rx_pause (backoff st) st)))"
| "rx_turn st (Item it now closed) =
     (if stage st \<noteq> Reading then None
      else Some (case it of
             Some (Inr b) \<Rightarrow> (Yields (received_from b), st)
           | Some (Inl e) \<Rightarrow> (Goes, st)
           | None \<Rightarrow>
               let st1 = st\<lparr>stage := Opening\<rparr>
               in if closed then (Ends, st1)
                  else
                    let b = (if saturating_duration_since now (opened_at st1) > delay (backoff st1)
                             then backoff_new else backoff st1)
                    in (Goes, rx_pause b st1)))"
| "rx_turn st (Waited closed) =
     (case stage st of
        Pausing _ \<Rightarrow> Some (if closed then (Ends, st) else (Goes, st\<lparr>stage := Opening\<rparr>))
      | _ \<Rightarrow> None)"

text \<open>
  \<open>State::next\<close>: turns until a bundle or the end. The result also has the answers that were
  not used; no more answers: the loop still awaits one.
\<close>

fun rx_next :: "rx_loop \<Rightarrow> answer list \<Rightarrow> (rx_result \<times> rx_loop \<times> answer list) option" where
  "rx_next st [] = Some (Goes, st, [])"
| "rx_next st (a # as) =
     (case rx_turn st a of
        None \<Rightarrow> None
      | Some (Goes, st') \<Rightarrow> rx_next st' as
      | Some (r, st') \<Rightarrow> Some (r, st', as))"

text \<open>
  \<open>stream::unfold\<close> over \<open>State::next\<close>, fused: all bundles the stream yields, and whether
  it ended.
\<close>

fun rx_run :: "rx_loop \<Rightarrow> answer list \<Rightarrow> (pico_received list \<times> bool \<times> rx_loop) option" where
  "rx_run st [] = Some ([], False, st)"
| "rx_run st (a # as) =
     (case rx_turn st a of
        None \<Rightarrow> None
      | Some (Goes, st') \<Rightarrow> rx_run st' as
      | Some (Ends, st') \<Rightarrow> Some ([], True, st')
      | Some (Yields b, st') \<Rightarrow> map_option (\<lambda>(bs, e, t). (b # bs, e, t)) (rx_run st' as))"

section \<open>Lemmas\<close>

fun answer_bundles :: "answer list \<Rightarrow> pico_received list" where
  "answer_bundles [] = []"
| "answer_bundles (Item (Some (Inr b)) _ _ # as) = received_from b # answer_bundles as"
| "answer_bundles (_ # as) = answer_bundles as"

text \<open>The answers that end the loop.\<close>

fun ends_loop :: "answer \<Rightarrow> bool" where
  "ends_loop (Opened (Inl Closed) _) = True"
| "ends_loop (Item None _ closed) = closed"
| "ends_loop (Waited closed) = closed"
| "ends_loop _ = False"

lemma rx_turn_ends: "rx_turn st a = Some (r, st') \<Longrightarrow> r = Ends \<longleftrightarrow> ends_loop a"
  by (cases "(st, a)" rule: rx_turn.cases; cases a rule: ends_loop.cases)
    (auto simp: Let_def split: if_splits stage.splits option.splits sum.splits open_error.splits)

lemma rx_turn_yields:
  "rx_turn st a = Some (Yields b, st') \<longleftrightarrow>
     (\<exists>x now closed. a = Item (Some (Inr x)) now closed \<and> b = received_from x \<and> stage st = Reading \<and> st' = st)"
  by (cases "(st, a)" rule: rx_turn.cases)
    (auto simp: Let_def split: if_splits stage.splits option.splits sum.splits open_error.splits)

definition loop_inv :: "rx_loop \<Rightarrow> bool" where
  "loop_inv st \<longleftrightarrow> reopen.bounded (backoff st) \<and>
     (\<forall>d. stage st = Pausing d \<longrightarrow> REOPEN_DELAY \<le> d \<and> d \<le> MAX_REOPEN_DELAY)"

lemma loop_inv_start: "loop_inv (rx_start now)"
  by (simp add: loop_inv_def rx_start_def reopen.bounded_new)

lemma loop_inv_pause: "reopen.bounded b \<Longrightarrow> loop_inv (rx_pause b st)"
  using reopen.bounded_pause [of b] reopen.bounded_wait [of b]
  by (cases "backoff_wait b") (simp add: loop_inv_def rx_pause_def)

lemma loop_inv_stage:
  "loop_inv st \<Longrightarrow> reopen.bounded (backoff st)"
  "loop_inv st \<Longrightarrow> loop_inv (st\<lparr>stage := Opening\<rparr>)"
  "loop_inv st \<Longrightarrow> loop_inv (st\<lparr>stage := Reading, opened_at := now\<rparr>)"
  by (simp_all add: loop_inv_def)

lemma loop_inv_turn: "loop_inv st \<Longrightarrow> rx_turn st a = Some (r, st') \<Longrightarrow> loop_inv st'"
  using reopen.bounded_new
  by (cases "(st, a)" rule: rx_turn.cases)
    (auto simp: Let_def loop_inv_stage loop_inv_pause
      split: if_splits stage.splits option.splits sum.splits open_error.splits)

text \<open>The same for the states a whole run goes through.\<close>

lemma loop_inv_run: "loop_inv st \<Longrightarrow> rx_run st as = Some (bs, e, st') \<Longrightarrow> loop_inv st'"
proof (induction as arbitrary: st bs)
  case (Cons a as)
  from Cons.prems obtain r st1 where t: "rx_turn st a = Some (r, st1)"
    by (auto split: option.splits)
  note i = loop_inv_turn [OF Cons.prems(1) t]
  from Cons.prems(2) t i Cons.IH [OF i] show ?case
    by (cases r) auto
qed simp

lemma rx_run_bundles:
  "rx_run st as = Some (bs, e, st') \<Longrightarrow>
   bs = answer_bundles (takeWhile (Not \<circ> ends_loop) as) \<and> (e \<longleftrightarrow> (\<exists>a \<in> set as. ends_loop a))"
proof (induction as arbitrary: st bs)
  case (Cons a as)
  from Cons.prems obtain r st1 where t: "rx_turn st a = Some (r, st1)"
    by (auto split: option.splits)
  note ends = rx_turn_ends [OF t]
  show ?case
  proof (cases r)
    case (Yields b)
    with Cons.prems t obtain bs' where bs': "rx_run st1 as = Some (bs', e, st')" "bs = b # bs'" by auto
    from t Yields obtain x now closed where "a = Item (Some (Inr x)) now closed" "b = received_from x"
      using rx_turn_yields by blast
    with Cons.IH [OF bs'(1)] bs'(2) show ?thesis by simp
  next
    case Ends
    with Cons.prems t ends show ?thesis by simp
  next
    case Goes
    with Cons.prems t have "rx_run st1 as = Some (bs, e, st')" by simp
    moreover have "answer_bundles (a # xs) = answer_bundles xs" for xs
      using t Goes rx_turn_yields [of st a] by (cases "a # xs" rule: answer_bundles.cases) (auto split: if_splits)
    ultimately show ?thesis using Cons.IH ends Goes by auto
  qed
qed simp

text \<open>Repeated failures to open.\<close>

abbreviation failed_opens :: "instant \<Rightarrow> nat \<Rightarrow> answer list" where
  "failed_opens t n \<equiv> concat (replicate n [Opened (Inl Failed) t, Waited False])"

lemma rx_run_failed_opens:
  "stage st = Opening \<Longrightarrow>
   rx_run st (failed_opens t n @ as) = rx_run (st\<lparr>backoff := ((snd \<circ> backoff_wait) ^^ n) (backoff st)\<rparr>) as"
proof (induction n arbitrary: st)
  case 0
  then show ?case by simp
next
  case (Suc n)
  let ?st = "st\<lparr>backoff := snd (backoff_wait (backoff st))\<rparr>"
  have "rx_turn (rx_pause (backoff st) st) (Waited False) = Some (Goes, ?st)"
    using Suc.prems by (cases st) (simp add: rx_pause_def split: prod.split)
  then have "rx_run st (failed_opens t (Suc n) @ as) = rx_run ?st (failed_opens t n @ as)"
    using Suc.prems by simp
  with Suc.IH [of ?st] Suc.prems show ?case
    by (simp add: funpow_Suc_right del: funpow.simps)
qed

section \<open>Properties\<close>

text \<open>
  C27: the stream of received bundles neither loses, invents nor reorders one: as long as it
  has not ended it has yielded exactly the bundles of the inbound streams opened so far, in
  order, whatever failed in between; it ends exactly at the first sign of a shutdown (an open
  refused as closed, a stream that ended or a pause cut short by it).
\<close>

theorem incoming_yields_all:
  assumes "rx_run (rx_start t0) as = Some (bs, ended, st)"
  shows "bs = answer_bundles (takeWhile (\<lambda>a. \<not> ends_loop a) as) \<and>
    (ended \<longleftrightarrow> (\<exists>a \<in> set as. ends_loop a))"
  using rx_run_bundles [OF assms] by (simp add: comp_def)

definition sample_answers :: "answer list" where
  "sample_answers = [Opened (Inl Failed) 0, Waited False, Opened (Inr ()) 5,
     Item (Some (Inl Spawn)) 6 False,
     Item (Some (Inr \<lparr>data = [1], src_addr = 5, src_port = 60\<rparr>)) 7 False, Item None 8 True]"

theorem incoming_yields_all_witness:
  "\<exists>st. rx_run (rx_start 0) sample_answers =
     Some ([\<lparr>rx_data = [1], rx_src_addr = 5, rx_src_port = 60\<rparr>], True, st) \<and>
     [\<lparr>rx_data = [1], rx_src_addr = 5, rx_src_port = 60\<rparr>] =
       answer_bundles (takeWhile (\<lambda>a. \<not> ends_loop a) sample_answers)"
proof -
  obtain st where st: "rx_run (rx_start 0) sample_answers =
      Some ([\<lparr>rx_data = [1], rx_src_addr = 5, rx_src_port = 60\<rparr>], True, st)"
    by (simp add: sample_answers_def rx_start_def rx_pause_def backoff_wait_def backoff_new_def
        received_from_def Let_def)
  from st incoming_yields_all [OF st] show ?thesis by blast
qed

text \<open>
  A stream is never reopened in a tight loop nor given up: every pause that any run makes
  is at least 500 ms and at most 30 s.
\<close>

theorem reopen_pause_bounds:
  assumes "rx_run (rx_start t0) as = Some (bs, ended, st)" and "stage st = Pausing d"
  shows "from_millis 500 \<le> d \<and> d \<le> from_secs 30"
  using loop_inv_run [OF loop_inv_start assms(1)] assms(2) by (simp add: loop_inv_def reopen_consts)

theorem reopen_pause_bounds_witness:
  "\<exists>st. rx_run (rx_start 0) [Opened (Inl Failed) 0] = Some ([], False, st) \<and>
     stage st = Pausing (from_millis 500) \<and> from_millis 500 \<le> from_secs 30"
proof -
  let ?st = "rx_pause backoff_new (rx_start 0)"
  have r: "rx_run (rx_start 0) [Opened (Inl Failed) 0] = Some ([], False, ?st)"
    by (simp add: rx_start_def)
  have s: "stage ?st = Pausing (from_millis 500)"
    by (simp add: rx_pause_def backoff_wait_def backoff_new_def reopen_consts Let_def)
  from reopen_pause_bounds [OF r s] r s show ?thesis by blast
qed

text \<open>
  While streams cannot be opened, the pauses are 500 ms, 1 s, 2 s and so on, doubling up
  to 30 s: after \<open>n\<close> failed attempts the next failure pauses for \<open>min (500 ms * 2^n) (30 s)\<close>.
\<close>

theorem reopen_pause_doubles:
  "map_option (\<lambda>(_, _, st). stage st) (rx_run (rx_start t0) (failed_opens t n @ [Opened (Inl Failed) t])) =
     Some (Pausing (min (from_millis 500 * 2 ^ n) (from_secs 30)))"
proof -
  let ?b = "((snd \<circ> backoff_wait) ^^ n) backoff_new"
  have "rx_run (rx_start t0) (failed_opens t n @ [Opened (Inl Failed) t]) =
      Some ([], False, rx_pause ?b (rx_start t0\<lparr>backoff := ?b\<rparr>))"
    by (subst rx_run_failed_opens) (simp_all add: rx_start_def)
  moreover have "stage (rx_pause ?b st) = Pausing (delay ?b)" for st
    by (simp add: rx_pause_def backoff_wait_def Let_def)
  ultimately show ?thesis
    using reopen.pause_after [of n] by (simp add: reopen_consts)
qed

end
