(* ===== verification/PicoLink.thy ===== *)
theory PicoLink
  imports PicoConfig ReopenLoop Instance
begin

text \<open>
  The link of the picod3tn adapter (\<open>rust-bindings/picod3tn-cspcl/src/link.rs\<close>): one per
  process. \<open>CspclLink::new\<close> by any number of concurrent callers, and the open and shutdown of
  the inbound stream under the \<open>closed\<close> lock, are step relations; \<open>send\<close> is a function of
  the result of the underlying send.
\<close>

section \<open>Sending\<close>

text \<open>\<open>CspclLink::send\<close>, given what \<open>send_bundle_async\<close> returns.\<close>

definition link_send ::
  "(u8 list \<Rightarrow> csp_address \<Rightarrow> unit cresult outcome) \<Rightarrow> u8 list \<Rightarrow> cspcl_addr \<Rightarrow>
   (send_error, unit) rresult outcome" where
  "link_send send_bundle_async bytes dest =
     (case check_size (length bytes) of
        Inl _ \<Rightarrow> Returns (Inl (SendPermanent BundleTooLarge))
      | Inr _ \<Rightarrow>
          (case send_bundle_async bytes (csp_address_from dest) of
             Panics \<Rightarrow> Panics
           | Returns r \<Rightarrow> Returns (map_err send_error_from r)))"

section \<open>Opening the link\<close>

text \<open>\<open>link::OpenError\<close>.\<close>

datatype link_error = AlreadyOpen | LinkConfig addr_error | Init error

text \<open>
  A caller of \<open>CspclLink::new\<close>: it has claimed the process and starts cspcl, or it returned.
\<close>

datatype new_pc = NewIdle | NewClaimed | NewDone "(link_error, unit) rresult"

record link_sys =
  claimed :: bool
  callers :: "nat \<Rightarrow> new_pc"

definition link_init :: link_sys where
  "link_init = \<lparr>claimed = False, callers = (\<lambda>_. NewIdle)\<rparr>"

text \<open>The part of \<open>new\<close> up to the swap of \<open>CLAIMED\<close>.\<close>

definition new_claim :: "config \<Rightarrow> bool \<Rightarrow> new_pc \<times> bool" where
  "new_claim c was_claimed =
     (case validate c of
        Inl e \<Rightarrow> (NewDone (Inl (LinkConfig e)), was_claimed)
      | Inr _ \<Rightarrow> (if was_claimed then NewDone (Inl AlreadyOpen) else NewClaimed, True))"

text \<open>The rest, given the result of \<open>Cspcl::new\<close>.\<close>

definition new_started :: "unit cresult \<Rightarrow> bool \<Rightarrow> new_pc \<times> bool" where
  "new_started r was_claimed =
     (case r of
        Inr _ \<Rightarrow> (NewDone (Inr ()), was_claimed)
      | Inl e \<Rightarrow> (NewDone (Inl (Init e)), False))"

inductive link_step :: "link_sys \<Rightarrow> link_sys \<Rightarrow> bool" where
  link_claim: "callers s i = NewIdle \<Longrightarrow> new_claim c (claimed s) = (pc, cl) \<Longrightarrow>
    link_step s (s\<lparr>claimed := cl, callers := (callers s)(i := pc)\<rparr>)"
| link_start: "callers s i = NewClaimed \<Longrightarrow> new_started r (claimed s) = (pc, cl) \<Longrightarrow>
    link_step s (s\<lparr>claimed := cl, callers := (callers s)(i := pc)\<rparr>)"

section \<open>Opening and closing the inbound stream\<close>

text \<open>
  A call of \<open>CspclLink::shutdown\<close>: it holds the \<open>closed\<close> lock and has set its flag, has
  set the \<open>shutdown\<close> watch too, or has closed the receive socket and returned.
\<close>

datatype shut_pc = ShutIdle | ShutFlagged | ShutWatch | ShutDone

text \<open>
  The \<open>closed\<close> flag with the shutdown that holds its lock, the watch, and the inbound side as
  far as the link sees it: the streams it opened that have not ended.
\<close>

record link_rx =
  closed_lock :: "nat option"
  link_closed :: bool
  shutdown_watch :: bool
  open_streams :: "nat set"
  shuts :: "nat \<Rightarrow> shut_pc"

definition link_rx_init :: link_rx where
  "link_rx_init = \<lparr>closed_lock = None, link_closed = False, shutdown_watch = False, open_streams = {},
     shuts = (\<lambda>_. ShutIdle)\<rparr>"

text \<open>
  \<open>Source::open\<close>: \<open>spawned\<close> says whether its thread could be started and \<open>panicked\<close>
  whether that thread panicked; the thread looks at the flag with the lock held and opens
  stream \<open>i\<close>.
\<close>

definition link_open :: "bool \<Rightarrow> bool \<Rightarrow> nat \<Rightarrow> link_rx \<Rightarrow> (open_error, unit) rresult \<times> link_rx" where
  "link_open spawned panicked i l =
     (if \<not> spawned \<or> panicked then (Inl Failed, l)
      else if link_closed l then (Inl Closed, l)
      else (Inr (), l\<lparr>open_streams := insert i (open_streams l)\<rparr>))"

definition link_is_closed :: "link_rx \<Rightarrow> bool" where
  "link_is_closed l = shutdown_watch l"

text \<open>
  Opens and shutdowns exclude each other; a stream may end at any time because cspcl's accept
  thread failed. \<open>close_rx_socket\<close> ends every stream (see \<open>begin_close\<close>).
\<close>

inductive link_rx_step :: "link_rx \<Rightarrow> link_rx \<Rightarrow> bool" where
  rx_open: "closed_lock l = None \<Longrightarrow> link_open spawned panicked i l = (r, l') \<Longrightarrow> link_rx_step l l'"
| rx_stream_ends: "link_rx_step l (l\<lparr>open_streams := open_streams l - {i}\<rparr>)"
| rx_shut_lock: "shuts l j = ShutIdle \<Longrightarrow> closed_lock l = None \<Longrightarrow>
    link_rx_step l (l\<lparr>closed_lock := Some j, link_closed := True, shuts := (shuts l)(j := ShutFlagged)\<rparr>)"
| rx_shut_watch: "shuts l j = ShutFlagged \<Longrightarrow>
    link_rx_step l (l\<lparr>shutdown_watch := True, shuts := (shuts l)(j := ShutWatch)\<rparr>)"
| rx_shut_close: "shuts l j = ShutWatch \<Longrightarrow>
    link_rx_step l (l\<lparr>open_streams := {}, closed_lock := None, shuts := (shuts l)(j := ShutDone)\<rparr>)"

section \<open>Properties\<close>

definition holders :: "link_sys \<Rightarrow> nat set" where
  "holders s = {i. callers s i = NewClaimed \<or> callers s i = NewDone (Inr ())}"

definition link_inv :: "link_sys \<Rightarrow> bool" where
  "link_inv s \<longleftrightarrow> (if claimed s then \<exists>i. holders s = {i} else holders s = {})"

lemma holders_upd:
  "holders (s\<lparr>claimed := cl, callers := (callers s)(i := pc)\<rparr>) =
     (if pc = NewClaimed \<or> pc = NewDone (Inr ()) then insert i (holders s) else holders s - {i})"
  by (auto simp: holders_def)

lemma link_inv_step: "link_step s t \<Longrightarrow> link_inv s \<Longrightarrow> link_inv t"
proof (induction rule: link_step.induct)
  case (link_claim s i c pc cl)
  then have "i \<notin> holders s" by (simp add: holders_def)
  with link_claim show ?case
    by (auto simp: link_inv_def holders_upd new_claim_def split: sum.splits if_splits)
next
  case (link_start s i r pc cl)
  then have "i \<in> holders s" by (simp add: holders_def)
  with link_start show ?case
    by (auto simp: link_inv_def holders_upd new_started_def split: sum.splits if_splits)
qed

interpretation link: invariant_system link_init link_step link_inv
  by unfold_locales (simp add: link_inv_def link_init_def holders_def, rule link_inv_step)

text \<open>
  The shutdown that holds the lock; with the lock free, a closed link has its watch set and no
  stream.
\<close>

definition link_rx_inv :: "link_rx \<Rightarrow> bool" where
  "link_rx_inv l \<longleftrightarrow>
     (\<forall>j. shuts l j = ShutFlagged \<or> shuts l j = ShutWatch \<longleftrightarrow> closed_lock l = Some j) \<and>
     (\<forall>j. shuts l j \<noteq> ShutIdle \<longrightarrow> link_closed l) \<and>
     (\<forall>j. shuts l j = ShutWatch \<or> shuts l j = ShutDone \<longrightarrow> shutdown_watch l) \<and>
     (\<forall>j. shuts l j = ShutDone \<longrightarrow> open_streams l = {})"

lemma link_rx_inv_step: "link_rx_step l l' \<Longrightarrow> link_rx_inv l \<Longrightarrow> link_rx_inv l'"
proof (induction rule: link_rx_step.induct)
  case (rx_open l spawned panicked i r l')
  then have "l' = l \<or> \<not> link_closed l \<and> l' = l\<lparr>open_streams := insert i (open_streams l)\<rparr>"
    by (auto simp: link_open_def split: if_splits)
  with rx_open.prems show ?case by (auto simp: link_rx_inv_def)
next
  case (rx_shut_watch l j)
  then have "closed_lock l = Some j" by (auto simp: link_rx_inv_def)
  with rx_shut_watch show ?case by (auto simp: link_rx_inv_def)
next
  case (rx_shut_close l j)
  then have "closed_lock l = Some j" by (auto simp: link_rx_inv_def)
  with rx_shut_close show ?case by (auto simp: link_rx_inv_def)
qed (auto simp: link_rx_inv_def)

interpretation link_rx: invariant_system link_rx_init link_rx_step link_rx_inv
  by unfold_locales (simp add: link_rx_inv_def link_rx_init_def, rule link_rx_inv_step)

interpretation link_streams: closing_source link_rx_step link_closed open_streams
proof unfold_locales
  fix s t
  assume "link_rx_step s t" "link_closed s"
  then have "link_closed t \<and> open_streams t \<subseteq> open_streams s"
    by (induction rule: link_rx_step.induct) (auto simp: link_open_def split: if_splits)
  then show "link_closed t" "open_streams t \<subseteq> open_streams s" by blast+
qed

text \<open>
  C22: there is at most one link per process, whatever the callers of \<open>CspclLink::new\<close> do at
  the same time: at most one of them ever gets a link, and while one has it or is starting
  cspcl every further valid call is refused with \<open>AlreadyOpen\<close>. A call whose start of cspcl
  failed leaves the process unclaimed if no other caller holds the claim.
\<close>

theorem one_link_per_process:
  assumes "reach link_init link_step s"
  shows "(callers s i = NewDone (Inr ()) \<and> callers s j = NewDone (Inr ()) \<longrightarrow> i = j) \<and>
    (callers s i \<in> {NewClaimed, NewDone (Inr ())} \<and> validate c = Inr () \<longrightarrow>
       new_claim c (claimed s) = (NewDone (Inl AlreadyOpen), True)) \<and>
    ((\<forall>k. callers s k \<notin> {NewClaimed, NewDone (Inr ())}) \<and> validate c = Inr () \<longrightarrow>
       new_claim c (claimed s) = (NewClaimed, True))"
proof -
  note inv = link.inv_reach [OF assms]
  have h: "k \<in> holders s \<longleftrightarrow> callers s k \<in> {NewClaimed, NewDone (Inr ())}" for k
    by (simp add: holders_def)
  have "i = j" if "i \<in> holders s" "j \<in> holders s"
    using inv that by (auto simp: link_inv_def split: if_splits)
  moreover have "claimed s" if "i \<in> holders s"
    using inv that by (auto simp: link_inv_def split: if_splits)
  moreover have "\<not> claimed s" if "\<forall>k. k \<notin> holders s"
    using inv that by (auto simp: link_inv_def split: if_splits)
  ultimately show ?thesis
    unfolding h by (simp add: new_claim_def)
qed

definition pico_sample_config :: config where
  "pico_sample_config = \<lparr>local_addr = 1, listen_port = 10, interface = ILoopback\<rparr>"

theorem one_link_per_process_witness:
  "validate pico_sample_config = Inr () \<and>
   (\<exists>s. reach link_init link_step s \<and> callers s 0 = NewClaimed \<and>
      new_claim pico_sample_config (claimed s) = (NewDone (Inl AlreadyOpen), True))"
proof -
  let ?s = "link_init\<lparr>claimed := True, callers := (callers link_init)(0 := NewClaimed)\<rparr>"
  have ok: "validate pico_sample_config = Inr ()"
    by (simp add: validate_def pico_sample_config_def addr_limits)
  then have "link_step link_init ?s"
    by (intro link_step.link_claim [of _ _ pico_sample_config]) (simp_all add: link_init_def new_claim_def)
  then have "reach link_init link_step ?s" by (blast intro: reach.intros)
  from one_link_per_process [OF this, of 0 0 pico_sample_config] this ok show ?thesis
    by (intro conjI exI [of _ ?s]) simp_all
qed

text \<open>
  \<open>send\<close> refuses a bundle over 65535 bytes at once as permanent, without sending it; every
  other bundle is sent to the CSP address of the peer, and a failure is reported with the class
  that \<open>FailureKind::of\<close> gives it.
\<close>

theorem link_send_result:
  "link_send c_send bytes dest =
     (if length bytes > 65535 then Returns (Inl (SendPermanent BundleTooLarge))
      else case c_send bytes (CspAddress (peer_addr dest) (peer_port dest)) of
             Panics \<Rightarrow> Panics
           | Returns (Inr _) \<Rightarrow> Returns (Inr ())
           | Returns (Inl e) \<Rightarrow> Returns (Inl (send_error_from e)))"
  by (simp add: link_send_def check_size_def MAX_BUNDLE_SIZE_def csp_address_from_def
      split: outcome.split sum.split)

text \<open>
  C26: a shutdown that returned has closed the link for good, whatever opens and other shutdowns
  run beside or after it: in every later state the watch is set, no stream is open, and an
  attempt to open one fails and leaves it so. A shutdown that is about to end the streams has
  set the watch already, so the receive loop takes the end of its stream for a shutdown.
\<close>

theorem shutdown_closes_for_good:
  assumes "reach link_rx_init link_rx_step l" and "link_rx_step\<^sup>*\<^sup>* l l'"
  shows "(shuts l j = ShutWatch \<longrightarrow> link_is_closed l') \<and>
    (shuts l j = ShutDone \<longrightarrow> link_is_closed l' \<and> open_streams l' = {} \<and>
       link_open spawned panicked i l' = (Inl (if spawned \<and> \<not> panicked then Closed else Failed), l'))"
proof -
  have inv: "link_rx_inv l" by (rule link_rx.inv_reach [OF assms(1)])
  have "link_is_closed l'" if "link_is_closed l"
    using assms(2) that
  proof (induction rule: rtranclp_induct)
    case (step k k')
    from step(2,3,4) show ?case
      by (induction rule: link_rx_step.induct) (auto simp: link_is_closed_def link_open_def split: if_splits)
  qed simp
  moreover have "link_closed l' \<and> open_streams l' = {}" if "shuts l j = ShutDone"
    using link_streams.no_stream_again [OF assms(2)] inv that by (auto simp: link_rx_inv_def)
  ultimately show ?thesis
    using inv by (auto simp: link_rx_inv_def link_is_closed_def link_open_def)
qed

theorem shutdown_closes_for_good_witness:
  "\<exists>l. reach link_rx_init link_rx_step l \<and> shuts l 0 = ShutDone \<and> link_open True False 7 l = (Inl Closed, l)"
proof -
  let ?l0 = "link_rx_init\<lparr>open_streams := insert 7 {}\<rparr>"
  let ?l1 = "?l0\<lparr>closed_lock := Some 0, link_closed := True, shuts := (shuts ?l0)(0 := ShutFlagged)\<rparr>"
  let ?l2 = "?l1\<lparr>shutdown_watch := True, shuts := (shuts ?l1)(0 := ShutWatch)\<rparr>"
  let ?l3 = "?l2\<lparr>open_streams := {}, closed_lock := None, shuts := (shuts ?l2)(0 := ShutDone)\<rparr>"
  have "link_rx_step link_rx_init ?l0"
    by (rule link_rx_step.rx_open [of _ True False 7 "Inr ()"]) (simp_all add: link_rx_init_def link_open_def)
  then have "reach link_rx_init link_rx_step ?l0" by (rule reach_step [OF reach_init])
  moreover have "link_rx_step ?l0 ?l1" by (rule link_rx_step.rx_shut_lock) (simp_all add: link_rx_init_def)
  ultimately have "reach link_rx_init link_rx_step ?l1" by (rule reach_step)
  moreover have "link_rx_step ?l1 ?l2" by (rule link_rx_step.rx_shut_watch) simp
  ultimately have "reach link_rx_init link_rx_step ?l2" by (rule reach_step)
  moreover have "link_rx_step ?l2 ?l3" by (rule link_rx_step.rx_shut_close) simp
  ultimately have r: "reach link_rx_init link_rx_step ?l3" by (rule reach_step)
  from shutdown_closes_for_good [OF r rtranclp.rtrancl_refl, of 0 True False 7] r show ?thesis
    by (intro exI [of _ ?l3]) simp
qed

end
