(* ===== verification/HardyConfig.thy ===== *)
theory HardyConfig
  imports CspAddress SysTypes
begin

text \<open>
  The configuration of the Hardy adapter (\<open>rust-bindings/hardy-cspcl/src/config.rs\<close>) and the
  text form of its peers. The node identifiers of the BPA and their parser are third-party
  code and parameters.
\<close>

section \<open>Configuration\<close>

datatype hardy_interface = HLoopback | HCan

record 'n peer_config =
  node_id :: 'n
  peer_csp_addr :: u8
  peer_csp_port :: u8

text \<open>\<open>str::split\<close> at a character: one part more than there are separators.\<close>

fun str_split :: "char \<Rightarrow> rstr \<Rightarrow> rstr list" where
  "str_split c [] = [[]]"
| "str_split c (x # xs) =
     (if x = c then [] # str_split c xs
      else case str_split c xs of [] \<Rightarrow> [[x]] | p # ps \<Rightarrow> (x # p) # ps)"

text \<open>\<open>u8::from_str\<close> with the text of its error.\<close>

fun u8_digits_error :: "nat \<Rightarrow> rstr \<Rightarrow> rstr" where
  "u8_digits_error acc [] = []"
| "u8_digits_error acc (c # cs) =
     (if \<not> is_ascii_digit c then ''invalid digit found in string''
      else if 10 * acc > 255 \<or> 10 * acc + digit_value c > 255
        then ''number too large to fit in target type''
      else u8_digits_error (10 * acc + digit_value c) cs)"

definition u8_parse :: "rstr \<Rightarrow> (rstr, u8) rresult" where
  "u8_parse s =
     (case u8_from_str s of
        Some x \<Rightarrow> Inr x
      | None \<Rightarrow>
          Inl (if s = [] then ''cannot parse integer from empty string''
               else if s = ''+'' \<or> s = ''-'' then ''invalid digit found in string''
               else u8_digits_error 0 (if hd s = CHR ''+'' then tl s else s)))"

text \<open>\<open>impl FromStr for PeerConfig\<close>; \<open>parse_node\<close> parses a node identifier.\<close>

definition peer_config_from_str ::
  "(rstr \<Rightarrow> (rstr, 'n) rresult) \<Rightarrow> rstr \<Rightarrow> (rstr, 'n peer_config) rresult" where
  "peer_config_from_str parse_node value =
     (let (p0, parts0) = iter_next (str_split (CHR '','') value)
      in and_then (ok_or p0 ''missing node id'') (\<lambda>s0.
         and_then (map_err (\<lambda>err. ''invalid node id: '' @ err) (parse_node s0)) (\<lambda>n.
         let (p1, parts1) = iter_next parts0
         in and_then (ok_or p1 ''missing CSP address'') (\<lambda>s1.
            and_then (map_err (\<lambda>err. ''invalid CSP address: '' @ err) (u8_parse s1)) (\<lambda>a.
            let (p2, parts2) = iter_next parts1
            in and_then (ok_or p2 ''missing CSP port'') (\<lambda>s2.
               and_then (map_err (\<lambda>err. ''invalid CSP port: '' @ err) (u8_parse s2)) (\<lambda>p.
               if fst (iter_next parts2) \<noteq> None then Inl ''expected NODE_ID,ADDR,PORT''
               else Inr \<lparr>node_id = n, peer_csp_addr = a, peer_csp_port = p\<rparr>)))))))"

text \<open>\<open>impl Default for PeerConfig\<close>, which panics if the parser refuses its node identifier.\<close>

definition peer_config_default :: "(rstr \<Rightarrow> (rstr, 'n) rresult) \<Rightarrow> 'n peer_config outcome" where
  "peer_config_default parse_node =
     (case parse_node ''ipn:1.0'' of
        Inl _ \<Rightarrow> Panics
      | Inr n \<Rightarrow> Returns \<lparr>node_id = n, peer_csp_addr = 0, peer_csp_port = 0\<rparr>)"

record 'n hardy_config =
  h_local_addr :: u8
  h_port :: u8
  h_interface :: hardy_interface
  h_interface_name :: rstr
  h_peers :: "'n peer_config list"

text \<open>\<open>impl Default for Config\<close>, which serde uses for missing fields.\<close>

definition hardy_config_default :: "'n hardy_config" where
  "hardy_config_default = \<lparr>h_local_addr = 1, h_port = 1, h_interface = HLoopback,
     h_interface_name = ''vcan0'', h_peers = []\<rparr>"

section \<open>Lemmas\<close>

lemma str_split_join: "c \<notin> set a \<Longrightarrow> str_split c (a @ c # b) = a # str_split c b"
  by (induction a) auto

lemma str_split_single: "c \<notin> set a \<Longrightarrow> str_split c a = [a]"
  by (induction a) auto

lemma str_split_nonempty: "str_split c s \<noteq> []"
  by (cases s) (auto split: list.split)

lemma u8_parse_Inr: "u8_parse s = Inr x \<longleftrightarrow> u8_from_str s = Some x"
  by (simp add: u8_parse_def split: option.split)

lemma comma_not_in_show_u8 [simp]: "CHR '','' \<notin> set (show_u8 x)"
  using show_u8_digits [of "CHR '',''" x] not_digit_sign by blast

section \<open>Properties\<close>

text \<open>
  \<open>PeerConfig::from_str\<close> accepts exactly the strings of three comma-separated parts, a
  node identifier and two 8-bit decimal numbers, and returns their values; so a peer written
  as \<open>NODE_ID,ADDR,PORT\<close> is read back.
\<close>

theorem peer_config_text:
  "(peer_config_from_str parse_node s = Inr c \<longleftrightarrow>
     (\<exists>s0 s1 s2. str_split (CHR '','') s = [s0, s1, s2] \<and> parse_node s0 = Inr (node_id c) \<and>
        u8_from_str s1 = Some (peer_csp_addr c) \<and> u8_from_str s2 = Some (peer_csp_port c))) \<and>
   (CHR '','' \<notin> set txt \<and> parse_node txt = Inr n \<longrightarrow>
      peer_config_from_str parse_node (txt @ '','' @ show_u8 a @ '','' @ show_u8 p) =
        Inr \<lparr>node_id = n, peer_csp_addr = a, peer_csp_port = p\<rparr>)"
proof -
  have iff: "peer_config_from_str parse_node s = Inr c \<longleftrightarrow>
     (\<exists>s0 s1 s2. str_split (CHR '','') s = [s0, s1, s2] \<and> parse_node s0 = Inr (node_id c) \<and>
        u8_from_str s1 = Some (peer_csp_addr c) \<and> u8_from_str s2 = Some (peer_csp_port c))" for s c
    by (cases c, cases "str_split (CHR '','') s" rule: remdups_adj.cases)
      (auto simp: peer_config_from_str_def iter_next_def Let_def and_then_eq_Inr u8_parse_Inr
        split: list.splits prod.splits)
  moreover have "peer_config_from_str parse_node (txt @ '','' @ show_u8 a @ '','' @ show_u8 p) =
        Inr \<lparr>node_id = n, peer_csp_addr = a, peer_csp_port = p\<rparr>"
    if "CHR '','' \<notin> set txt" "parse_node txt = Inr n"
    using that by (simp add: iff str_split_join str_split_single)
  ultimately show ?thesis by blast
qed

theorem peer_config_text_witness:
  "peer_config_from_str Inr ''ipn:2.0,2,10'' = Inr \<lparr>node_id = ''ipn:2.0'', peer_csp_addr = 2, peer_csp_port = 10\<rparr>"
proof -
  have "show_u8 2 = ''2''" "show_u8 10 = ''10''"
    by (simp_all add: show_u8_def show_nat.simps digit_char_def char_of_def bit_0)
  with peer_config_text [of Inr "[]" _ "''ipn:2.0''" "''ipn:2.0''" 2 10] show ?thesis by simp
qed

end
