(* ===== verification/HardyCla.thy ===== *)
theory HardyCla
  imports HardyConfig ReopenLoop Instance
begin

text \<open>
  The Hardy convergence layer adapter (\<open>lib.rs\<close>, \<open>cla.rs\<close>, \<open>transport.rs\<close> and
  \<open>dispatcher.rs\<close> of \<open>rust-bindings/hardy-cspcl/src\<close>): its construction from the
  configuration, the registration of peers, forwarding, and the loop of the dispatcher of
  inbound bundles. The BPA (node identifiers, the sink) is third-party code and a parameter.
\<close>

section \<open>The adapter\<close>

definition peer_address :: "'n peer_config \<Rightarrow> csp_address" where
  "peer_address p = CspAddress (peer_csp_addr p) (peer_csp_port p)"

definition hardy_interface_into :: "hardy_interface \<Rightarrow> rstr \<Rightarrow> interface_config" where
  "hardy_interface_into i name = (case i of HLoopback \<Rightarrow> Loopback | HCan \<Rightarrow> Can name)"

text \<open>The map that \<open>Cla::new\<close> builds: a later peer with the same address replaces the earlier.\<close>

definition csp_to_endpoint :: "'n peer_config list \<Rightarrow> csp_address \<rightharpoonup> 'n" where
  "csp_to_endpoint peers = fold (\<lambda>peer m. m(peer_address peer \<mapsto> node_id peer)) peers Map.empty"

text \<open>\<open>transport::Error\<close>.\<close>

datatype transport_error = TransportInit error | TransportSend error | TransportRecv error

text \<open>The adapter's \<open>Error\<close>; \<open>'c\<close> is the \<open>cla::Error\<close> of the BPA.\<close>

datatype 'c hardy_error =
    InitError transport_error
  | Registration 'c
  | CscplInit error
  | DispatcherError rstr
  | SinkMissing

text \<open>
  The adapter. Its transport and its cancellation token are shared with the dispatcher (see
  \<open>HardyLifecycle\<close>); the sink is set once.
\<close>

record ('n, 's) cla =
  endpoints :: "csp_address \<rightharpoonup> 'n"
  cla_sink :: "'s option"

definition cla_new ::
  "'w c_init \<Rightarrow> 'n hardy_config \<Rightarrow> 'w \<Rightarrow>
   ('c hardy_error, ('n, 's) cla) rresult \<times> 'w" where
  "cla_new cspcl_init c w =
     (let (r, w') = cspcl_new cspcl_init (CspAddress (h_local_addr c) (h_port c))
        (hardy_interface_into (h_interface c) (h_interface_name c)) w
      in (map_ok (\<lambda>_. \<lparr>endpoints = csp_to_endpoint (h_peers c), cla_sink = None\<rparr>)
            (map_err CscplInit r), w'))"

text \<open>\<open>Cla::sink\<close>.\<close>

definition get_sink :: "('n, 's) cla \<Rightarrow> ('c hardy_error, 's) rresult" where
  "get_sink c = ok_or (cla_sink c) SinkMissing"

section \<open>Registration\<close>

datatype cla_address = Private "u8 list" | OtherAddress

text \<open>
  \<open>register_peers\<close>: the calls of \<open>add_peer\<close> on the sink. \<open>iter\<close> lists the entries of the
  map in the unspecified order of a \<open>HashMap\<close>. Failed calls are only logged.
\<close>

definition register_peers ::
  "((csp_address \<rightharpoonup> 'n) \<Rightarrow> (csp_address \<times> 'n) list) \<Rightarrow> ('n, 's) cla \<Rightarrow>
   ('c hardy_error, ('s \<times> cla_address \<times> 'n list) list) rresult" where
  "register_peers iter c =
     map_ok (\<lambda>sink. map (\<lambda>(a, n). (sink, Private (bytes_from a), [n])) (iter (endpoints c))) (get_sink c)"

text \<open>\<open>Once::call_once\<close> keeps the first sink.\<close>

definition call_once :: "'a option \<Rightarrow> 'a \<Rightarrow> 'a option" where
  "call_once o' x = (case o' of None \<Rightarrow> Some x | Some y \<Rightarrow> Some y)"

definition on_register ::
  "((csp_address \<rightharpoonup> 'n) \<Rightarrow> (csp_address \<times> 'n) list) \<Rightarrow> 's \<Rightarrow> ('n, 's) cla \<Rightarrow>
   (('n, 's) cla \<times> ('s \<times> cla_address \<times> 'n list) list) outcome" where
  "on_register iter sink c =
     (let c' = c\<lparr>cla_sink := call_once (cla_sink c) sink\<rparr>
      in case (register_peers iter c' :: (unit hardy_error, _) rresult) of
           Inl _ \<Rightarrow> Panics
         | Inr calls \<Rightarrow> Returns (c', calls))"

text \<open>\<open>start_dispatcher\<close>: what the dispatcher is made of.\<close>

record ('n, 's) dispatcher =
  d_endpoints :: "csp_address \<rightharpoonup> 'n"
  d_sink :: 's

definition start_dispatcher :: "('n, 's) cla \<Rightarrow> ('c hardy_error, ('n, 's) dispatcher) rresult" where
  "start_dispatcher c =
     map_ok (\<lambda>sink. \<lparr>d_endpoints = endpoints c, d_sink = sink\<rparr>) (get_sink c)"

section \<open>Forwarding\<close>

datatype forward_result = Sent | NoNeighbour

text \<open>\<open>cla::Error::Internal\<close> around the error of an address or of a send.\<close>

datatype cla_error = InternalAddress error | InternalSend transport_error

definition transport_send ::
  "(u8 list \<Rightarrow> csp_address \<Rightarrow> unit cresult outcome) \<Rightarrow> u8 list \<Rightarrow> csp_address \<Rightarrow>
   (transport_error, unit) rresult outcome" where
  "transport_send send_bundle_async bytes dest =
     (case send_bundle_async bytes dest of
        Panics \<Rightarrow> Panics
      | Returns r \<Rightarrow> Returns (map_err TransportSend r))"

definition forward ::
  "(u8 list \<Rightarrow> csp_address \<Rightarrow> unit cresult outcome) \<Rightarrow> cla_address \<Rightarrow> u8 list \<Rightarrow>
   (cla_error, forward_result) rresult outcome" where
  "forward send_bundle_async ca bytes =
     (case ca of
        OtherAddress \<Rightarrow> Returns (Inr NoNeighbour)
      | Private raw \<Rightarrow>
          (case map_err InternalAddress (try_from_bytes raw) of
             Inl e \<Rightarrow> Returns (Inl e)
           | Inr dest \<Rightarrow>
               (case transport_send send_bundle_async bytes dest of
                  Panics \<Rightarrow> Panics
                | Returns (Inr _) \<Rightarrow> Returns (Inr Sent)
                | Returns (Inl e) \<Rightarrow> Returns (Inl (InternalSend e)))))"

section \<open>The dispatcher\<close>

text \<open>The constants and the \<open>Backoff\<close> of \<open>dispatcher.rs\<close>.\<close>

definition HARDY_REOPEN_DELAY :: duration where "HARDY_REOPEN_DELAY = from_millis 500"
definition HARDY_MAX_REOPEN_DELAY :: duration where "HARDY_MAX_REOPEN_DELAY = from_secs 30"

definition hardy_backoff_new :: backoff where
  "hardy_backoff_new = \<lparr>delay = HARDY_REOPEN_DELAY\<rparr>"

definition hardy_backoff_wait :: "backoff \<Rightarrow> duration \<times> backoff" where
  "hardy_backoff_wait b =
     (let d = delay b in (d, b\<lparr>delay := min (d * 2) HARDY_MAX_REOPEN_DELAY\<rparr>))"

text \<open>
  The answers the dispatcher's awaits get. The \<open>select!\<close>s are biased: a cancelled token is
  taken first.
\<close>

datatype hardy_answer =
    HCancelled
  | HOpened "(open_error, unit) rresult" instant
  | HItem "item option" instant
  | HWaited bool

datatype 'n hardy_result =
    HDispatches "u8 list" "'n option" cla_address
  | HBreaks
  | HGoes

definition hardy_pause :: "backoff \<Rightarrow> rx_loop \<Rightarrow> rx_loop" where
  "hardy_pause b st = (let (d, b') = hardy_backoff_wait b in st\<lparr>stage := Pausing d, backoff := b'\<rparr>)"

definition hardy_start :: "instant \<Rightarrow> rx_loop" where
  "hardy_start now = \<lparr>stage = Opening, opened_at = now, backoff = hardy_backoff_new\<rparr>"

text \<open>What \<open>dispatch\<close> is called with for a received bundle.\<close>

definition dispatch_call :: "(csp_address \<rightharpoonup> 'n) \<Rightarrow> bp_bundle \<Rightarrow> 'n hardy_result" where
  "dispatch_call peers b =
     (let csp_peer_addr = CspAddress (src_addr b) (src_port b)
      in HDispatches (data b) (peers csp_peer_addr) (Private (bytes_from csp_peer_addr)))"

fun hardy_turn ::
  "(csp_address \<rightharpoonup> 'n) \<Rightarrow> rx_loop \<Rightarrow> hardy_answer \<Rightarrow> ('n hardy_result \<times> rx_loop) option" where
  "hardy_turn peers st HCancelled =
     (case stage st of Pausing _ \<Rightarrow> None | _ \<Rightarrow> Some (HBreaks, st))"
| "hardy_turn peers st (HOpened r now) =
     (if stage st \<noteq> Opening then None
      else Some (case r of
             Inr _ \<Rightarrow> (HGoes, st\<lparr>stage := Reading, opened_at := now\<rparr>)
           | Inl Closed \<Rightarrow> (HBreaks, st)
           | Inl Failed \<Rightarrow> (HGoes, hardy_pause (backoff st) st)))"
| "hardy_turn peers st (HItem it now) =
     (if stage st \<noteq> Reading then None
      else Some (case it of
             Some (Inr b) \<Rightarrow> (dispatch_call peers b, st)
           | Some (Inl e) \<Rightarrow> (HGoes, st)
           | None \<Rightarrow>
               let st1 = st\<lparr>stage := Opening\<rparr>;
                   b = (if saturating_duration_since now (opened_at st1) > delay (backoff st1)
                        then hardy_backoff_new else backoff st1)
               in (HGoes, hardy_pause b st1)))"
| "hardy_turn peers st (HWaited cancel) =
     (case stage st of
        Pausing _ \<Rightarrow> Some (if cancel then (HBreaks, st) else (HGoes, st\<lparr>stage := Opening\<rparr>))
      | _ \<Rightarrow> None)"

fun hardy_run :: "(csp_address \<rightharpoonup> 'n) \<Rightarrow> rx_loop \<Rightarrow> hardy_answer list \<Rightarrow> ('n hardy_result list \<times> bool) option" where
  "hardy_run peers st [] = Some ([], False)"
| "hardy_run peers st (a # as) =
     (case hardy_turn peers st a of
        None \<Rightarrow> None
      | Some (HGoes, st') \<Rightarrow> hardy_run peers st' as
      | Some (HBreaks, st') \<Rightarrow> Some ([], True)
      | Some (d, st') \<Rightarrow> map_option (\<lambda>(ds, e). (d # ds, e)) (hardy_run peers st' as))"

section \<open>Lemmas\<close>

interpretation hardy_reopen: growing_pause hardy_backoff_new delay hardy_backoff_wait
  HARDY_REOPEN_DELAY HARDY_MAX_REOPEN_DELAY
  by unfold_locales (simp_all add: hardy_backoff_new_def hardy_backoff_wait_def
      HARDY_REOPEN_DELAY_def HARDY_MAX_REOPEN_DELAY_def time_defs Let_def)

lemma hardy_backoff_same: "hardy_backoff_new = backoff_new" "hardy_pause = rx_pause"
  by (simp_all add: fun_eq_iff hardy_backoff_new_def backoff_new_def hardy_pause_def rx_pause_def
      hardy_backoff_wait_def backoff_wait_def HARDY_REOPEN_DELAY_def HARDY_MAX_REOPEN_DELAY_def
      reopen_consts)

lemma csp_to_endpoint_fold:
  "fold (\<lambda>peer m. m(peer_address peer \<mapsto> node_id peer)) peers m a =
     (case find (\<lambda>p. peer_address p = a) (rev peers) of Some p \<Rightarrow> Some (node_id p) | None \<Rightarrow> m a)"
proof (induction peers arbitrary: m rule: rev_induct)
  case (snoc p peers)
  then show ?case by simp
qed simp

text \<open>The picod3tn answer that stands for an answer the dispatcher gets at a stage.\<close>

fun pico_answer :: "stage \<Rightarrow> hardy_answer \<Rightarrow> answer" where
  "pico_answer Opening HCancelled = Opened (Inl Closed) 0"
| "pico_answer _ HCancelled = Item None 0 True"
| "pico_answer _ (HOpened r now) = Opened r now"
| "pico_answer _ (HItem it now) = Item it now False"
| "pico_answer _ (HWaited b) = Waited b"

fun pico_answers :: "(csp_address \<rightharpoonup> 'n) \<Rightarrow> rx_loop \<Rightarrow> hardy_answer list \<Rightarrow> answer list" where
  "pico_answers peers st [] = []"
| "pico_answers peers st (a # as) =
     pico_answer (stage st) a #
       (case hardy_turn peers st a of Some (_, st') \<Rightarrow> pico_answers peers st' as | None \<Rightarrow> [])"

text \<open>What the BPA gets of a bundle, but for the node identifier.\<close>

definition dispatches :: "'n hardy_result \<Rightarrow> pico_received \<Rightarrow> bool" where
  "dispatches d b \<longleftrightarrow> (\<exists>n. d = HDispatches (rx_data b) n (Private [rx_src_addr b, rx_src_port b]))"

lemma dispatch_call_dispatches: "dispatches (dispatch_call peers b) (received_from b)"
  by (simp add: dispatches_def dispatch_call_def received_from_def bytes_from_def)

lemma dispatch_call_not [simp]: "dispatch_call peers b \<noteq> HGoes" "dispatch_call peers b \<noteq> HBreaks"
  by (simp_all add: dispatch_call_def Let_def)

lemma hardy_turn_sim:
  assumes "hardy_turn peers st a = Some (r, st')"
  obtains "r = HBreaks" "\<exists>u. rx_turn st (pico_answer (stage st) a) = Some (Ends, u)"
  | "r = HGoes" "rx_turn st (pico_answer (stage st) a) = Some (Goes, st')"
  | b where "dispatches r b" "r \<noteq> HBreaks" "r \<noteq> HGoes"
      "rx_turn st (pico_answer (stage st) a) = Some (Yields b, st')"
proof (cases a)
  case HCancelled
  with assms that(1) show ?thesis by (cases "stage st") auto
next
  case (HOpened o' now)
  with assms that(1,2) show ?thesis
    by (auto simp: hardy_backoff_same split: if_splits sum.splits open_error.splits)
next
  case (HItem it now)
  show ?thesis
  proof (cases "\<exists>b. it = Some (Inr b)")
    case True
    then obtain b where "it = Some (Inr b)" by blast
    with HItem assms that(3) [of "received_from b"] dispatch_call_dispatches [of peers b] show ?thesis
      by (auto split: if_splits)
  next
    case False
    with HItem assms that(2) show ?thesis
      by (auto simp: hardy_backoff_same Let_def split: if_splits option.splits sum.splits)
  qed
next
  case (HWaited c)
  with assms that(1,2) show ?thesis by (auto split: stage.splits if_splits)
qed

lemma hardy_run_sim:
  "hardy_run peers st as = Some (ds, e) \<Longrightarrow>
   \<exists>bs st'. rx_run st (pico_answers peers st as) = Some (bs, e, st') \<and> list_all2 dispatches ds bs"
proof (induction as arbitrary: st ds)
  case (Cons a as)
  from Cons.prems obtain r st1 where t: "hardy_turn peers st a = Some (r, st1)"
    by (auto split: option.splits)
  from t show ?case
  proof (cases rule: hardy_turn_sim)
    case 1
    with Cons.prems t show ?thesis by auto
  next
    case 2
    with Cons.prems t Cons.IH [of st1 ds] show ?thesis by auto
  next
    case (3 b)
    obtain d n ca where r: "r = HDispatches d n ca" using 3(1) by (auto simp: dispatches_def)
    with Cons.prems t obtain ds' where ds: "hardy_run peers st1 as = Some (ds', e)" "ds = r # ds'"
      by auto
    with 3 Cons.IH [OF ds(1)] t show ?thesis by fastforce
  qed
qed simp

text \<open>Every configured peer has an entry, that of the last peer with its address.\<close>

lemma csp_to_endpoint_peer:
  assumes "p \<in> set peers"
  shows "\<exists>q \<in> set peers. peer_address q = peer_address p \<and>
    csp_to_endpoint peers (peer_address p) = Some (node_id q)"
proof -
  obtain q where q: "find (\<lambda>q. peer_address q = peer_address p) (rev peers) = Some q"
    using assms by (cases "find (\<lambda>q. peer_address q = peer_address p) (rev peers)") (auto simp: find_None_iff)
  then have "q \<in> set peers" "peer_address q = peer_address p"
    by (auto simp: find_Some_iff) (metis length_rev nth_mem set_rev)
  then show ?thesis
    by (intro bexI [of _ q]) (simp_all add: csp_to_endpoint_def csp_to_endpoint_fold q)
qed

section \<open>Properties\<close>

text \<open>
  C28: hardy's dispatcher and picod3tn's receive loop behave alike. Fed the same answers (a
  cancelled token standing for a shutdown), the dispatcher hands the BPA exactly the bundles,
  with the same bytes, source address and port, that the picod3tn stream yields, in the same
  order, and it ends exactly when that one ends.
\<close>

theorem dispatcher_agrees_with_picod3tn:
  assumes "hardy_run peers (hardy_start t0) as = Some (ds, ended)"
  shows "\<exists>bs st. rx_run (rx_start t0) (pico_answers peers (hardy_start t0) as) = Some (bs, ended, st) \<and>
    list_all2 dispatches ds bs"
proof -
  have "rx_start t0 = hardy_start t0"
    by (simp add: rx_start_def hardy_start_def hardy_backoff_same)
  with hardy_run_sim [OF assms] show ?thesis by simp
qed

definition sample_peers :: "rstr peer_config list" where
  "sample_peers = [\<lparr>node_id = ''ipn:2.0'', peer_csp_addr = 5, peer_csp_port = 10\<rparr>]"

definition hardy_sample :: "hardy_answer list" where
  "hardy_sample = [HOpened (Inr ()) 5, HItem (Some (Inr \<lparr>data = [1], src_addr = 5, src_port = 60\<rparr>)) 7, HCancelled]"

theorem dispatcher_agrees_with_picod3tn_witness:
  "hardy_run (csp_to_endpoint sample_peers) (hardy_start 0) hardy_sample =
     Some ([HDispatches [1] None (Private [5, 60])], True) \<and>
   (\<exists>bs st. rx_run (rx_start 0) (pico_answers (csp_to_endpoint sample_peers) (hardy_start 0) hardy_sample) =
     Some (bs, True, st))"
proof -
  have r: "hardy_run (csp_to_endpoint sample_peers) (hardy_start 0) hardy_sample =
     Some ([HDispatches [1] None (Private [5, 60])], True)"
    by (simp add: hardy_sample_def hardy_start_def dispatch_call_def bytes_from_def csp_to_endpoint_def
        sample_peers_def peer_address_def)
  with dispatcher_agrees_with_picod3tn [OF r] show ?thesis by blast
qed

text \<open>
  C40: the dispatcher never names the sending node to the BPA when, as in CSP, peers listen on
  ports up to 31 and outgoing connections have a source port above that: it looks the peer up
  by the source port of the connection, while the configured peers are stored under the port
  they listen on. So the node identifier is missing for every bundle, from a configured peer
  too.
\<close>

theorem dispatch_never_names_peer:
  assumes "\<And>p. p \<in> set peers \<Longrightarrow> peer_csp_port p \<le> 31" and "31 < src_port b"
  shows "dispatch_call (csp_to_endpoint peers) b =
    HDispatches (data b) None (Private [src_addr b, src_port b])"
proof -
  have "find (\<lambda>p. peer_address p = CspAddress (src_addr b) (src_port b)) (rev peers) = None"
    using assms by (fastforce simp: find_None_iff peer_address_def)
  then show ?thesis
    by (simp add: dispatch_call_def bytes_from_def csp_to_endpoint_def csp_to_endpoint_fold)
qed

theorem dispatch_never_names_peer_witness:
  "csp_to_endpoint sample_peers (CspAddress 5 10) = Some ''ipn:2.0'' \<and>
   dispatch_call (csp_to_endpoint sample_peers) \<lparr>data = [1], src_addr = 5, src_port = 60\<rparr> =
     HDispatches [1] None (Private [5, 60])"
  using dispatch_never_names_peer [of sample_peers "\<lparr>data = [1], src_addr = 5, src_port = 60\<rparr>"]
  by (simp add: sample_peers_def csp_to_endpoint_def peer_address_def)

text \<open>
  C29: a configured peer can be reached. Registering the peers tells the BPA, for each of them,
  an address that \<open>forward\<close> decodes to exactly the CSP address and port in the configuration
  (the last entry with that address and port gives the node), and forwards the bundle there;
  a malformed address or one of another type sends nothing.
\<close>

theorem registered_peer_is_forwarded:
  assumes new: "fst (cla_new cspcl_init cfg w) = Inr c" and p: "p \<in> set (h_peers cfg)"
    and iter: "set (iter (endpoints c)) = Map.graph (endpoints c)"
  shows "\<exists>calls n. on_register iter sink c = Returns (c\<lparr>cla_sink := Some sink\<rparr>, calls) \<and>
    (sink, Private (bytes_from (peer_address p)), [n]) \<in> set calls \<and>
    (\<exists>q \<in> set (h_peers cfg). peer_address q = peer_address p \<and> node_id q = n) \<and>
    forward c_send (Private (bytes_from (peer_address p))) bytes =
      (case c_send bytes (peer_address p) of
         Panics \<Rightarrow> Panics
       | Returns (Inr _) \<Rightarrow> Returns (Inr Sent)
       | Returns (Inl e) \<Rightarrow> Returns (Inl (InternalSend (TransportSend e))))"
proof -
  have c: "c = \<lparr>endpoints = csp_to_endpoint (h_peers cfg), cla_sink = None\<rparr>"
    using new by (auto simp: cla_new_def Let_def map_ok_eq_Inr split: prod.splits)
  obtain q where q: "q \<in> set (h_peers cfg)" "peer_address q = peer_address p"
      "endpoints c (peer_address p) = Some (node_id q)"
    using csp_to_endpoint_peer [OF p] by (auto simp: c)
  then have "(peer_address p, node_id q) \<in> set (iter (endpoints c))"
    using iter by (simp add: in_graphI)
  then have "(sink, Private (bytes_from (peer_address p)), [node_id q]) \<in>
      set (map (\<lambda>(a, n). (sink, Private (bytes_from a), [n])) (iter (endpoints c)))"
    by force
  moreover have "on_register iter sink c = Returns (c\<lparr>cla_sink := Some sink\<rparr>,
      map (\<lambda>(a, n). (sink, Private (bytes_from a), [n])) (iter (endpoints c)))"
    by (simp add: c on_register_def call_once_def register_peers_def get_sink_def)
  moreover have "forward c_send (Private (bytes_from (peer_address p))) bytes =
      (case c_send bytes (peer_address p) of
         Panics \<Rightarrow> Panics
       | Returns (Inr _) \<Rightarrow> Returns (Inr Sent)
       | Returns (Inl e) \<Rightarrow> Returns (Inl (InternalSend (TransportSend e))))"
    by (simp add: forward_def transport_send_def split: outcome.split sum.split)
  ultimately show ?thesis using q(1,2) by blast
qed

definition sample_cfg :: "rstr hardy_config" where
  "sample_cfg = hardy_config_default\<lparr>h_peers := sample_peers\<rparr>"

definition sample_init :: "cspcl_t \<Rightarrow> unit \<Rightarrow> cspcl_error_t \<times> cspcl_t \<times> unit" where
  "sample_init c w = (CSPCL_OK, c\<lparr>c_initialized := True\<rparr>, w)"

theorem registered_peer_is_forwarded_witness:
  "fst (cla_new sample_init sample_cfg ()) =
     (Inr \<lparr>endpoints = [CspAddress 5 10 \<mapsto> ''ipn:2.0''], cla_sink = None\<rparr> :: (unit hardy_error, (rstr, nat) cla) rresult) \<and>
   forward (\<lambda>_ dest. Returns (Inr ())) (Private [5, 10]) [1] = Returns (Inr Sent)"
proof -
  let ?c = "\<lparr>endpoints = [CspAddress 5 10 \<mapsto> ''ipn:2.0''], cla_sink = None\<rparr> :: (rstr, nat) cla"
  have c: "fst (cla_new sample_init sample_cfg ()) = (Inr ?c :: (unit hardy_error, _) rresult)"
    by (simp add: cla_new_def sample_cfg_def hardy_config_default_def sample_peers_def csp_to_endpoint_def
        peer_address_def sample_init_def cspcl_new_def init_from_config_def sys_init_instance_def prim_defs ok_or_err_def)
  have g: "set ((\<lambda>_. [(CspAddress 5 10, ''ipn:2.0'')]) (endpoints ?c)) = Map.graph (endpoints ?c)"
    by (auto simp: Map.graph_def split: if_splits)
  from registered_peer_is_forwarded [OF c _ g, of "hd sample_peers" 0 "\<lambda>_ dest. Returns (Inr ())" "[1]"] c
  show ?thesis by (auto simp: sample_cfg_def sample_peers_def peer_address_def bytes_from_def)
qed

end
