(* ===== verification/HardyLifecycle.thy ===== *)
theory HardyLifecycle
  imports HardyCla
begin

text \<open>
  The life of a registered Hardy adapter as a step relation: the dispatcher task
  (\<open>start_dispatch_inbound_bundle\<close>), the thread that \<open>Transport::inbound_stream\<close> starts to
  open a stream, and the calls of \<open>Cla::cleanup\<close> with \<open>Transport::cleanup\<close>. They share the
  cancellation token, the transport's \<open>closed\<close> flag with its lock, and the inbound streams.
\<close>

section \<open>State\<close>

text \<open>
  A call of \<open>Cla::cleanup\<close>: it has cancelled the dispatcher, holds the \<open>closed\<close> lock with the
  flag set, or has closed the receive socket and returned.
\<close>

datatype clean_pc = CleanIdle | CleanCancelled | CleanFlagged | CleanDone

text \<open>
  The opening of a stream: none, the thread is running, or its answer is in the oneshot channel
  (\<open>Failed\<close> stands for a thread that could not be started or panicked).
\<close>

datatype open_pc = NotOpening | OpenThread | OpenSent "(open_error, nat) rresult"

text \<open>
  \<open>h_streams\<close> are the inbound streams that have not ended. The dispatcher has its loop state,
  the stream it reads, and the bundle it has taken from it but not dispatched yet.
\<close>

record 'n hardy_sys =
  h_lock :: "nat option"
  h_closed :: bool
  h_cancel :: bool
  h_streams :: "nat set"
  h_cleaner :: "nat \<Rightarrow> clean_pc"
  h_opening :: open_pc
  h_loop :: rx_loop
  h_inbound :: "nat option"
  h_taken :: "'n hardy_result option"
  h_ended :: bool
  h_dispatched :: "'n hardy_result list"

definition hardy_sys_init :: "instant \<Rightarrow> 'n hardy_sys" where
  "hardy_sys_init now =
     \<lparr>h_lock = None, h_closed = False, h_cancel = False, h_streams = {}, h_cleaner = (\<lambda>_. CleanIdle),
      h_opening = NotOpening, h_loop = hardy_start now, h_inbound = None, h_taken = None,
      h_ended = False, h_dispatched = []\<rparr>"

section \<open>Operations\<close>

text \<open>
  The thread of \<open>inbound_stream\<close>, with the \<open>closed\<close> lock held: it opens stream \<open>i\<close> unless the
  transport was closed. If the dispatcher has gone, sending the stream fails and drops it with
  the lock still held.
\<close>

definition inbound_stream_thread :: "nat \<Rightarrow> 'n hardy_sys \<Rightarrow> 'n hardy_sys" where
  "inbound_stream_thread i s =
     (if h_closed s then s\<lparr>h_opening := OpenSent (Inl Closed)\<rparr>
      else if h_ended s then s\<lparr>h_opening := NotOpening\<rparr>
      else s\<lparr>h_opening := OpenSent (Inr i), h_streams := insert i (h_streams s)\<rparr>)"

text \<open>The end of the dispatcher drops its stream, or the one waiting in the oneshot channel.\<close>

definition dispatcher_break :: "'n hardy_sys \<Rightarrow> 'n hardy_sys" where
  "dispatcher_break s =
     s\<lparr>h_ended := True, h_inbound := None,
       h_streams := h_streams s - set_option (h_inbound s) -
         (case h_opening s of OpenSent (Inr i) \<Rightarrow> {i} | _ \<Rightarrow> {}),
       h_opening := (case h_opening s of OpenSent _ \<Rightarrow> NotOpening | p \<Rightarrow> p)\<rparr>"

text \<open>The dispatcher's loop from an answer to its next await, or to the call of \<open>dispatch\<close>.\<close>

definition dispatcher_turn ::
  "(csp_address \<rightharpoonup> 'n) \<Rightarrow> hardy_answer \<Rightarrow> 'n hardy_sys \<Rightarrow> 'n hardy_sys option" where
  "dispatcher_turn peers a s =
     (case hardy_turn peers (h_loop s) a of
        None \<Rightarrow> None
      | Some (HBreaks, st) \<Rightarrow> Some (dispatcher_break (s\<lparr>h_loop := st\<rparr>))
      | Some (HGoes, st) \<Rightarrow> Some (s\<lparr>h_loop := st\<rparr>)
      | Some (d, st) \<Rightarrow> Some (s\<lparr>h_loop := st, h_taken := Some d\<rparr>))"

text \<open>Whether the dispatcher is at one of its awaits.\<close>

definition awaiting :: "'n hardy_sys \<Rightarrow> bool" where
  "awaiting s = (\<not> h_ended s \<and> h_taken s = None)"

section \<open>Steps\<close>

text \<open>
  The selects are biased: an answer other than the cancellation is only taken while the token
  is not cancelled. A bundle taken before is dispatched even if the token is cancelled then.
\<close>

inductive hardy_step :: "(csp_address \<rightharpoonup> 'n) \<Rightarrow> 'n hardy_sys \<Rightarrow> 'n hardy_sys \<Rightarrow> bool" for peers where
  d_spawn: "awaiting s \<Longrightarrow> \<not> h_cancel s \<Longrightarrow> stage (h_loop s) = Opening \<Longrightarrow> h_opening s = NotOpening \<Longrightarrow>
    hardy_step peers s (s\<lparr>h_opening := OpenThread\<rparr>)"
| d_spawn_fails: "awaiting s \<Longrightarrow> \<not> h_cancel s \<Longrightarrow> stage (h_loop s) = Opening \<Longrightarrow> h_opening s = NotOpening \<Longrightarrow>
    hardy_step peers s (s\<lparr>h_opening := OpenSent (Inl Failed)\<rparr>)"
| o_run: "h_opening s = OpenThread \<Longrightarrow> h_lock s = None \<Longrightarrow> i \<notin> h_streams s \<Longrightarrow>
    hardy_step peers s (inbound_stream_thread i s)"
| o_panic: "h_opening s = OpenThread \<Longrightarrow> hardy_step peers s (s\<lparr>h_opening := OpenSent (Inl Failed)\<rparr>)"
| d_opened: "awaiting s \<Longrightarrow> \<not> h_cancel s \<Longrightarrow> h_opening s = OpenSent r \<Longrightarrow>
    dispatcher_turn peers (HOpened (map_ok (\<lambda>_. ()) r) now)
      (s\<lparr>h_opening := NotOpening, h_inbound := (case r of Inr i \<Rightarrow> Some i | Inl _ \<Rightarrow> None)\<rparr>) = Some t \<Longrightarrow>
    hardy_step peers s t"
| d_item: "awaiting s \<Longrightarrow> \<not> h_cancel s \<Longrightarrow> h_inbound s = Some i \<Longrightarrow>
    dispatcher_turn peers (HItem (Some it) now) s = Some t \<Longrightarrow> hardy_step peers s t"
| d_stream_end: "awaiting s \<Longrightarrow> \<not> h_cancel s \<Longrightarrow> h_inbound s = Some i \<Longrightarrow> i \<notin> h_streams s \<Longrightarrow>
    dispatcher_turn peers (HItem None now) (s\<lparr>h_inbound := None\<rparr>) = Some t \<Longrightarrow> hardy_step peers s t"
| d_waited: "awaiting s \<Longrightarrow> dispatcher_turn peers (HWaited (h_cancel s)) s = Some t \<Longrightarrow>
    hardy_step peers s t"
| d_cancelled: "awaiting s \<Longrightarrow> h_cancel s \<Longrightarrow> dispatcher_turn peers HCancelled s = Some t \<Longrightarrow>
    hardy_step peers s t"
| d_dispatch: "h_taken s = Some d \<Longrightarrow>
    hardy_step peers s (s\<lparr>h_taken := None, h_dispatched := h_dispatched s @ [d]\<rparr>)"
| stream_ends: "hardy_step peers s (s\<lparr>h_streams := h_streams s - {i}\<rparr>)"
| c_cancel: "h_cleaner s j = CleanIdle \<Longrightarrow>
    hardy_step peers s (s\<lparr>h_cancel := True, h_cleaner := (h_cleaner s)(j := CleanCancelled)\<rparr>)"
| c_lock: "h_cleaner s j = CleanCancelled \<Longrightarrow> h_lock s = None \<Longrightarrow>
    hardy_step peers s (s\<lparr>h_lock := Some j, h_closed := True, h_cleaner := (h_cleaner s)(j := CleanFlagged)\<rparr>)"
| c_close: "h_cleaner s j = CleanFlagged \<Longrightarrow>
    hardy_step peers s (s\<lparr>h_streams := {}, h_lock := None, h_cleaner := (h_cleaner s)(j := CleanDone)\<rparr>)"

section \<open>Invariant\<close>

definition hardy_inv :: "'n hardy_sys \<Rightarrow> bool" where
  "hardy_inv s \<longleftrightarrow>
     (\<forall>j. h_cleaner s j = CleanFlagged \<longleftrightarrow> h_lock s = Some j) \<and>
     (h_cancel s \<longleftrightarrow> (\<exists>j. h_cleaner s j \<noteq> CleanIdle)) \<and>
     (h_closed s \<longleftrightarrow> (\<exists>j. h_cleaner s j = CleanFlagged \<or> h_cleaner s j = CleanDone)) \<and>
     (\<forall>j. h_cleaner s j = CleanDone \<longrightarrow> h_streams s = {}) \<and>
     (h_opening s = OpenSent (Inl Closed) \<longrightarrow> h_closed s) \<and>
     (h_ended s \<longrightarrow> h_cancel s)"

lemma hardy_invD:
  assumes "hardy_inv s"
  shows "h_lock s = Some j \<longleftrightarrow> h_cleaner s j = CleanFlagged"
    "h_cleaner s j \<noteq> CleanIdle \<Longrightarrow> h_cancel s"
    "h_cleaner s j = CleanFlagged \<Longrightarrow> h_closed s"
    "h_cleaner s j = CleanDone \<Longrightarrow> h_closed s \<and> h_streams s = {}"
  using assms unfolding hardy_inv_def by metis+

text \<open>What a turn of the dispatcher leaves alone.\<close>

lemma dispatcher_turn_frame:
  assumes "dispatcher_turn peers a s = Some t"
  shows "h_lock t = h_lock s" "h_closed t = h_closed s" "h_cancel t = h_cancel s"
    "h_cleaner t = h_cleaner s" "h_dispatched t = h_dispatched s" "h_streams t \<subseteq> h_streams s"
    "h_opening t = h_opening s \<or> h_opening t = NotOpening"
  using assms
  by (auto simp: dispatcher_turn_def dispatcher_break_def split: option.splits hardy_result.splits
      open_pc.splits sum.splits)

text \<open>A turn ends the loop only on a cancellation, and takes a bundle only from the stream.\<close>

lemma dispatcher_turn_ends:
  assumes "dispatcher_turn peers a s = Some t" and "\<not> h_ended s"
  shows "h_ended t \<longleftrightarrow> a \<in> {HCancelled, HWaited True} \<or> (\<exists>now. a = HOpened (Inl Closed) now)"
  using assms
  by (cases a)
    (auto simp: dispatcher_turn_def dispatcher_break_def dispatch_call_def Let_def
      split: option.splits hardy_result.splits stage.splits if_splits sum.splits open_error.splits)

lemma dispatcher_turn_takes:
  assumes "dispatcher_turn peers a s = Some t" and "h_taken s = None" and "\<And>it now. a \<noteq> HItem (Some it) now"
  shows "h_taken t = None"
  using assms
  by (cases a)
    (auto simp: dispatcher_turn_def dispatcher_break_def Let_def
      split: option.splits hardy_result.splits stage.splits if_splits sum.splits open_error.splits)

lemma hardy_inv_turn:
  assumes "hardy_inv s" and "dispatcher_turn peers a s = Some t" and "h_ended t \<Longrightarrow> h_cancel s"
  shows "hardy_inv t"
proof -
  note f = dispatcher_turn_frame [OF assms(2)]
  have "h_streams t = {}" if "h_cleaner t j = CleanDone" for j
    using assms(1) that f(4,6) by (auto simp: hardy_inv_def)
  then show ?thesis
    using assms(1,3) f(7) unfolding hardy_inv_def f(1-4) by auto
qed

lemma hardy_inv_step: "hardy_step peers s t \<Longrightarrow> hardy_inv s \<Longrightarrow> hardy_inv t"
proof (induction rule: hardy_step.induct)
  case (o_run s i)
  then show ?case by (auto simp: hardy_inv_def inbound_stream_thread_def)
next
  case (d_opened s r now t)
  let ?s = "s\<lparr>h_opening := NotOpening, h_inbound := (case r of Inr i \<Rightarrow> Some i | Inl _ \<Rightarrow> None)\<rparr>"
  have "hardy_inv ?s" using d_opened(5) by (auto simp: hardy_inv_def)
  moreover have "\<not> h_closed s" using d_opened(2,5) by (auto simp: hardy_inv_def)
  then have "r \<noteq> Inl Closed" using d_opened(3,5) by (auto simp: hardy_inv_def)
  then have "\<not> h_ended t"
    using dispatcher_turn_ends [OF d_opened(4)] d_opened(1) by (cases r) (auto simp: awaiting_def)
  ultimately show ?case using hardy_inv_turn [OF _ d_opened(4)] by blast
next
  case (d_item s i it now t)
  then show ?case
    using hardy_inv_turn [OF _ d_item(4)] dispatcher_turn_ends [OF d_item(4)] by (auto simp: awaiting_def)
next
  case (d_stream_end s i now t)
  have "hardy_inv (s\<lparr>h_inbound := None\<rparr>)" using d_stream_end(6) by (auto simp: hardy_inv_def)
  then show ?case
    using hardy_inv_turn [OF _ d_stream_end(5)] dispatcher_turn_ends [OF d_stream_end(5)] d_stream_end(1)
    by (auto simp: awaiting_def)
next
  case (d_waited s t)
  then show ?case
    using hardy_inv_turn [OF _ d_waited(2)] dispatcher_turn_ends [OF d_waited(2)] by (auto simp: awaiting_def)
next
  case (d_cancelled s t)
  then show ?case using hardy_inv_turn [OF _ d_cancelled(3)] by blast
next
  case (c_cancel s j)
  then have "h_lock s \<noteq> Some j" by (simp add: hardy_invD(1))
  with c_cancel show ?case by (simp add: hardy_inv_def) (metis clean_pc.distinct(1,3,5))
next
  case (c_lock s j)
  then have "h_cancel s" "\<forall>k. h_cleaner s k \<noteq> CleanFlagged"
    using hardy_invD(1,2) [OF c_lock(3)] by force+
  with c_lock show ?case by (simp add: hardy_inv_def) (metis clean_pc.distinct)
next
  case (c_close s j)
  then have "h_lock s = Some j" "h_cancel s" "h_closed s"
    using hardy_invD [OF c_close(2), of j] by simp_all
  with c_close show ?case by (simp add: hardy_inv_def) (metis clean_pc.distinct option.inject)
qed (auto simp: hardy_inv_def)

interpretation hardy: invariant_system "hardy_sys_init now" "hardy_step peers" hardy_inv for now peers
  by unfold_locales (simp add: hardy_inv_def hardy_sys_init_def, rule hardy_inv_step)

interpretation hardy_streams: closing_source "hardy_step peers" h_closed h_streams for peers
proof unfold_locales
  fix s t :: "'a hardy_sys"
  assume "hardy_step peers s t" "h_closed s"
  then have "h_closed t \<and> h_streams t \<subseteq> h_streams s"
  proof (induction rule: hardy_step.induct)
    case (d_opened s r now t)
    then show ?case using dispatcher_turn_frame [OF d_opened(4)] by simp
  next
    case (d_stream_end s i now t)
    then show ?case using dispatcher_turn_frame [OF d_stream_end(5)] by simp
  qed (auto simp: inbound_stream_thread_def dest: dispatcher_turn_frame)
  then show "h_closed t" "h_streams t \<subseteq> h_streams s" by blast+
qed

text \<open>The bundles dispatched so far, with the one that was taken and will be.\<close>

definition handed :: "'n hardy_sys \<Rightarrow> 'n hardy_result list" where
  "handed s = h_dispatched s @ (case h_taken s of None \<Rightarrow> [] | Some d \<Rightarrow> [d])"

text \<open>A cancelled dispatcher takes no further bundle.\<close>

lemma cancelled_takes_nothing:
  assumes "hardy_step peers s t" and "h_cancel s"
  shows "h_cancel t \<and> handed t = handed s"
  using assms
proof (induction rule: hardy_step.induct)
  case (d_waited s t)
  then show ?case
    using dispatcher_turn_frame [OF d_waited(2)] dispatcher_turn_takes [OF d_waited(2)]
    by (simp add: handed_def awaiting_def)
next
  case (d_cancelled s t)
  then show ?case
    using dispatcher_turn_frame [OF d_cancelled(3)] dispatcher_turn_takes [OF d_cancelled(3)]
    by (simp add: handed_def awaiting_def)
qed (simp_all add: handed_def inbound_stream_thread_def)

lemma cancelled_takes_nothing_again:
  assumes "(hardy_step peers)\<^sup>*\<^sup>* s t" and "h_cancel s"
  shows "h_cancel t \<and> handed t = handed s"
  using assms
proof (induction rule: rtranclp_induct)
  case (step t u)
  then show ?case using cancelled_takes_nothing [of peers t u] by simp
qed simp

section \<open>Properties\<close>

text \<open>
  C23: unregistering the adapter stops receiving for good. Once a \<open>cleanup\<close> has returned, in every
  later state, whatever opens, other cleanups and the dispatcher do, no inbound stream is open,
  and the BPA gets no further bundle but the one the dispatcher had taken already.
\<close>

theorem unregister_stops_receiving:
  assumes "reach (hardy_sys_init now) (hardy_step peers) s" and "h_cleaner s j = CleanDone"
    and "(hardy_step peers)\<^sup>*\<^sup>* s t"
  shows "h_streams t = {} \<and> handed t = handed s"
proof -
  have "hardy_inv s" by (rule hardy.inv_reach [OF assms(1)])
  with assms(2) have "h_closed s" "h_streams s = {}" "h_cancel s" by (auto simp: hardy_inv_def)
  with hardy_streams.no_stream_again [OF assms(3)] cancelled_takes_nothing_again [OF assms(3)]
  show ?thesis by blast
qed

text \<open>A run: a stream is opened, a bundle taken from it, and the adapter unregistered.\<close>

abbreviation hardy_bundle :: bp_bundle where
  "hardy_bundle \<equiv> \<lparr>data = [1], src_addr = 5, src_port = 60\<rparr>"

abbreviation hardy_call :: "rstr hardy_result" where
  "hardy_call \<equiv> HDispatches [1] None (Private [5, 60])"

definition hrun_taken :: "rstr hardy_sys" where
  "hrun_taken = (hardy_sys_init 0)\<lparr>h_loop := (hardy_start 0)\<lparr>stage := Reading, opened_at := 0\<rparr>,
     h_streams := {7}, h_inbound := Some 7, h_taken := Some hardy_call\<rparr>"

definition hrun_closed :: "rstr hardy_sys" where
  "hrun_closed = hrun_taken\<lparr>h_cancel := True, h_closed := True, h_streams := {},
     h_cleaner := (\<lambda>_. CleanIdle)(0 := CleanDone)\<rparr>"

abbreviation hrun_reach :: "rstr hardy_sys \<Rightarrow> bool" where
  "hrun_reach \<equiv> reach (hardy_sys_init 0) (hardy_step Map.empty)"

lemma hrun_taken_reach: "hrun_reach hrun_taken"
proof -
  define s0 :: "rstr hardy_sys" where "s0 = hardy_sys_init 0"
  define s2 where "s2 = s0\<lparr>h_opening := OpenSent (Inr 7), h_streams := {7}\<rparr>"
  define s3 where "s3 = s0\<lparr>h_loop := (hardy_start 0)\<lparr>stage := Reading, opened_at := 0\<rparr>,
    h_streams := {7}, h_inbound := Some 7\<rparr>"
  note defs = s0_def s2_def s3_def hrun_taken_def hardy_sys_init_def hardy_start_def awaiting_def
    dispatcher_turn_def dispatch_call_def bytes_from_def
  have "hardy_step Map.empty s0 (s0\<lparr>h_opening := OpenThread\<rparr>)"
    by (rule hardy_step.d_spawn) (simp_all add: defs)
  then have "hrun_reach (s0\<lparr>h_opening := OpenThread\<rparr>)"
    unfolding s0_def by (rule reach_step [OF reach_init])
  moreover have "hardy_step Map.empty (s0\<lparr>h_opening := OpenThread\<rparr>) s2"
    using hardy_step.o_run [of "s0\<lparr>h_opening := OpenThread\<rparr>" 7 Map.empty]
    by (simp add: defs inbound_stream_thread_def)
  ultimately have "hrun_reach s2" by (rule reach_step)
  moreover have "hardy_step Map.empty s2 s3"
    by (rule hardy_step.d_opened [where r = "Inr 7" and now = 0]) (simp_all add: defs)
  ultimately have "hrun_reach s3" by (rule reach_step)
  moreover have "hardy_step Map.empty s3 hrun_taken"
    by (rule hardy_step.d_item [where i = 7 and it = "Inr hardy_bundle" and now = 0]) (simp_all add: defs)
  ultimately show ?thesis by (rule reach_step)
qed

lemma hrun_closed_reach: "hrun_reach hrun_closed"
proof -
  define s1 where "s1 = hrun_taken\<lparr>h_cancel := True, h_cleaner := (h_cleaner hrun_taken)(0 := CleanCancelled)\<rparr>"
  define s2 where "s2 = s1\<lparr>h_lock := Some 0, h_closed := True, h_cleaner := (h_cleaner s1)(0 := CleanFlagged)\<rparr>"
  note defs = s1_def s2_def hrun_taken_def hrun_closed_def hardy_sys_init_def
  have "hardy_step Map.empty hrun_taken s1"
    unfolding s1_def by (rule hardy_step.c_cancel) (simp add: defs)
  with hrun_taken_reach have "hrun_reach s1" by (rule reach_step)
  moreover have "hardy_step Map.empty s1 s2"
    unfolding s2_def by (rule hardy_step.c_lock) (simp_all add: defs)
  ultimately have "hrun_reach s2" by (rule reach_step)
  moreover have "hardy_step Map.empty s2 hrun_closed"
    using hardy_step.c_close [of s2 0 Map.empty] by (simp add: defs)
  ultimately show ?thesis by (rule reach_step)
qed

theorem unregister_stops_receiving_witness:
  "h_cleaner hrun_closed 0 = CleanDone \<and> handed hrun_closed = [hardy_call] \<and>
   handed (hrun_closed\<lparr>h_taken := None, h_dispatched := [hardy_call]\<rparr>) = handed hrun_closed"
proof -
  have "hardy_step Map.empty hrun_closed (hrun_closed\<lparr>h_taken := None, h_dispatched := [hardy_call]\<rparr>)"
    using hardy_step.d_dispatch [of hrun_closed hardy_call Map.empty]
    by (simp add: hrun_closed_def hrun_taken_def hardy_sys_init_def)
  moreover have "h_cleaner hrun_closed 0 = CleanDone" "handed hrun_closed = [hardy_call]"
    by (simp_all add: hrun_closed_def hrun_taken_def hardy_sys_init_def handed_def)
  ultimately show ?thesis
    using unregister_stops_receiving [OF hrun_closed_reach, of 0] by blast
qed

text \<open>
  C24: only unregistering stops receiving. As long as no \<open>cleanup\<close> was called the dispatcher has
  not ended, whatever streams fail, end or cannot be opened; and while none was called the
  transport is not closed, so that every attempt to open a stream whose thread runs succeeds.
\<close>

theorem only_unregister_stops_receiving:
  assumes "reach (hardy_sys_init now) (hardy_step peers) s" and "\<And>j. h_cleaner s j = CleanIdle"
  shows "\<not> h_ended s \<and> \<not> h_cancel s \<and>
    inbound_stream_thread i s = s\<lparr>h_opening := OpenSent (Inr i), h_streams := insert i (h_streams s)\<rparr>"
  using hardy.inv_reach [OF assms(1)] assms(2) by (auto simp: hardy_inv_def inbound_stream_thread_def)

theorem only_unregister_stops_receiving_witness:
  "\<not> h_ended hrun_taken \<and> inbound_stream_thread 8 hrun_taken =
     hrun_taken\<lparr>h_opening := OpenSent (Inr 8), h_streams := {7, 8}\<rparr>"
proof -
  have "h_cleaner hrun_taken j = CleanIdle" for j by (simp add: hrun_taken_def hardy_sys_init_def)
  moreover have "insert 8 (h_streams hrun_taken) = {7, 8}" by (auto simp: hrun_taken_def)
  ultimately show ?thesis
    using only_unregister_stops_receiving [OF hrun_taken_reach, of 8] by simp
qed

text \<open>
  The steps of the dispatcher are those that change its own variables or start the opening of a
  stream; the other steps are those of the opening thread, of the streams and of cleanups.
\<close>

definition dispatcher_moves :: "'n hardy_sys \<Rightarrow> 'n hardy_sys \<Rightarrow> bool" where
  "dispatcher_moves s t \<longleftrightarrow> h_loop t \<noteq> h_loop s \<or> h_taken t \<noteq> h_taken s \<or> h_ended t \<noteq> h_ended s \<or>
     h_inbound t \<noteq> h_inbound s \<or> (h_opening s = NotOpening \<and> h_opening t \<noteq> NotOpening)"

text \<open>A run of the system with the number of steps that the dispatcher takes in it.\<close>

inductive dispatcher_run ::
  "(csp_address \<rightharpoonup> 'n) \<Rightarrow> 'n hardy_sys \<Rightarrow> nat \<Rightarrow> 'n hardy_sys \<Rightarrow> bool" for peers s where
  run_start: "dispatcher_run peers s 0 s"
| run_own: "dispatcher_run peers s n t \<Longrightarrow> hardy_step peers t u \<Longrightarrow> dispatcher_moves t u \<Longrightarrow> dispatcher_run peers s (Suc n) u"
| run_other: "dispatcher_run peers s n t \<Longrightarrow> hardy_step peers t u \<Longrightarrow> \<not> dispatcher_moves t u \<Longrightarrow> dispatcher_run peers s n u"

text \<open>What a cancelled dispatcher has left to do: dispatch the bundle it holds, and end.\<close>

definition steps_left :: "'n hardy_sys \<Rightarrow> nat" where
  "steps_left s = (if h_taken s = None then 0 else 1) + (if h_ended s then 0 else 1)"

lemma cancelled_turn:
  assumes "dispatcher_turn peers a s = Some t" and "awaiting s" and "a = HCancelled \<or> a = HWaited True"
  shows "h_ended t" "h_taken t = None"
  using dispatcher_turn_ends [OF assms(1)] dispatcher_turn_takes [OF assms(1)] assms(2,3) by (auto simp: awaiting_def)

lemma cancelled_step:
  assumes "hardy_step peers s t" and "h_cancel s"
  shows "steps_left s = steps_left t + (if dispatcher_moves s t then 1 else 0)"
  using assms
proof (induction rule: hardy_step.induct)
  case (d_waited s t)
  then show ?case
    using cancelled_turn [of peers "HWaited True" s t] by (simp add: steps_left_def dispatcher_moves_def awaiting_def)
next
  case (d_cancelled s t)
  then show ?case
    using cancelled_turn [of peers HCancelled s t] by (simp add: steps_left_def dispatcher_moves_def awaiting_def)
qed (simp_all add: steps_left_def dispatcher_moves_def inbound_stream_thread_def)

lemma cancelled_progress:
  assumes "h_cancel s" and "\<not> h_ended s"
  shows "\<exists>t. hardy_step peers s t \<and> dispatcher_moves s t"
proof (cases "h_taken s")
  case (Some d)
  with hardy_step.d_dispatch [of s d peers] show ?thesis by (force simp: dispatcher_moves_def)
next
  case None
  with assms have aw: "awaiting s" by (simp add: awaiting_def)
  let ?a = "case stage (h_loop s) of Pausing _ \<Rightarrow> HWaited True | _ \<Rightarrow> HCancelled"
  obtain t where t: "dispatcher_turn peers ?a s = Some t"
    by (cases "stage (h_loop s)") (simp_all add: dispatcher_turn_def)
  have "hardy_step peers s t"
    using t hardy_step.d_waited [OF aw, of peers t] hardy_step.d_cancelled [OF aw assms(1), of peers t] assms(1)
    by (auto split: stage.splits)
  moreover have "h_ended t" using cancelled_turn(1) [OF t aw] by (auto split: stage.splits)
  ultimately show ?thesis using assms(2) by (auto simp: dispatcher_moves_def)
qed

text \<open>
  C25: a cancelled dispatcher ends. In every run from a cancelled state, whatever the opening
  thread, the streams and other cleanups do in it, the dispatcher takes at most two more steps, and after
  two it has ended, with the bundle it held dispatched and no other one taken. Until it has ended it can always
  take its next step itself, in a pause too: it waits for no other task.
\<close>

theorem cancelled_dispatcher_ends:
  assumes "h_cancel s" and "dispatcher_run peers s n t"
  shows "n \<le> 2 \<and> (n = 2 \<longrightarrow> h_ended t \<and> h_dispatched t = handed s) \<and> handed t = handed s \<and>
    (h_ended t \<or> (\<exists>u. hardy_step peers t u \<and> dispatcher_moves t u))"
proof -
  have "h_cancel t \<and> handed t = handed s \<and> steps_left s = steps_left t + n"
    using assms(2)
  proof induction
    case run_start
    show ?case using assms(1) by simp
  next
    case (run_own n t u)
    then show ?case using cancelled_takes_nothing [of peers t u] cancelled_step [of peers t u] by simp
  next
    case (run_other n t u)
    then show ?case using cancelled_takes_nothing [of peers t u] cancelled_step [of peers t u] by simp
  qed
  moreover have "steps_left s \<le> 2" by (simp add: steps_left_def)
  moreover have "h_ended t \<and> h_taken t = None" if "steps_left t = 0" using that by (simp add: steps_left_def split: if_splits)
  ultimately show ?thesis using cancelled_progress [of t peers] by (auto simp: handed_def)
qed

theorem cancelled_dispatcher_ends_witness:
  "\<exists>t. dispatcher_run Map.empty hrun_closed 2 t \<and> h_ended t \<and> h_dispatched t = [hardy_call]"
proof -
  have c: "h_cancel hrun_closed" "\<not> h_ended hrun_closed" "handed hrun_closed = [hardy_call]"
    by (simp_all add: hrun_closed_def hrun_taken_def hardy_sys_init_def handed_def)
  define t where "t = hrun_closed\<lparr>h_taken := None, h_dispatched := h_dispatched hrun_closed @ [hardy_call]\<rparr>"
  have t: "hardy_step Map.empty hrun_closed t" "dispatcher_moves hrun_closed t"
    using hardy_step.d_dispatch [of hrun_closed hardy_call Map.empty]
    by (simp_all add: t_def dispatcher_moves_def) (simp_all add: hrun_closed_def hrun_taken_def)
  have ct: "h_cancel t" "\<not> h_ended t" using c(1,2) by (simp_all add: t_def)
  obtain u where u: "hardy_step Map.empty t u" "dispatcher_moves t u"
    using cancelled_progress [OF ct, of Map.empty] by blast
  have r: "dispatcher_run Map.empty hrun_closed 2 u"
    using run_own [OF run_own [OF run_start t] u] by (simp add: numeral_2_eq_2)
  from cancelled_dispatcher_ends [OF c(1) r] r c(3) show ?thesis by auto
qed

end
