(* ===== verification/HardyServer.thy ===== *)
theory HardyServer
  imports HardyCla
begin

text \<open>
  The server of the Hardy adapter (\<open>rust-bindings/hardy-cspcl-server/src\<close>): the path and the
  reader of its configuration, and \<open>main\<close> with its error chain. The file system, the YAML reader,
  the gRPC client of the BPA and the runtime are third-party code and parameters.
\<close>

section \<open>Configuration\<close>

text \<open>
  \<open>expand_tilde\<close> on Unix: \<open>home\<close> is the variable \<open>HOME\<close>, \<open>is_utf8\<close> decides
  \<open>Path::to_str\<close>, and \<open>path_join\<close> is \<open>PathBuf::join\<close>.
\<close>

definition path_join :: "rstr \<Rightarrow> rstr \<Rightarrow> rstr" where
  "path_join base p =
     (if p \<noteq> [] \<and> hd p = CHR ''/'' then p
      else if base \<noteq> [] \<and> last base \<noteq> CHR ''/'' then base @ CHR ''/'' # p
      else base @ p)"

definition expand_tilde :: "(rstr \<Rightarrow> bool) \<Rightarrow> rstr option \<Rightarrow> rstr \<Rightarrow> rstr" where
  "expand_tilde is_utf8 home path =
     (if \<not> is_utf8 path then path
      else if path = ''~'' then (case home of Some h \<Rightarrow> h | None \<Rightarrow> path)
      else if take 2 path = ''~/'' then (case home of Some h \<Rightarrow> path_join h (drop 2 path) | None \<Rightarrow> path)
      else path)"

definition default_bpa_addr :: rstr where
  "default_bpa_addr = ''http://127.0.0.1:51052''"

text \<open>\<open>ServerConfig\<close>; \<open>serde\<close> fills in the default of a missing \<open>bpa-addr\<close>.\<close>

record 'n server_config =
  bpa_addr :: rstr
  cspcl_config_of :: "'n hardy_config"

definition server_config_of :: "rstr option \<times> 'n hardy_config \<Rightarrow> 'n server_config" where
  "server_config_of doc =
     \<lparr>bpa_addr = (case fst doc of Some a \<Rightarrow> a | None \<Rightarrow> default_bpa_addr), cspcl_config_of = snd doc\<rparr>"

text \<open>
  \<open>ServerError\<close>, over the errors of clap, the file system, the YAML reader, the BPA and a joined
  task. A rejected command line ends the process in \<open>Config::parse\<close>, which does not return then.
\<close>

datatype ('p, 'io, 'y, 'c, 'j) server_error =
    ParseConfig 'p
  | ReadConfig 'io
  | ParseConfigFile 'y
  | CreateCla "'c hardy_error"
  | RegisterCla 'c
  | Dispatching 'j

definition load_server_config ::
  "(rstr \<Rightarrow> bool) \<Rightarrow> rstr option \<Rightarrow> (rstr \<Rightarrow> ('io, 'f) rresult) \<Rightarrow>
   ('f \<Rightarrow> ('y, rstr option \<times> 'n hardy_config) rresult) \<Rightarrow> rstr \<Rightarrow>
   (('p, 'io, 'y, 'c, 'j) server_error, 'n server_config) rresult" where
  "load_server_config is_utf8 home file_open from_reader path =
     and_then (map_err ReadConfig (file_open (expand_tilde is_utf8 home path))) (\<lambda>file.
     map_ok server_config_of (map_err ParseConfigFile (from_reader file)))"

section \<open>Start of the server\<close>

definition create_cla ::
  "'w c_init \<Rightarrow> 'n hardy_config \<Rightarrow> 'w \<Rightarrow>
   (('p, 'io, 'y, 'c, 'j) server_error, ('n, 's) cla) rresult \<times> 'w" where
  "create_cla cspcl_init config w =
     (let (r, w') = cla_new cspcl_init config w in (map_err CreateCla r, w'))"

text \<open>
  \<open>register_cla\<close> of the remote BPA takes its address, the name and the adapter; it calls back
  \<open>on_register\<close>, so it returns the adapter as it is then.
\<close>

definition register_cla_to_remote_bpa ::
  "(rstr \<Rightarrow> rstr \<Rightarrow> ('n, 's) cla \<Rightarrow> 'w \<Rightarrow> ('c, ('n, 's) cla) rresult \<times> 'w) \<Rightarrow> ('n, 's) cla \<Rightarrow> rstr \<Rightarrow> 'w \<Rightarrow>
   (('p, 'io, 'y, 'c, 'j) server_error, ('n, 's) cla) rresult \<times> 'w" where
  "register_cla_to_remote_bpa register_cla c bpa w =
     (let (r, w') = register_cla bpa ''cspcl'' c w in (map_err RegisterCla r, w'))"

text \<open>\<open>main\<close> after the command line was parsed; \<open>run\<close> spawns the dispatcher and joins it.\<close>

definition server_main ::
  "(rstr \<Rightarrow> bool) \<Rightarrow> rstr option \<Rightarrow> (rstr \<Rightarrow> ('io, 'f) rresult) \<Rightarrow>
   ('f \<Rightarrow> ('y, rstr option \<times> 'n hardy_config) rresult) \<Rightarrow>
   'w c_init \<Rightarrow>
   (rstr \<Rightarrow> rstr \<Rightarrow> ('n, 's) cla \<Rightarrow> 'w \<Rightarrow> ('c, ('n, 's) cla) rresult \<times> 'w) \<Rightarrow>
   (('n, 's) dispatcher \<Rightarrow> 'w \<Rightarrow> ('j, unit) rresult \<times> 'w) \<Rightarrow> rstr \<Rightarrow> 'w \<Rightarrow>
   (('p, 'io, 'y, 'c, 'j) server_error, unit) rresult \<times> 'w" where
  "server_main is_utf8 home file_open from_reader cspcl_init register_cla run config_path w =
     (case load_server_config is_utf8 home file_open from_reader config_path of
        Inl e \<Rightarrow> (Inl e, w)
      | Inr sc \<Rightarrow>
          (case create_cla cspcl_init (cspcl_config_of sc) w of
             (Inl e, w1) \<Rightarrow> (Inl e, w1)
           | (Inr c, w1) \<Rightarrow>
               (case register_cla_to_remote_bpa register_cla c (bpa_addr sc) w1 of
                  (Inl e, w2) \<Rightarrow> (Inl e, w2)
                | (Inr c', w2) \<Rightarrow>
                    (case map_err CreateCla (start_dispatcher c') of
                       Inl e \<Rightarrow> (Inl e, w2)
                     | Inr d \<Rightarrow> (let (r, w3) = run d w2 in (map_err Dispatching r, w3))))))"

section \<open>Properties\<close>

text \<open>
  A BPA that follows its protocol: a successful registration has called \<open>on_register\<close> with its
  sink (once).
\<close>

definition registers_once ::
  "((csp_address \<rightharpoonup> 'n) \<Rightarrow> (csp_address \<times> 'n) list) \<Rightarrow> 's \<Rightarrow>
   (rstr \<Rightarrow> rstr \<Rightarrow> ('n, 's) cla \<Rightarrow> 'w \<Rightarrow> ('c, ('n, 's) cla) rresult \<times> 'w) \<Rightarrow> bool" where
  "registers_once iter sink register_cla \<longleftrightarrow>
     (\<forall>a n c w c' w'. register_cla a n c w = (Inr c', w') \<longrightarrow>
        (\<exists>calls. on_register iter sink c = Returns (c', calls)))"

lemma on_register_sink:
  "on_register iter sink c = Returns (c', calls) \<Longrightarrow>
     endpoints c' = endpoints c \<and> cla_sink c' = Some (case cla_sink c of None \<Rightarrow> sink | Some s \<Rightarrow> s)"
  by (auto simp: on_register_def call_once_def register_peers_def get_sink_def Let_def split: option.splits)

lemma cla_new_Inr:
  assumes "cla_new cspcl_init cfg w = (Inr c, w')"
  shows "c = \<lparr>endpoints = csp_to_endpoint (h_peers cfg), cla_sink = None\<rparr>"
  using assms by (auto simp: cla_new_def Let_def map_ok_eq_Inr split: prod.splits)

text \<open>
  Once the BPA has registered the adapter the server runs, with the configured peers. With a
  BPA that follows its protocol the dispatcher always finds its sink: \<open>main\<close> returns the result
  of the joined dispatcher, which was started for that sink and the peers of the configuration
  file; the registration was made at the configured address, or the default one.
\<close>

theorem registered_server_runs:
  fixes file_open :: "rstr \<Rightarrow> ('io, 'f) rresult"
    and from_reader :: "'f \<Rightarrow> ('y, rstr option \<times> 'n hardy_config) rresult"
    and register_cla :: "rstr \<Rightarrow> rstr \<Rightarrow> ('n, 's) cla \<Rightarrow> 'w \<Rightarrow> ('c, ('n, 's) cla) rresult \<times> 'w"
    and run :: "('n, 's) dispatcher \<Rightarrow> 'w \<Rightarrow> ('j, unit) rresult \<times> 'w"
  assumes bpa: "registers_once iter sink register_cla"
    and load: "load_server_config is_utf8 home file_open from_reader path =
      (Inr sc :: (('p, 'io, 'y, 'c, 'j) server_error, 'n server_config) rresult)"
    and cla: "create_cla cspcl_init (cspcl_config_of sc) w =
      ((Inr c, w1) :: (('p, 'io, 'y, 'c, 'j) server_error, ('n, 's) cla) rresult \<times> 'w)"
    and reg: "register_cla (bpa_addr sc) ''cspcl'' c w1 = (Inr c', w2)"
  shows "server_main is_utf8 home file_open from_reader cspcl_init register_cla run path w =
    ((let (r, w3) = run \<lparr>d_endpoints = csp_to_endpoint (h_peers (cspcl_config_of sc)), d_sink = sink\<rparr> w2
      in (map_err Dispatching r, w3)) :: (('p, 'io, 'y, 'c, 'j) server_error, unit) rresult \<times> 'w)"
proof -
  have "cla_new cspcl_init (cspcl_config_of sc) w =
      ((Inr c, w1) :: ('c hardy_error, ('n, 's) cla) rresult \<times> 'w)"
    using cla by (auto simp: create_cla_def Let_def split: prod.splits)
  then have c: "c = \<lparr>endpoints = csp_to_endpoint (h_peers (cspcl_config_of sc)), cla_sink = None\<rparr>"
    by (rule cla_new_Inr)
  from bpa reg obtain calls where "on_register iter sink c = Returns (c', calls)"
    unfolding registers_once_def by blast
  from on_register_sink [OF this]
  have "start_dispatcher c' =
      (Inr \<lparr>d_endpoints = csp_to_endpoint (h_peers (cspcl_config_of sc)), d_sink = sink\<rparr> ::
        ('c hardy_error, _) rresult)"
    by (simp add: start_dispatcher_def get_sink_def c)
  then show ?thesis
    by (simp add: server_main_def load cla register_cla_to_remote_bpa_def reg)
qed

definition sample_register ::
  "rstr \<Rightarrow> rstr \<Rightarrow> (rstr, nat) cla \<Rightarrow> unit \<Rightarrow> (unit, (rstr, nat) cla) rresult \<times> unit" where
  "sample_register a n c w = (Inr (c\<lparr>cla_sink := call_once (cla_sink c) 4\<rparr>), w)"

theorem registered_server_runs_witness:
  "server_main (\<lambda>_. True) (Some ''/root'') (\<lambda>p. if p = ''/root/c.yaml'' then Inr () else Inl ())
     (\<lambda>_. Inr (None, sample_cfg)) sample_init sample_register (\<lambda>d w. (Inl (d_sink d), w)) ''~/c.yaml'' () =
   ((Inl (Dispatching 4), ()) :: ((unit, unit, unit, unit, nat) server_error, unit) rresult \<times> unit)"
proof -
  let ?sc = "\<lparr>bpa_addr = default_bpa_addr, cspcl_config_of = sample_cfg\<rparr>"
  let ?c = "\<lparr>endpoints = csp_to_endpoint sample_peers, cla_sink = None\<rparr>"
  have bpa: "registers_once (\<lambda>_. []) 4 sample_register"
    by (simp add: registers_once_def sample_register_def on_register_def call_once_def register_peers_def
        get_sink_def split: option.split)
  have load: "load_server_config (\<lambda>_. True) (Some ''/root'') (\<lambda>p. if p = ''/root/c.yaml'' then Inr () else Inl ())
     (\<lambda>_. Inr (None, sample_cfg)) ''~/c.yaml'' = (Inr ?sc :: ((unit, unit, unit, unit, nat) server_error, rstr server_config) rresult)"
    by (simp add: load_server_config_def expand_tilde_def path_join_def server_config_of_def)
  have cla: "create_cla sample_init (cspcl_config_of ?sc) () =
      ((Inr ?c, ()) :: ((unit, unit, unit, unit, nat) server_error, (rstr, nat) cla) rresult \<times> unit)"
    by (simp add: create_cla_def cla_new_def sample_cfg_def hardy_config_default_def sample_init_def
        cspcl_new_def init_from_config_def sys_init_instance_def prim_defs ok_or_err_def)
  have reg: "sample_register (bpa_addr ?sc) ''cspcl'' ?c () = (Inr (?c\<lparr>cla_sink := Some 4\<rparr>), ())"
    by (simp add: sample_register_def call_once_def)
  from registered_server_runs [OF bpa load cla reg, of "\<lambda>d w. (Inl (d_sink d), w)"] show ?thesis
    by simp
qed

end
