(* ===== verification/Build.thy ===== *)
theory Build
  imports Prelude
begin

text \<open>
  The build script of the crate \<open>cspcl-sys\<close> (\<open>cspcl-sys/build.rs\<close>): where it finds the C sources and
  libcsp, what it passes to the C compiler and to bindgen, and what it prints for cargo. The
  environment variables, the file system, the crates \<open>cc\<close> and \<open>bindgen\<close> and the target are an
  environment; a panic is a value.
\<close>

section \<open>Paths\<close>

text \<open>\<open>Path::join\<close> on Unix: an absolute path replaces, otherwise one separator is put between.\<close>

definition path_join :: "rstr \<Rightarrow> rstr \<Rightarrow> rstr" where
  "path_join a b =
     (if b \<noteq> [] \<and> hd b = CHR ''/'' then b
      else if a = [] \<or> last a = CHR ''/'' then a @ b
      else a @ CHR ''/'' # b)"

text \<open>
  \<open>Path::parent\<close> on Unix. A path is a root (or a leading \<open>.\<close>) and a body; empty and \<open>.\<close> components
  of the body do not count.
\<close>

definition last_component :: "rstr \<Rightarrow> rstr \<times> rstr" where
  "last_component b =
     (rev (drop 1 (dropWhile (\<lambda>c. c \<noteq> CHR ''/'') (rev b))), rev (takeWhile (\<lambda>c. c \<noteq> CHR ''/'') (rev b)))"

lemma last_component_shorter: "last_component b = (i, c) \<Longrightarrow> b \<noteq> [] \<Longrightarrow> length i < length b"
  using length_dropWhile_le [of "\<lambda>c. c \<noteq> CHR ''/''" "rev (butlast b)"]
  by (cases b rule: rev_cases) (auto simp: last_component_def)

function trim_right :: "rstr \<Rightarrow> rstr" where
  "trim_right b =
     (if b = [] then []
      else let (i, c) = last_component b in if c = [] \<or> c = ''.'' then trim_right i else b)"
  by pat_completeness auto
termination
  by (relation "measure length") (auto dest: last_component_shorter [OF sym])

declare trim_right.simps [simp del]

definition before_body :: "rstr \<Rightarrow> nat" where
  "before_body p =
     (if p = [] then 0
      else if hd p = CHR ''/'' \<or> hd p = CHR ''.'' \<and> (tl p = [] \<or> hd (tl p) = CHR ''/'') then 1
      else 0)"

definition path_parent :: "rstr \<Rightarrow> rstr option" where
  "path_parent p =
     (let n = before_body p; b = trim_right (drop n p)
      in if b \<noteq> [] then Some (take n p @ trim_right (fst (last_component b)))
         else if p \<noteq> [] \<and> hd p = CHR ''.'' then Some []
         else None)"

section \<open>The environment of the script\<close>

text \<open>What the script prints for cargo, and the file system with everything else it changes.\<close>

record 'w script =
  printed :: "rstr list"
  world :: 'w

definition println :: "rstr \<Rightarrow> 'w script \<Rightarrow> 'w script" where
  "println l s = s\<lparr>printed := printed s @ [l]\<rparr>"

text \<open>The settings of \<open>cc::Build\<close> and \<open>bindgen::Builder\<close>; each call of a setter appends.\<close>

record cc_build =
  cc_files :: "rstr list"
  cc_includes :: "rstr list"
  cc_defines :: "(rstr \<times> rstr option) list"

record bg_builder =
  bg_headers :: "rstr list"
  clang_args :: "rstr list"
  allow_types :: "rstr list"
  allow_functions :: "rstr list"
  allow_vars :: "rstr list"
  comments :: bool
  debug_impl :: bool
  default_impl :: bool
  cargo_callbacks :: bool

text \<open>
  \<open>env_var\<close> is \<open>env::var\<close> (\<open>None\<close> for a variable that is not set or not Unicode), \<open>path_exists\<close> is
  \<open>Path::exists\<close>, \<open>target_linux\<close> is \<open>cfg!(target_os = "linux")\<close>. Compiling, generating and writing may
  fail, and may print for cargo themselves.
\<close>

record ('w, 'b) build_env =
  env_var :: "rstr \<Rightarrow> rstr option"
  path_exists :: "rstr \<Rightarrow> 'w \<Rightarrow> bool"
  target_linux :: bool
  cc_compile :: "cc_build \<Rightarrow> rstr \<Rightarrow> 'w script \<Rightarrow> bool \<times> 'w script"
  bg_generate :: "bg_builder \<Rightarrow> 'w script \<Rightarrow> 'b option \<times> 'w script"
  write_to_file :: "'b \<Rightarrow> rstr \<Rightarrow> 'w script \<Rightarrow> bool \<times> 'w script"

datatype build_panic =
    VarMissing rstr
  | NoWorkspaceRoot
  | SourcesNotFound rstr rstr
  | LibcspNotFound
  | HeaderNotFound rstr
  | CompileFailed
  | GenerateFailed
  | WriteFailed

section \<open>The script\<close>

definition SOURCE_FILES :: "rstr list" where
  "SOURCE_FILES = [''cspcl.c'', ''cspcl.h'', ''cspcl_config.h'']"

definition BUILD_ENV_VARS :: "rstr list" where
  "BUILD_ENV_VARS = [''CSP_INCLUDE_DIR'', ''CSP_REPO_DIR'', ''CSP_BUILD_DIR'']"

record libcsp =
  include_dirs :: "rstr list"
  lib_dir :: rstr

definition resolve_source_dir :: "('w, 'b) build_env \<Rightarrow> rstr \<Rightarrow> rstr \<Rightarrow> 'w \<Rightarrow> (build_panic, rstr) rresult" where
  "resolve_source_dir B manifest_dir workspace_root w =
     (let candidates = [path_join manifest_dir ''c_src'', path_join workspace_root ''src'']
      in case find (\<lambda>dir. path_exists B dir w) candidates of
           Some dir \<Rightarrow> Inr dir
         | None \<Rightarrow> Inl (SourcesNotFound (candidates ! 0) (candidates ! 1)))"

definition resolve_libcsp :: "('w, 'b) build_env \<Rightarrow> 'w \<Rightarrow> (build_panic, libcsp) rresult" where
  "resolve_libcsp B w =
     (let (dirs, lib) =
        (case env_var B ''CSP_INCLUDE_DIR'' of
           Some dir \<Rightarrow> ([dir], None)
         | None \<Rightarrow>
             (case env_var B ''CSP_REPO_DIR'' of
                Some repo \<Rightarrow>
                  let build_dir = (case env_var B ''CSP_BUILD_DIR'' of Some d \<Rightarrow> d | None \<Rightarrow> path_join repo ''build'');
                      inc = (if path_exists B (path_join build_dir ''include'') w
                             then [path_join build_dir ''include''] else []);
                      lib = (if path_exists B (path_join build_dir ''libcsp.a'') w \<or>
                                path_exists B (path_join build_dir ''libcsp.so'') w
                             then Some build_dir else None)
                  in (path_join repo ''include'' # inc, lib)
              | None \<Rightarrow> ([], None)));
          dirs' = filter (\<lambda>dir. path_exists B dir w) dirs
      in case (dirs' = [], opt_filter (\<lambda>dir. path_exists B dir w) lib) of
           (False, Some l) \<Rightarrow> Inr \<lparr>include_dirs = dirs', lib_dir = l\<rparr>
         | _ \<Rightarrow> Inl LibcspNotFound)"

definition compile_native ::
  "('w, 'b) build_env \<Rightarrow> rstr \<Rightarrow> libcsp \<Rightarrow> 'w script \<Rightarrow> (build_panic, unit) rresult \<times> 'w script" where
  "compile_native B source_dir l s =
     (let build = \<lparr>cc_files = [path_join source_dir ''cspcl.c''], cc_includes = [source_dir], cc_defines = []\<rparr>;
          build = foldl (\<lambda>b dir. b\<lparr>cc_includes := cc_includes b @ [dir]\<rparr>) build (include_dirs l);
          s = println (''cargo:rustc-link-search=native='' @ lib_dir l) s;
          s = println ''cargo:rustc-link-lib=static=csp'' s;
          s = println ''cargo:rustc-link-lib=zmq'' s;
          s = println ''cargo:rustc-link-lib=socketcan'' s;
          (build, s) = (if target_linux B
             then (build\<lparr>cc_defines := cc_defines build @ [(''__linux__'', None)]\<rparr>, println ''cargo:rustc-link-lib=rt'' s)
             else (build, s));
          s = println ''cargo:rustc-link-lib=bz2'' s;
          (ok, s) = cc_compile B build ''cspcl_native'' s
      in (if ok then Inr () else Inl CompileFailed, s))"

definition bindings_builder :: "rstr \<Rightarrow> rstr \<Rightarrow> libcsp \<Rightarrow> bg_builder" where
  "bindings_builder header source_dir l =
     foldl (\<lambda>b dir. b\<lparr>clang_args := clang_args b @ [''-I'' @ dir]\<rparr>)
       \<lparr>bg_headers = [header], clang_args = [''-I'' @ source_dir],
        allow_types = [''cspcl_.*'', ''csp_iface_type''],
        allow_functions = [''cspcl_.*'', ''csp_close'', ''csp_rdp_get_opt''],
        allow_vars = [''CSPCL_.*'', ''csp_iface_type_.*''],
        comments = True, debug_impl = True, default_impl = True, cargo_callbacks = True\<rparr>
       (include_dirs l)"

definition generate_bindings ::
  "('w, 'b) build_env \<Rightarrow> rstr \<Rightarrow> rstr \<Rightarrow> libcsp \<Rightarrow> 'w script \<Rightarrow> (build_panic, unit) rresult \<times> 'w script" where
  "generate_bindings B header source_dir l s =
     (let builder = bindings_builder header source_dir l
      in case env_var B ''OUT_DIR'' of
           None \<Rightarrow> (Inl (VarMissing ''OUT_DIR''), s)
         | Some out_dir \<Rightarrow>
             let (bindings, s) = bg_generate B builder s
             in case bindings of
                  None \<Rightarrow> (Inl GenerateFailed, s)
                | Some b \<Rightarrow>
                    let (ok, s) = write_to_file B b (path_join out_dir ''bindings.rs'') s
                    in (if ok then Inr () else Inl WriteFailed, s))"

definition build_main :: "('w, 'b) build_env \<Rightarrow> 'w script \<Rightarrow> (build_panic, unit) rresult \<times> 'w script" where
  "build_main B s =
     (case env_var B ''CARGO_MANIFEST_DIR'' of
        None \<Rightarrow> (Inl (VarMissing ''CARGO_MANIFEST_DIR''), s)
      | Some manifest_dir \<Rightarrow>
          case Option.bind (path_parent manifest_dir) path_parent of
            None \<Rightarrow> (Inl NoWorkspaceRoot, s)
          | Some workspace_root \<Rightarrow>
              case resolve_source_dir B manifest_dir workspace_root (world s) of
                Inl e \<Rightarrow> (Inl e, s)
              | Inr source_dir \<Rightarrow>
                  case resolve_libcsp B (world s) of
                    Inl e \<Rightarrow> (Inl e, s)
                  | Inr l \<Rightarrow>
                      let s = foldl (\<lambda>s file. println (''cargo:rerun-if-changed='' @ path_join source_dir file) s) s SOURCE_FILES;
                          s = foldl (\<lambda>s var. println (''cargo:rerun-if-env-changed='' @ var) s) s BUILD_ENV_VARS;
                          header = path_join source_dir ''cspcl.h''
                      in if \<not> path_exists B header (world s) then (Inl (HeaderNotFound header), s)
                         else case compile_native B source_dir l s of
                                (Inl e, s) \<Rightarrow> (Inl e, s)
                              | (Inr _, s) \<Rightarrow> generate_bindings B header source_dir l s)"

section \<open>Finding libcsp\<close>

text \<open>The directory that holds the library: that of the build, by default \<open>build\<close> in the checkout.\<close>

definition build_dir_of :: "('w, 'b) build_env \<Rightarrow> rstr \<Rightarrow> rstr" where
  "build_dir_of B repo = (case env_var B ''CSP_BUILD_DIR'' of Some d \<Rightarrow> d | None \<Rightarrow> path_join repo ''build'')"

definition repo_usable :: "('w, 'b) build_env \<Rightarrow> 'w \<Rightarrow> rstr \<Rightarrow> bool" where
  "repo_usable B w repo \<longleftrightarrow>
     (let bd = build_dir_of B repo
      in (path_exists B (path_join repo ''include'') w \<or> path_exists B (path_join bd ''include'') w) \<and>
         path_exists B bd w \<and>
         (path_exists B (path_join bd ''libcsp.a'') w \<or> path_exists B (path_join bd ''libcsp.so'') w))"

definition libcsp_of :: "('w, 'b) build_env \<Rightarrow> 'w \<Rightarrow> rstr \<Rightarrow> libcsp" where
  "libcsp_of B w repo =
     \<lparr>include_dirs = filter (\<lambda>d. path_exists B d w) [path_join repo ''include'', path_join (build_dir_of B repo) ''include''],
      lib_dir = build_dir_of B repo\<rparr>"

lemma resolve_libcsp_cases:
  "resolve_libcsp B w =
     (case (env_var B ''CSP_INCLUDE_DIR'', env_var B ''CSP_REPO_DIR'') of
        (None, Some repo) \<Rightarrow> if repo_usable B w repo then Inr (libcsp_of B w repo) else Inl LibcspNotFound
      | _ \<Rightarrow> Inl LibcspNotFound)"
  unfolding resolve_libcsp_def repo_usable_def libcsp_of_def Let_def build_dir_of_def [symmetric]
  by (auto split: option.splits bool.splits)

section \<open>A build that succeeds\<close>

lemma include_all:
  "foldl (\<lambda>b dir. b\<lparr>cc_includes := cc_includes b @ [dir]\<rparr>) c ds = c\<lparr>cc_includes := cc_includes c @ ds\<rparr>"
  by (induction ds arbitrary: c) simp_all

lemma bindings_builder_args:
  "clang_args (bindings_builder header dir l) = map ((@) ''-I'') (dir # include_dirs l)"
  "bg_headers (bindings_builder header dir l) = [header]"
proof -
  have "clang_args (foldl (\<lambda>b d. b\<lparr>clang_args := clang_args b @ [''-I'' @ d]\<rparr>) c ds) = clang_args c @ map ((@) ''-I'') ds"
    "bg_headers (foldl (\<lambda>b d. b\<lparr>clang_args := clang_args b @ [''-I'' @ d]\<rparr>) c ds) = bg_headers c" for c :: bg_builder and ds
    by (induction ds arbitrary: c) simp_all
  then show "clang_args (bindings_builder header dir l) = map ((@) ''-I'') (dir # include_dirs l)"
    "bg_headers (bindings_builder header dir l) = [header]"
    by (simp_all add: bindings_builder_def)
qed

lemma println_all: "foldl (\<lambda>s x. println (f x) s) s xs = s\<lparr>printed := printed s @ map f xs\<rparr>"
  by (induction xs arbitrary: s) (simp_all add: println_def)

lemma resolve_source_dir_Inr:
  assumes "resolve_source_dir B m r w = Inr dir"
  shows "path_exists B dir w"
    "dir = (if path_exists B (path_join m ''c_src'') w then path_join m ''c_src'' else path_join r ''src'')"
  using assms by (auto simp: resolve_source_dir_def split: if_splits)

text \<open>What the compiler is given.\<close>

definition native_build :: "('w, 'b) build_env \<Rightarrow> rstr \<Rightarrow> libcsp \<Rightarrow> cc_build" where
  "native_build B dir l = \<lparr>cc_files = [path_join dir ''cspcl.c''], cc_includes = dir # include_dirs l,
     cc_defines = (if target_linux B then [(''__linux__'', None)] else [])\<rparr>"

lemma compile_native_Inr:
  assumes "compile_native B dir l s = (Inr (), s')"
  shows "\<exists>s1. cc_compile B (native_build B dir l) ''cspcl_native'' s1 = (True, s') \<and> world s1 = world s \<and>
    (\<exists>ls. printed s1 = printed s @ (''cargo:rustc-link-search=native='' @ lib_dir l) # ''cargo:rustc-link-lib=static=csp'' # ls)"
  using assms
  by (auto simp: compile_native_def include_all native_build_def println_def Let_def split: if_splits prod.splits)

lemma generate_bindings_Inr:
  assumes "generate_bindings B header dir l s = (Inr (), s')"
  shows "\<exists>out b s1. env_var B ''OUT_DIR'' = Some out \<and> bg_generate B (bindings_builder header dir l) s = (Some b, s1) \<and>
    write_to_file B b (path_join out ''bindings.rs'') s1 = (True, s')"
  using assms by (auto simp: generate_bindings_def Let_def split: option.splits if_splits prod.splits)

text \<open>A run of the script up to the calls of the compiler and of bindgen.\<close>

lemma build_main_Inr:
  assumes "build_main B s = (Inr (), s')"
  obtains m r dir l s1 where "env_var B ''CARGO_MANIFEST_DIR'' = Some m" "Option.bind (path_parent m) path_parent = Some r"
    "resolve_source_dir B m r (world s) = Inr dir" "resolve_libcsp B (world s) = Inr l"
    "path_exists B (path_join dir ''cspcl.h'') (world s)"
    "compile_native B dir l (s\<lparr>printed := printed s @ map (\<lambda>f. ''cargo:rerun-if-changed='' @ path_join dir f) SOURCE_FILES @
       map (\<lambda>v. ''cargo:rerun-if-env-changed='' @ v) BUILD_ENV_VARS\<rparr>) = (Inr (), s1)"
    "generate_bindings B (path_join dir ''cspcl.h'') dir l s1 = (Inr (), s')"
  using assms
  by (auto simp: build_main_def println_all Let_def split: option.splits sum.splits if_splits prod.splits)

text \<open>
  C38: a build that succeeds compiles \<open>cspcl.c\<close> and generates the bindings from \<open>cspcl.h\<close> of one
  existing source directory: \<open>c_src\<close> beside the manifest if it exists, else \<open>src\<close> two levels up. The C compiler and bindgen search the same directories, all of
  which exist, and the linker is given the directory with libcsp; the bindings are written to
  \<open>bindings.rs\<close> in \<open>OUT_DIR\<close>, after the library has been compiled.
\<close>

theorem build_uses_one_source:
  assumes "build_main B s = (Inr (), s')"
  shows "\<exists>m root dir repo l out b s1 s2 s3. env_var B ''CARGO_MANIFEST_DIR'' = Some m \<and>
    Option.bind (path_parent m) path_parent = Some root \<and>
    dir = (if path_exists B (path_join m ''c_src'') (world s) then path_join m ''c_src'' else path_join root ''src'') \<and>
    path_exists B dir (world s) \<and> path_exists B (path_join dir ''cspcl.h'') (world s) \<and>
    env_var B ''CSP_REPO_DIR'' = Some repo \<and> repo_usable B (world s) repo \<and> lib_dir l = build_dir_of B repo \<and>
    (\<forall>d \<in> set (include_dirs l). path_exists B d (world s)) \<and>
    (''cargo:rustc-link-search=native='' @ lib_dir l) \<in> set (printed s1) \<and> world s1 = world s \<and>
    cc_compile B (native_build B dir l) ''cspcl_native'' s1 = (True, s2) \<and>
    bg_generate B (bindings_builder (path_join dir ''cspcl.h'') dir l) s2 = (Some b, s3) \<and>
    clang_args (bindings_builder (path_join dir ''cspcl.h'') dir l) = map ((@) ''-I'') (cc_includes (native_build B dir l)) \<and>
    env_var B ''OUT_DIR'' = Some out \<and> write_to_file B b (path_join out ''bindings.rs'') s3 = (True, s')"
  using assms
proof (rule build_main_Inr)
  fix m root dir l s2
  assume m: "env_var B ''CARGO_MANIFEST_DIR'' = Some m" "Option.bind (path_parent m) path_parent = Some root"
    and src: "resolve_source_dir B m root (world s) = Inr dir" and lib: "resolve_libcsp B (world s) = Inr l"
    and h: "path_exists B (path_join dir ''cspcl.h'') (world s)"
    and c: "compile_native B dir l (s\<lparr>printed := printed s @ map (\<lambda>f. ''cargo:rerun-if-changed='' @ path_join dir f) SOURCE_FILES @
       map (\<lambda>v. ''cargo:rerun-if-env-changed='' @ v) BUILD_ENV_VARS\<rparr>) = (Inr (), s2)"
    and g: "generate_bindings B (path_join dir ''cspcl.h'') dir l s2 = (Inr (), s')"
  obtain repo where repo: "env_var B ''CSP_REPO_DIR'' = Some repo" "repo_usable B (world s) repo" "l = libcsp_of B (world s) repo"
    using lib by (auto simp: resolve_libcsp_cases split: option.splits if_splits)
  have l: "lib_dir l = build_dir_of B repo" "\<forall>d \<in> set (include_dirs l). path_exists B d (world s)"
    by (simp_all add: repo(3) libcsp_of_def)
  obtain s1 where s1: "cc_compile B (native_build B dir l) ''cspcl_native'' s1 = (True, s2)" "world s1 = world s"
      "(''cargo:rustc-link-search=native='' @ lib_dir l) \<in> set (printed s1)"
    using compile_native_Inr [OF c] by auto
  have "clang_args (bindings_builder (path_join dir ''cspcl.h'') dir l) = map ((@) ''-I'') (cc_includes (native_build B dir l))"
    by (simp add: bindings_builder_args native_build_def)
  then show ?thesis
    using m resolve_source_dir_Inr [OF src] h repo(1,2) l s1 generate_bindings_Inr [OF g] by blast
qed

text \<open>A machine with the sources in the workspace and a checkout of libcsp with its static library.\<close>

definition demo_build :: "(rstr set, rstr) build_env" where
  "demo_build = \<lparr>env_var = map_of [(''CARGO_MANIFEST_DIR'', ''/w/r/s''), (''CSP_REPO_DIR'', ''/csp''), (''OUT_DIR'', ''/out'')],
     path_exists = (\<lambda>p w. p \<in> w), target_linux = True, cc_compile = (\<lambda>_ _ s. (True, s)),
     bg_generate = (\<lambda>b s. (Some (concat (bg_headers b)), s)),
     write_to_file = (\<lambda>b p s. (True, s\<lparr>world := insert p (world s)\<rparr>))\<rparr>"

definition demo_files :: "rstr set" where
  "demo_files = {''/w/src'', ''/w/src/cspcl.h'', ''/csp/include'', ''/csp/build'', ''/csp/build/libcsp.a''}"

lemma demo_builds:
  "build_main demo_build \<lparr>printed = [], world = demo_files\<rparr> =
     (Inr (), \<lparr>printed = printed (snd (build_main demo_build \<lparr>printed = [], world = demo_files\<rparr>)),
        world = insert ''/out/bindings.rs'' demo_files\<rparr>)"
proof -
  have p: "path_parent ''/w/r/s'' = Some ''/w/r''" "path_parent ''/w/r'' = Some ''/w''" by code_simp+
  show ?thesis
    by (simp add: build_main_def p demo_build_def resolve_source_dir_def demo_files_def path_join_def resolve_libcsp_cases
        repo_usable_def build_dir_of_def libcsp_of_def compile_native_def generate_bindings_def bindings_builder_def
        SOURCE_FILES_def BUILD_ENV_VARS_def println_def)
qed

theorem build_uses_one_source_witness:
  "\<exists>ls dir. build_main demo_build \<lparr>printed = [], world = demo_files\<rparr> =
     (Inr (), \<lparr>printed = ls, world = insert ''/out/bindings.rs'' demo_files\<rparr>) \<and> path_exists demo_build dir demo_files"
  using build_uses_one_source [OF demo_builds] demo_builds by fastforce

section \<open>Setting the include directory\<close>

lemma set_include_dir:
  fixes B :: "('w, 'b) build_env" and d :: rstr
  defines "C \<equiv> B\<lparr>env_var := (env_var B)(''CSP_INCLUDE_DIR'' \<mapsto> d)\<rparr>"
  shows "resolve_libcsp C w = Inl LibcspNotFound" "resolve_source_dir C m r w = resolve_source_dir B m r w"
    "env_var C ''CARGO_MANIFEST_DIR'' = env_var B ''CARGO_MANIFEST_DIR''"
  by (simp_all add: C_def resolve_libcsp_cases resolve_source_dir_def)

text \<open>
  C39: \<open>CSP_INCLUDE_DIR\<close> breaks every build that works. A build only succeeds if the variable is not set,
  and if it is set in the same environment, to whatever directory, the script panics with libcsp not
  found before it has printed or compiled anything; the comment on \<open>resolve_libcsp\<close> and its message say to set it.
\<close>

theorem include_dir_fails_build:
  assumes "build_main B s = (Inr (), s')"
  shows "env_var B ''CSP_INCLUDE_DIR'' = None \<and>
    build_main (B\<lparr>env_var := (env_var B)(''CSP_INCLUDE_DIR'' \<mapsto> d)\<rparr>) s = (Inl LibcspNotFound, s)"
  using assms
proof (rule build_main_Inr)
  fix m r dir l s1
  assume m: "env_var B ''CARGO_MANIFEST_DIR'' = Some m" "Option.bind (path_parent m) path_parent = Some r"
    and src: "resolve_source_dir B m r (world s) = Inr dir" and lib: "resolve_libcsp B (world s) = Inr l"
  have "env_var B ''CSP_INCLUDE_DIR'' = None" using lib by (simp add: resolve_libcsp_cases split: option.splits)
  then show ?thesis using m src by (simp add: build_main_def set_include_dir)
qed

theorem include_dir_fails_build_witness:
  "build_main (demo_build\<lparr>env_var := (env_var demo_build)(''CSP_INCLUDE_DIR'' \<mapsto> ''/csp/include'')\<rparr>)
     \<lparr>printed = [], world = demo_files\<rparr> = (Inl LibcspNotFound, \<lparr>printed = [], world = demo_files\<rparr>)"
  using include_dir_fails_build [OF demo_builds] by blast

end
