(* ===== verification/Spec2Isabelle.thy ===== *)
theory Spec2Isabelle
  imports InboundProps InboundTime Sync CCache CRetry CText RustLife RecvBundle EndToEnd PicoLink HardyLifecycle HardyServer Build
begin

text \<open>
  \<^bold>\<open>CSPCL: bundles over the CubeSat Space Protocol\<close>

  The repository carries Bundle Protocol bundles over CSP. A C core (\<open>src/src/cspcl.c\<close>) sends
  and receives bundles through libcsp; the Rust workspace (\<open>src/rust-bindings\<close>) wraps it. Its
  parts, and the theory that models each:

  \<^item> The C core: the pool of outbound connections (\<open>CPool\<close>), sending with acknowledgement and one
    retry (\<open>CSend\<close>), the receive socket and reading a bundle (\<open>CRecv\<close>), receiving from any peer with the
    table of inbound connections (\<open>CRxTable\<close>), starting and stopping with the global state of the CSP
    stack (\<open>CInit\<close>), addresses, interfaces and errors as text (\<open>CText\<close>). On top of them: the pool as
    an LRU cache (\<open>CCache\<close>), the retries of a send (\<open>CRetry\<close>), the life of an instance (\<open>CLife\<close>), and the Rust
    instance over the C core (\<open>CDelivery\<close>, \<open>RustLife\<close>, \<open>RecvBundle\<close>), and both ends of a
    connection (\<open>EndToEnd\<close>).
  \<^item> \<open>cspcl-sys\<close>: configuration and wrappers of the C functions
    (\<open>types.rs\<close>, \<open>primitive.rs\<close>: \<open>SysTypes\<close>), and the build script (\<open>build.rs\<close>: \<open>Build\<close>).
  \<^item> \<open>cspcl\<close>: errors (\<open>error.rs\<close>: \<open>CspclError\<close>), addresses (\<open>address.rs\<close>: \<open>CspAddress\<close>), the
    instance and its sends (\<open>instance.rs\<close>, \<open>bundle.rs\<close>: \<open>Instance\<close>), the lock helpers
    (\<open>sync.rs\<close>: \<open>Sync\<close>), and the inbound side
    (\<open>inbound.rs\<close>): the table of open connections (\<open>ListenerTable\<close>), the receiver state shared by
    the streams (\<open>Receiver\<close>, invariants in \<open>ReceiverInv\<close>), the threads (\<open>InboundSystem\<close>,
    invariants in \<open>InboundInv\<close>, properties in \<open>InboundProps\<close>), and its times (\<open>StdTime\<close>,
    \<open>InboundTime\<close>).
  \<^item> \<open>picod3tn-cspcl\<close>: addresses, configuration and error classes (\<open>addr.rs\<close>, \<open>config.rs\<close>,
    \<open>error.rs\<close>: \<open>PicoConfig\<close>), the receive loop (\<open>rx.rs\<close>: \<open>ReopenLoop\<close>), the link
    (\<open>link.rs\<close>: \<open>PicoLink\<close>).
  \<^item> \<open>hardy-cspcl\<close>: configuration (\<open>config.rs\<close>: \<open>HardyConfig\<close>), adapter and dispatcher loop
    (\<open>lib.rs\<close>, \<open>cla.rs\<close>, \<open>dispatcher.rs\<close>: \<open>HardyCla\<close>), the life of a registered adapter with its
    transport (\<open>transport.rs\<close>: \<open>HardyLifecycle\<close>).
  \<^item> \<open>hardy-cspcl-server\<close>: its configuration file and \<open>main\<close> (\<open>HardyServer\<close>).

  \<open>Prelude\<close> has the shared types (machine words, strings, results), the decimal text of
  \<open>u8\<close>, and the locales for reachability (\<open>invariant_system\<close>), for text and byte codecs (\<open>codec\<close>), for
  the simulation of a system by an abstract one (\<open>simulation\<close>) and for sources of streams that close for good
  (\<open>closing_source\<close>), which the theories interpret on their own definitions; \<open>growing_pause\<close> in \<open>ReopenLoop\<close> is the
  contract of the two \<open>Backoff\<close> types, and \<open>conn_calls\<close> in \<open>CPool\<close> carries what every call of libcsp keeps over to the
  operations of the pool.

  \<^bold>\<open>How the code is modelled.\<close> Sequential code is a function of its arguments and of the state it
  changes; \<open>Result\<close> is a sum with the error on the left, and a panic is the value \<open>Panics\<close> of
  \<open>outcome\<close>, or a step of its own in the step relations. The C functions, and third-party code
  (the BPA, its node identifiers), are arguments. The C core is modelled the same way over libcsp,
  whose functions are the fields of an environment record (\<open>conn_env\<close>, \<open>send_env\<close>, \<open>recv_env\<close>, \<open>init_env\<close>); what
  is relied on of them is stated with observers of the outside world (open connections, bundles
  sent, packets read, time waited). \<open>CDelivery\<close>, \<open>RustLife\<close> and \<open>RecvBundle\<close> put the C functions in place of the
  arguments of the Rust code.
  \<open>EndToEnd\<close> has libcsp as a parameter at both ends. The peer's calls of libcsp on a connection form a log, of which any prefix is a
  moment that the sender may look at, the middle of a receive call included, since the acknowledgement leaves before
  the call returns; of the connection it is assumed that the sender reads only acknowledgements that were sent, and that
  the peer is handed only bundles that were sent, in order and each at most once (\<open>carries\<close>). \<open>life_step\<close> in \<open>CLife\<close> has
  every call of the C interface that changes an instance or opens and closes connections, with the set of connections
  that the caller has.
  The lookup loops and the retry loop are total functions; no fuel is used.

  Concurrent code is a step relation whose steps are the regions between two points where other
  threads can interfere: a region under a lock is one step, lock acquisition is a guard, waiting
  on a condition variable is a guard on the condition. For the inbound side the state \<open>sys\<close>
  holds the receiver state, the connection table with the shared \<open>ListenerState\<close> objects behind
  their \<open>Arc\<close>s as a store, the channel of each stream, the accept lock, the receive socket, and
  a program counter for the accept threads, listeners, streams and closers, of which there may be
  any number. What C returns is arbitrary in every step, so the properties hold for every
  behaviour of the C core. Stream and connection ids are unbounded (the source counts them in
  \<open>u64\<close>). Async loops (\<open>rx_turn\<close>, \<open>hardy_turn\<close>) run from one await to the next and are fed the
  answers of the awaited futures.

  \<^bold>\<open>What is shown.\<close>

  \<^item> Inbound side: no received bundle is lost, duplicated or invented on the way to the streams;
    the number of open connections is bounded, and the kept ones are few and of distinct peers; one
    accept thread; the receive socket is not reopened while it is being closed, and a close
    completes; connections and slots are always owned by a thread that releases them. All of
    these are invariants of \<open>sys_step\<close>, proved by rule induction and collected in \<open>sys_inv\<close>.
  \<^item> Times: the detection of a reset through \<open>Duration::mul_f64\<close>, for which the theory models the
    rounding of doubles and bounds its error; the idle timeout on 64-bit counters; the grace period.
  \<^item> Sends: serialized, cancellable before they start and not after, with the results on every
    branch.
  \<^item> C core: the pool owns its connections, so none leaks, is closed twice or used after it was
    closed, with at most one per destination; every connection it keeps has had all its bundles
    acknowledged, which makes a reported send a delivered bundle, given that the peer acknowledges
    only what it received; reads acknowledge at most the bundles they return. Together, for a peer
    that runs this code: a reported send means that the peer's receive calls, the one in progress included, return all
    bundles of that connection in order. The pool refines an
    LRU cache of 16 connections for the first 2 to the 32 operations, when its tick wraps around. A
    send transmits at most twice. Receiving keeps its table and waits for a bounded time, in which libcsp may raise each read to
    the RDP timeout, and
    the Rust wrapper never slices past its buffer. Over any
    sequence of calls, accepting connections and adding some to the pool included, an instance stays well-formed and leaks
    no connection, and a Rust instance that fails to start or is dropped leaves at most receive sockets open, and the accepted
    connections that the caller still has. Once a second port was opened, the first
    one is lost to every instance without a socket, in all later states. All
    initialized instances agree with the one stack of the process.
  \<^item> Adapters: one link per process, shutdown for good, the receive loops lose no bundle and pause
    between 500 ms and 30 s; unregistering a Hardy adapter stops receiving for good and nothing else
    does, and the cancelled dispatcher ends within two steps of its own; Hardy's dispatcher and picod3tn's loop agree; peers and interfaces
    survive their text and byte forms; an interface name reaches C unchanged, and the parsers of
    interfaces of Rust and C agree; addresses survive the text forms of C.
  \<^item> Build: the compiler and bindgen see the same sources and include directories; every
    build fails once \<open>CSP_INCLUDE_DIR\<close> is set.
  \<^item> Locks: a wait for a condition ends when it no longer holds, unless the mutex is poisoned.

  \<^bold>\<open>Not modelled.\<close> libcsp (arguments, or arbitrary results); the copy of the counters of the pool
  (\<open>cspcl_conn_pool_get_stats\<close>) and its dump, which has no effect; the FreeRTOS build; the generated
  bindings; logging; the runtime (tokio), clap, serde and the gRPC client of the
  BPA; tests and the example \<open>peer.rs\<close>. What else has no definition in the Rust
  crates are accessors, imports and re-exports. In the step relations a region under a lock runs to its end, so no lock is
  poisoned there; \<open>Sync\<close> shows what a poisoned one would change. A number in a text that does not fit an
  \<open>int\<close> is undefined in C and just large in \<open>CText\<close>.
\<close>

end
